(* ===== verification/Prelude.thy ===== *)
theory Prelude
  imports Main "HOL-Library.Word" "HOL-Library.AList" "HOL-Library.Code_Target_Numeral"
begin

text \<open>
  Shared vocabulary of the development: the machine types of the Go sources, decimal
  printing (\<^verbatim>\<open>%d\<close>, \<^verbatim>\<open>strconv.FormatInt\<close>, \<^verbatim>\<open>big.Int.String\<close>), ASCII lower-casing
  (\<^verbatim>\<open>strings.ToLower\<close> on addresses), the Go conversions between \<^verbatim>\<open>int\<close>, \<^verbatim>\<open>int64\<close> and
  \<^verbatim>\<open>uint64\<close>, and the generic list and association-list lemmas the component theories use.
\<close>

section \<open>Types\<close>

type_synonym u64 = "64 word"
type_synonym byte = "8 word"

text \<open>
  Go \<^verbatim>\<open>int\<close> and \<^verbatim>\<open>int64\<close> are 64 bits wide. Where a value only travels (chain ids, log
  indices, durations) it is an \<^typ>\<open>int\<close>; where the code converts or wraps, these two
  functions are the conversions \<^verbatim>\<open>uint64(x)\<close> and \<^verbatim>\<open>int64(x)\<close> / \<^verbatim>\<open>int(x)\<close>.
\<close>

definition to_u64 :: "int \<Rightarrow> u64" where
  "to_u64 i = word_of_int i"

definition to_i64 :: "u64 \<Rightarrow> int" where
  "to_i64 w = sint w"

text \<open>\<^verbatim>\<open>int\<close> arithmetic wraps at 64 bits, that of \<^verbatim>\<open>time.Duration\<close> (nanoseconds) included.\<close>

definition wrap64 :: "int \<Rightarrow> int" where
  "wrap64 i = to_i64 (to_u64 i)"

definition Millisecond :: int where "Millisecond = 1000000"
definition Second :: int where "Second = 1000000000"

text \<open>\<^verbatim>\<open>time.NewTicker\<close> panics for an interval that is not positive.\<close>

definition ticker_ok :: "int \<Rightarrow> bool" where
  "ticker_ok d \<longleftrightarrow> 0 < d"

text \<open>The ranges of Go's \<^verbatim>\<open>int64\<close> and of the Postgres type INT.\<close>

definition in_i64 :: "int \<Rightarrow> bool" where
  "in_i64 i \<longleftrightarrow> - 9223372036854775808 \<le> i \<and> i < 9223372036854775808"

definition in_i32 :: "int \<Rightarrow> bool" where
  "in_i32 i \<longleftrightarrow> - 2147483648 \<le> i \<and> i < 2147483648"

section \<open>Theorem collections\<close>

named_theorems print_simps \<open>printing and reading of decimal numbers\<close>
named_theorems u64_simps \<open>conversions between machine integers\<close>

section \<open>Decimal printing\<close>

definition digit_char :: "nat \<Rightarrow> char" where
  "digit_char d = ''0123456789'' ! d"

definition digit_val :: "char \<Rightarrow> nat" where
  "digit_val c = of_char c - (48::nat)"

definition is_digit :: "char \<Rightarrow> bool" where
  "is_digit c \<longleftrightarrow> (48::nat) \<le> of_char c \<and> of_char c \<le> (57::nat)"

fun show_nat :: "nat \<Rightarrow> string" where
  "show_nat n = (if n < 10 then [digit_char n] else show_nat (n div 10) @ [digit_char (n mod 10)])"

declare show_nat.simps [simp del]

definition show_int :: "int \<Rightarrow> string" where
  "show_int i = (if i < 0 then CHR ''-'' # show_nat (nat (- i)) else show_nat (nat i))"

definition read_nat :: "string \<Rightarrow> nat" where
  "read_nat s = foldl (\<lambda>a c. 10 * a + digit_val c) 0 s"

definition read_int :: "string \<Rightarrow> int" where
  "read_int s = (case s of [] \<Rightarrow> 0 | c # cs \<Rightarrow> if c = CHR ''-'' then - int (read_nat cs) else int (read_nat s))"

text \<open>\<^verbatim>\<open>strings.ToLower\<close> on ASCII text (addresses are hexadecimal strings).\<close>

definition lower_char :: "char \<Rightarrow> char" where
  "lower_char c = (if (65::nat) \<le> of_char c \<and> of_char c \<le> (90::nat) then char_of (of_char c + (32::nat)) else c)"

definition to_lower :: "string \<Rightarrow> string" where
  "to_lower s = map lower_char s"

section \<open>Decimal printing: lemmas\<close>

lemma less_ten_cases:
  fixes d :: nat
  assumes "d < 10"
  shows "d = 0 \<or> d = 1 \<or> d = 2 \<or> d = 3 \<or> d = 4 \<or> d = 5 \<or> d = 6 \<or> d = 7 \<or> d = 8 \<or> d = 9"
  using assms by presburger

lemma digit_val_char [simp, print_simps]: "d < 10 \<Longrightarrow> digit_val (digit_char d) = d"
  by (drule less_ten_cases) (auto simp: digit_val_def digit_char_def)

lemma is_digit_char [simp, print_simps]: "d < 10 \<Longrightarrow> is_digit (digit_char d)"
  by (drule less_ten_cases) (auto simp: is_digit_def digit_char_def)

lemma show_nat_nonempty [simp]: "show_nat n \<noteq> []"
  by (subst show_nat.simps) simp

lemma show_nat_digits: "c \<in> set (show_nat n) \<Longrightarrow> is_digit c"
proof (induction n rule: show_nat.induct)
  case (1 n)
  show ?case
  proof (cases "n < 10")
    case True
    with "1.prems" show ?thesis by (subst (asm) show_nat.simps) simp
  next
    case False
    with "1.prems" have "c \<in> set (show_nat (n div 10)) \<or> c = digit_char (n mod 10)"
      by (subst (asm) show_nat.simps) auto
    with "1.IH" False show ?thesis by auto
  qed
qed

lemma read_nat_snoc [print_simps]: "read_nat (xs @ [c]) = 10 * read_nat xs + digit_val c"
  by (simp add: read_nat_def)

lemma read_show_nat [simp, print_simps]: "read_nat (show_nat n) = n"
proof (induction n rule: show_nat.induct)
  case (1 n)
  show ?case
  proof (cases "n < 10")
    case True
    then show ?thesis by (subst show_nat.simps) (simp add: read_nat_def)
  next
    case False
    then show ?thesis
      by (subst show_nat.simps) (simp add: read_nat_snoc "1.IH")
  qed
qed

lemma show_nat_inject [simp]: "show_nat m = show_nat n \<longleftrightarrow> m = n"
  by (metis read_show_nat)

lemma not_digit_minus [simp]: "\<not> is_digit (CHR ''-'')"
  by (simp add: is_digit_def)

lemma not_digit_colon [simp]: "\<not> is_digit (CHR '':'')"
  by (simp add: is_digit_def)

lemma not_digit_dot [simp]: "\<not> is_digit (CHR ''.'')"
  by (simp add: is_digit_def)

lemma hd_show_nat_digit: "is_digit (hd (show_nat n))"
  by (rule show_nat_digits [of _ n]) simp

lemma read_show_int [simp, print_simps]: "read_int (show_int i) = i"
proof (cases "i < 0")
  case True
  then show ?thesis by (simp add: show_int_def read_int_def)
next
  case False
  obtain c cs where s: "show_nat (nat i) = c # cs"
    using show_nat_nonempty by (meson neq_Nil_conv)
  have "c \<noteq> CHR ''-''"
    using hd_show_nat_digit [of "nat i"] s by auto
  moreover have "read_nat (c # cs) = nat i"
    using read_show_nat [of "nat i"] by (simp only: s)
  ultimately show ?thesis
    using False by (simp add: show_int_def read_int_def s)
qed

lemma show_int_inject [simp]: "show_int i = show_int j \<longleftrightarrow> i = j"
  by (metis read_show_int)

lemma show_int_no_colon [simp]: "CHR '':'' \<notin> set (show_int i)"
  using show_nat_digits [of "CHR '':''"] by (auto simp: show_int_def)

section \<open>Splitting at a separator\<close>

lemma append_sep_inject_left:
  assumes "c \<notin> set xs" and "c \<notin> set ys"
  shows "xs @ c # us = ys @ c # vs \<longleftrightarrow> xs = ys \<and> us = vs"
  using assms
proof (induction xs arbitrary: ys)
  case Nil
  then show ?case by (cases ys) auto
next
  case (Cons x xs)
  then show ?case by (cases ys) auto
qed

lemma append_sep_inject_right:
  assumes "c \<notin> set us" and "c \<notin> set vs"
  shows "xs @ c # us = ys @ c # vs \<longleftrightarrow> xs = ys \<and> us = vs"
proof -
  have "xs @ c # us = ys @ c # vs \<longleftrightarrow> rev us @ c # rev xs = rev vs @ c # rev ys"
    by (metis append.assoc append_Cons append_Nil rev.simps(2) rev_append rev_rev_ident)
  then show ?thesis
    using append_sep_inject_left [of c "rev us" "rev vs" "rev xs" "rev ys"] assms by auto
qed

section \<open>Machine integers: lemmas\<close>

lemma u64_i64 [simp, u64_simps]: "to_u64 (to_i64 w) = w"
  by (simp add: to_u64_def to_i64_def)

lemma i64_u64 [u64_simps]: "- (2 ^ 63) \<le> i \<Longrightarrow> i < 2 ^ 63 \<Longrightarrow> to_i64 (to_u64 i) = i"
  by (simp add: to_u64_def to_i64_def sint_sbintrunc' signed_take_bit_int_eq_self)

lemma to_u64_push_bit [u64_simps]: "push_bit k (to_u64 i) = to_u64 (i * 2 ^ k)"
  by (simp add: to_u64_def push_bit_eq_mult)

lemma to_i64_inject [simp, u64_simps]: "to_i64 v = to_i64 w \<longleftrightarrow> v = w"
  by (metis u64_i64)

lemma unat_to_u64 [u64_simps]: "0 \<le> i \<Longrightarrow> i < 2 ^ 64 \<Longrightarrow> int (unat (to_u64 i)) = i"
  by (simp add: to_u64_def uint_word_of_int)

lemma unat_Suc_u64 [u64_simps]: "(w::u64) \<noteq> - 1 \<Longrightarrow> unat (w + 1) = Suc (unat w)"
  using unatSuc [of w] by (simp add: add.commute) (metis add.inverse_inverse add_eq_0_iff)

lemma in_i64_to_i64 [simp, u64_simps]: "in_i64 (to_i64 w)"
  using sint_greater_eq [of w] sint_less [of w] by (simp add: in_i64_def to_i64_def)

lemma in_i64_wrap64 [simp]: "in_i64 (wrap64 i)"
  by (simp add: wrap64_def)

lemma wrap64_id: "- (2 ^ 63) \<le> i \<Longrightarrow> i < 2 ^ 63 \<Longrightarrow> wrap64 i = i"
  by (simp add: wrap64_def i64_u64)

lemma unat_u64_less: "unat (w::u64) < 2 ^ 64"
  using unsigned_less [of w] by simp

lemma unat_u64_not_max: "(w::u64) \<noteq> - 1 \<Longrightarrow> Suc (unat w) < 2 ^ 64"
  using unat_Suc_u64 unat_u64_less by metis

section \<open>Association lists as finite maps\<close>

lemma length_update_alist:
  "length (AList.update k v al) = (if k \<in> fst ` set al then length al else Suc (length al))"
  by (induction al) auto

lemma length_delete_alist:
  "distinct (map fst al) \<Longrightarrow> k \<in> fst ` set al \<Longrightarrow> Suc (length (AList.delete k al)) = length al"
  by (induction al) auto

lemma set_update_alist: "set (AList.update k v al) \<subseteq> insert (k, v) (set al)"
  by (induction al) auto

lemma update_new: "k \<notin> fst ` set m \<Longrightarrow> AList.update k v m = m @ [(k, v)]"
  by (induction m) auto

lemma fold_update_fresh:
  "distinct (map fst (m @ xs)) \<Longrightarrow> fold (\<lambda>x. AList.update (fst x) (snd x)) xs m = m @ xs"
proof (induction xs arbitrary: m)
  case (Cons x xs)
  then have "AList.update (fst x) (snd x) m = m @ [x]" by (simp add: update_new)
  with Cons.IH [of "m @ [x]"] Cons.prems show ?case by simp
qed simp

end
