(* ===== verification/Go_Errors.thy ===== *)
theory Go_Errors
  imports Prelude
begin

text \<open>
  Go error values (\<^verbatim>\<open>internal/common/errors/errors.go\<close> and the error types of the standard
  library and of go-ethereum's \<^verbatim>\<open>rpc\<close> package that the listener inspects). An \<^verbatim>\<open>error\<close> is a
  chain linked by \<^verbatim>\<open>Unwrap\<close>; \<^verbatim>\<open>errors.Is\<close> and \<^verbatim>\<open>errors.As\<close> walk that chain from the
  outside in. A Go \<^verbatim>\<open>error\<close> result is a \<^typ>\<open>'e option\<close> here, \<^const>\<open>None\<close> being \<^verbatim>\<open>nil\<close>.
\<close>

section \<open>Error values\<close>

datatype goerror =
    Canceled                       \<comment> \<open>\<^verbatim>\<open>context.Canceled\<close>\<close>
  | DeadlineExceeded               \<comment> \<open>\<^verbatim>\<open>context.DeadlineExceeded\<close>\<close>
  | EOF | UnexpectedEOF            \<comment> \<open>\<^verbatim>\<open>io\<close>\<close>
  | ErrClosed                      \<comment> \<open>\<^verbatim>\<open>net.ErrClosed\<close>\<close>
  | ECONNRESET | ECONNREFUSED      \<comment> \<open>\<^verbatim>\<open>syscall\<close>\<close>
  | ErrNotImplemented              \<comment> \<open>\<^verbatim>\<open>decryption.ErrNotImplemented\<close>\<close>
  | Opaque string                  \<comment> \<open>\<^verbatim>\<open>errors.New\<close>, or any error with no inspected type\<close>
  | RpcError int string            \<comment> \<open>\<^verbatim>\<open>rpc.Error\<close>: \<^verbatim>\<open>ErrorCode()\<close> and the message\<close>
  | HTTPError int                  \<comment> \<open>\<^verbatim>\<open>rpc.HTTPError\<close>: \<^verbatim>\<open>StatusCode\<close>\<close>
  | NetError bool goerror          \<comment> \<open>\<^verbatim>\<open>net.Error\<close>: \<^verbatim>\<open>Timeout()\<close> and the wrapped cause\<close>
  | ConfigError string string      \<comment> \<open>\<^verbatim>\<open>ConfigError{Key, Msg}\<close>\<close>
  | RetryableError goerror         \<comment> \<open>\<^verbatim>\<open>RetryableError{Err}\<close>\<close>
  | Wrap string goerror            \<comment> \<open>\<^verbatim>\<open>fmt.Errorf("...: %w", err)\<close>\<close>

fun Unwrap :: "goerror \<Rightarrow> goerror option" where
  "Unwrap (NetError t e) = Some e"
| "Unwrap (RetryableError e) = Some e"
| "Unwrap (Wrap m e) = Some e"
| "Unwrap _ = None"

text \<open>The \<^verbatim>\<open>Unwrap\<close> chain of an error, outermost first.\<close>

fun chain :: "goerror \<Rightarrow> goerror list" where
  "chain (NetError t e) = NetError t e # chain e"
| "chain (RetryableError e) = RetryableError e # chain e"
| "chain (Wrap m e) = Wrap m e # chain e"
| "chain e = [e]"

definition errors_Is :: "goerror \<Rightarrow> goerror \<Rightarrow> bool" where
  "errors_Is e target \<longleftrightarrow> target \<in> set (chain e)"

text \<open>\<^verbatim>\<open>errors.As\<close>: the first error of the chain that has the wanted type.\<close>

definition errors_As :: "(goerror \<Rightarrow> 'a option) \<Rightarrow> goerror \<Rightarrow> 'a option" where
  "errors_As sel e = (case filter (\<lambda>x. sel x \<noteq> None) (chain e) of [] \<Rightarrow> None | x # _ \<Rightarrow> sel x)"

fun as_retryable :: "goerror \<Rightarrow> goerror option" where
  "as_retryable (RetryableError e) = Some e"
| "as_retryable _ = None"

fun as_rpc :: "goerror \<Rightarrow> int option" where
  "as_rpc (RpcError code m) = Some code"
| "as_rpc _ = None"

fun as_http :: "goerror \<Rightarrow> int option" where
  "as_http (HTTPError code) = Some code"
| "as_http _ = None"

text \<open>
  Types with a \<^verbatim>\<open>Timeout()\<close> method: \<^verbatim>\<open>net\<close> errors, \<^verbatim>\<open>syscall.Errno\<close> (no time-out for the two
  codes kept here) and \<^verbatim>\<open>context.DeadlineExceeded\<close>.
\<close>

fun as_net :: "goerror \<Rightarrow> bool option" where
  "as_net (NetError t e) = Some t"
| "as_net ECONNRESET = Some False"
| "as_net ECONNREFUSED = Some False"
| "as_net DeadlineExceeded = Some True"
| "as_net _ = None"

fun as_config :: "goerror \<Rightarrow> (string \<times> string) option" where
  "as_config (ConfigError k m) = Some (k, m)"
| "as_config _ = None"

text \<open>\<^verbatim>\<open>Error()\<close>: the text of an error; wrappers print their prefix first.\<close>

fun Error :: "goerror \<Rightarrow> string" where
  "Error Canceled = ''context canceled''"
| "Error DeadlineExceeded = ''context deadline exceeded''"
| "Error EOF = ''EOF''"
| "Error UnexpectedEOF = ''unexpected EOF''"
| "Error ErrClosed = ''use of closed network connection''"
| "Error ECONNRESET = ''connection reset by peer''"
| "Error ECONNREFUSED = ''connection refused''"
| "Error ErrNotImplemented = ''eERC Poseidon decryption not yet implemented (awaiting test vectors)''"
| "Error (Opaque m) = m"
| "Error (RpcError c m) = m"
| "Error (HTTPError c) = show_int c"
| "Error (NetError t e) = Error e"
| "Error (ConfigError k m) = ''config error ('' @ k @ ''): '' @ m"
| "Error (RetryableError e) = Error e"
| "Error (Wrap m e) = m @ '': '' @ Error e"

section \<open>Lemmas\<close>

lemma chain_Cons: "\<exists>xs. chain e = e # xs"
  by (cases e) auto

lemma self_in_chain [simp]: "e \<in> set (chain e)"
  by (cases e) auto

lemma chain_unfold: "chain e = e # (case Unwrap e of None \<Rightarrow> [] | Some e' \<Rightarrow> chain e')"
  by (cases e) auto

lemma errors_Is_Wrap [simp]:
  "errors_Is (Wrap m e) target \<longleftrightarrow> Wrap m e = target \<or> errors_Is e target"
  by (auto simp: errors_Is_def)

lemma errors_Is_RetryableError [simp]:
  "errors_Is (RetryableError e) target \<longleftrightarrow> RetryableError e = target \<or> errors_Is e target"
  by (auto simp: errors_Is_def)

lemma errors_Is_self [simp]: "errors_Is e e"
  by (simp add: errors_Is_def)

lemma errors_As_Wrap [simp]: "sel (Wrap m e) = None \<Longrightarrow> errors_As sel (Wrap m e) = errors_As sel e"
  by (simp add: errors_As_def)

lemma errors_As_hit [simp]: "sel e = Some x \<Longrightarrow> errors_As sel e = Some x"
  using chain_Cons [of e] by (auto simp: errors_As_def)

end
