(* ===== verification/Go_Time.thy ===== *)
theory Go_Time
  imports Prelude
begin

text \<open>
  The part of Go's \<^verbatim>\<open>time\<close> package the listener uses: \<^verbatim>\<open>time.Unix(t, 0).UTC().Format(time.RFC3339)\<close>
  (both scanners), \<^verbatim>\<open>time.Parse(time.RFC3339Nano, s)\<close> and \<^verbatim>\<open>t.In(KST).Format("20060102150405")\<close>
  (\<^verbatim>\<open>internal/model/deposit.go\<close>). An instant is a number of seconds since 1970-01-01 UTC and a
  nanosecond offset; dates are proleptic Gregorian, as in Go. The calendar is computed with years
  that start in March, so that the leap day is the last day of the year.
\<close>

section \<open>Instants and civil dates\<close>

record gotime =
  Unix :: int
  Nanosecond :: nat

definition is_leap :: "int \<Rightarrow> bool" where
  "is_leap y \<longleftrightarrow> y mod 4 = 0 \<and> (y mod 100 \<noteq> 0 \<or> y mod 400 = 0)"

definition daysIn :: "int \<Rightarrow> int \<Rightarrow> int" where
  "daysIn m y =
    (if m = 2 then (if is_leap y then 29 else 28)
     else if m = 4 \<or> m = 6 \<or> m = 9 \<or> m = 11 then 30 else 31)"

text \<open>Days since 1970-01-01 of a civil date.\<close>

definition days_from_civil :: "int \<Rightarrow> int \<Rightarrow> int \<Rightarrow> int" where
  "days_from_civil y m d =
    (let y' = (if m \<le> 2 then y - 1 else y); yoe = y' mod 400;
         mp = (if m \<le> 2 then m + 9 else m - 3)
     in (y' div 400) * 146097 + (yoe * 365 + yoe div 4 - yoe div 100)
        + (153 * mp + 2) div 5 + (d - 1) - 719468)"

text \<open>
  The March-based year of the 400-year cycle and the day of that year, from the day of the cycle:
  centuries, then four-year groups, then years (the last group of each kind is one day longer).
\<close>

definition year_of_cycle :: "int \<Rightarrow> int \<times> int" where
  "year_of_cycle doe =
    (let c = min 3 (doe div 36524); r1 = doe - c * 36524;
         q = r1 div 1461; r2 = r1 - q * 1461;
         a = min 3 (r2 div 365)
     in (100 * c + 4 * q + a, r2 - a * 365))"

definition month_of_doy :: "int \<Rightarrow> int \<times> int" where
  "month_of_doy doy = (let mp = (5 * doy + 2) div 153 in (mp, doy - (153 * mp + 2) div 5 + 1))"

definition civil_from_days :: "int \<Rightarrow> int \<times> int \<times> int" where
  "civil_from_days n =
    (let z = n + 719468; (yoe, doy) = year_of_cycle (z mod 146097);
         (mp, d) = month_of_doy doy; y = yoe + (z div 146097) * 400
     in if mp < 10 then (y, mp + 3, d) else (y + 1, mp - 9, d))"

section \<open>Printing\<close>

text \<open>\<^verbatim>\<open>appendInt(b, x, width)\<close>: zero-padded decimal, longer numbers are not cut.\<close>

definition pad :: "nat \<Rightarrow> nat \<Rightarrow> string" where
  "pad w n = replicate (w - length (show_nat n)) (CHR ''0'') @ show_nat n"

definition appendInt :: "nat \<Rightarrow> int \<Rightarrow> string" where
  "appendInt w i = (if i < 0 then CHR ''-'' # pad w (nat (- i)) else pad w (nat i))"

definition Format_RFC3339_UTC :: "gotime \<Rightarrow> string" where
  "Format_RFC3339_UTC t =
    (let (y, m, d) = civil_from_days (Unix t div 86400); s = Unix t mod 86400
     in appendInt 4 y @ ''-'' @ appendInt 2 m @ ''-'' @ appendInt 2 d @ ''T''
        @ appendInt 2 (s div 3600) @ '':'' @ appendInt 2 (s div 60 mod 60)
        @ '':'' @ appendInt 2 (s mod 60) @ ''Z'')"

text \<open>\<^verbatim>\<open>t.In(zone).Format("20060102150405")\<close> for a fixed zone \<open>off\<close> seconds east of UTC.\<close>

definition Format_compact :: "int \<Rightarrow> gotime \<Rightarrow> string" where
  "Format_compact off t =
    (let loc = Unix t + off; (y, m, d) = civil_from_days (loc div 86400); s = loc mod 86400
     in appendInt 4 y @ appendInt 2 m @ appendInt 2 d
        @ appendInt 2 (s div 3600) @ appendInt 2 (s div 60 mod 60) @ appendInt 2 (s mod 60))"

section \<open>Parsing RFC 3339\<close>

fun getnum :: "bool \<Rightarrow> string \<Rightarrow> (nat \<times> string) option" where
  "getnum fixed [] = None"
| "getnum fixed [a] = (if is_digit a \<and> \<not> fixed then Some (digit_val a, []) else None)"
| "getnum fixed (a # b # s) =
    (if \<not> is_digit a then None
     else if is_digit b then Some (10 * digit_val a + digit_val b, s)
     else if fixed then None else Some (digit_val a, b # s))"

definition get_year :: "string \<Rightarrow> (nat \<times> string) option" where
  "get_year s =
    (if 4 \<le> length s \<and> list_all is_digit (take 4 s) then Some (read_nat (take 4 s), drop 4 s) else None)"

definition skip :: "char \<Rightarrow> string \<Rightarrow> string option" where
  "skip c s = (case s of [] \<Rightarrow> None | x # xs \<Rightarrow> if x = c then Some xs else None)"

text \<open>Fractional seconds: at most nine digits count, the rest is dropped.\<close>

definition get_fraction :: "string \<Rightarrow> nat \<times> string" where
  "get_fraction s =
    (case s of
       p # x # xs \<Rightarrow>
         if (p = CHR ''.'' \<or> p = CHR '','') \<and> is_digit x
         then (let ds = takeWhile is_digit (x # xs); k = take 9 ds
               in (read_nat k * 10 ^ (9 - length k), dropWhile is_digit (x # xs)))
         else (0, s)
     | _ \<Rightarrow> (0, s))"

definition get_zone :: "string \<Rightarrow> (int \<times> string) option" where
  "get_zone s =
    (case s of
       c # xs \<Rightarrow>
         if c = CHR ''Z'' then Some (0, xs)
         else if length s < 6 \<or> s ! 3 \<noteq> CHR '':'' then None
         else (case (getnum True (take 2 xs), getnum True (take 2 (drop 3 xs))) of
             (Some (hr, _), Some (mm, _)) \<Rightarrow>
               if hr > 24 \<or> mm > 60 then None
               else if c = CHR ''+'' then Some (int ((hr * 60 + mm) * 60), drop 5 xs)
               else if c = CHR ''-'' then Some (- int ((hr * 60 + mm) * 60), drop 5 xs)
               else None
           | _ \<Rightarrow> None)
     | [] \<Rightarrow> None)"

definition Parse_RFC3339Nano :: "string \<Rightarrow> gotime option" where
  "Parse_RFC3339Nano s0 =
    Option.bind (get_year s0) (\<lambda>(y, s1). Option.bind (skip (CHR ''-'') s1) (\<lambda>s2.
    Option.bind (getnum True s2) (\<lambda>(m, s3). Option.bind (skip (CHR ''-'') s3) (\<lambda>s4.
    Option.bind (getnum True s4) (\<lambda>(d, s5). Option.bind (skip (CHR ''T'') s5) (\<lambda>s6.
    Option.bind (getnum False s6) (\<lambda>(hh, s7). Option.bind (skip (CHR '':'') s7) (\<lambda>s8.
    Option.bind (getnum True s8) (\<lambda>(mi, s9). Option.bind (skip (CHR '':'') s9) (\<lambda>s10.
    Option.bind (getnum True s10) (\<lambda>(ss, s11).
      (let (ns, s12) = get_fraction s11 in
       Option.bind (get_zone s12) (\<lambda>(off, s13).
         if 1 \<le> m \<and> m \<le> 12 \<and> hh < 24 \<and> mi < 60 \<and> ss < 60 \<and> s13 = []
            \<and> 1 \<le> d \<and> int d \<le> daysIn (int m) (int y)
         then Some \<lparr>Unix = days_from_civil (int y) (int m) (int d) * 86400
                      + int (hh * 3600 + mi * 60 + ss) - off, Nanosecond = ns\<rparr>
         else None)))))))))))))"

section \<open>Calendar lemmas\<close>

lemma year_of_cycle_inverse:
  assumes "0 \<le> doe" and "doe < 146097" and "year_of_cycle doe = (yoe, doy)"
  shows "0 \<le> yoe \<and> yoe < 400 \<and> 0 \<le> doy \<and> doy \<le> 365
    \<and> yoe * 365 + yoe div 4 - yoe div 100 + doy = doe
    \<and> (doy = 365 \<longrightarrow> is_leap (yoe + 1))"
proof -
  define c where "c = min 3 (doe div 36524)"
  define r1 where "r1 = doe - c * 36524"
  define q where "q = r1 div 1461"
  define r2 where "r2 = r1 - q * 1461"
  define a where "a = min 3 (r2 div 365)"
  have yd: "yoe = 100 * c + 4 * q + a" "doy = r2 - a * 365"
    using assms(3) by (simp_all add: year_of_cycle_def Let_def c_def r1_def q_def r2_def a_def)
  have c: "0 \<le> c" "c \<le> 3" "0 \<le> r1" "r1 \<le> 36524" "c < 3 \<Longrightarrow> r1 < 36524"
    using assms(1,2) unfolding r1_def c_def by (auto simp: min_def)
  have q: "0 \<le> q" "q \<le> 24" "0 \<le> r2" "r2 \<le> 1460" "q = 24 \<Longrightarrow> c < 3 \<Longrightarrow> r2 < 1460"
    using c unfolding r2_def q_def by linarith+
  have a: "0 \<le> a" "a \<le> 3" "0 \<le> r2 - a * 365" "r2 - a * 365 \<le> 365"
    using q unfolding a_def by (auto simp: min_def)
  have full: "a = 3 \<and> r2 = 1460" if "r2 - a * 365 = 365"
  proof (cases "3 \<le> r2 div 365")
    case False
    then have "r2 - a * 365 = r2 mod 365" by (simp add: a_def minus_div_mult_eq_mod)
    with that show ?thesis by auto
  qed (use that q in \<open>simp add: a_def\<close>)
  have div4: "yoe div 4 = 25 * c + q" and div100: "yoe div 100 = c"
    unfolding yd using q(1,2) a(1,2) by linarith+
  have bounds: "0 \<le> yoe" "yoe < 400" "0 \<le> doy" "doy \<le> 365"
    using c q a yd by auto
  have sum: "yoe * 365 + yoe div 4 - yoe div 100 + doy = doe"
    unfolding div4 div100 using yd by (simp add: r2_def r1_def)
  have leap: "is_leap (yoe + 1)" if "doy = 365"
  proof -
    have "a = 3" "r2 = 1460" using full that yd by auto
    then have y: "yoe + 1 = 100 * c + 4 * (q + 1)" using yd by simp
    show ?thesis
    proof (cases "q = 24")
      case True
      then have "c = 3" using q c \<open>r2 = 1460\<close> by force
      with True y show ?thesis by (simp add: is_leap_def)
    next
      case False
      then have "4 * (q + 1) < 100" "0 < 4 * (q + 1)" using q(1,2) by simp_all
      then have "(yoe + 1) mod 100 = 4 * (q + 1)" unfolding y by simp
      moreover have "(yoe + 1) mod 4 = 0"
        unfolding y by (simp add: mod_add_eq [symmetric])
      ultimately have "(yoe + 1) mod 100 \<noteq> 0" "(yoe + 1) mod 4 = 0"
        using \<open>0 < 4 * (q + 1)\<close> by simp_all
      then show ?thesis by (simp add: is_leap_def)
    qed
  qed
  show ?thesis using bounds sum leap by simp
qed

lemma month_of_doy_inverse:
  assumes "0 \<le> doy" and "doy \<le> 365" and "month_of_doy doy = (mp, d)"
  shows "0 \<le> mp \<and> mp \<le> 11 \<and> 1 \<le> d \<and> (153 * mp + 2) div 5 + (d - 1) = doy
    \<and> d \<le> (if mp = 11 then (if doy = 365 then 29 else 28)
           else if mp \<in> {1, 3, 6, 8} then 30 else 31)"
proof -
  have mp: "mp = (5 * doy + 2) div 153" and d: "d = doy - (153 * mp + 2) div 5 + 1"
    using assms(3) by (auto simp: month_of_doy_def Let_def)
  have b: "153 * mp \<le> 5 * doy + 2" "5 * doy + 2 < 153 * (mp + 1)"
    using mp by auto
  then have r: "0 \<le> mp" "mp \<le> 11" using assms(1,2) by auto
  then have "mp = 0 \<or> mp = 1 \<or> mp = 2 \<or> mp = 3 \<or> mp = 4 \<or> mp = 5 \<or> mp = 6 \<or> mp = 7
    \<or> mp = 8 \<or> mp = 9 \<or> mp = 10 \<or> mp = 11" by presburger
  then show ?thesis
    using b assms(1,2) r unfolding d by (elim disjE) simp_all
qed

lemma is_leap_cycle: "is_leap (y + k * 400) = is_leap y"
proof -
  have "(y + k * 400) mod 4 = y mod 4" "(y + k * 400) mod 100 = y mod 100"
    using mod_mult_self1 [of y "100 * k" 4] mod_mult_self1 [of y "4 * k" 100]
    by (simp_all add: mult.commute mult.left_commute)
  then show ?thesis by (simp add: is_leap_def)
qed

lemma civil_from_days_inverse:
  assumes "civil_from_days n = (y, m, d)"
  shows "days_from_civil y m d = n \<and> 1 \<le> m \<and> m \<le> 12 \<and> 1 \<le> d \<and> d \<le> daysIn m y"
proof -
  define z where "z = n + 719468"
  obtain yoe doy where yd: "year_of_cycle (z mod 146097) = (yoe, doy)" by fastforce
  obtain mp d' where md: "month_of_doy doy = (mp, d')" by fastforce
  note Y = year_of_cycle_inverse [OF _ _ yd, simplified]
  note M = month_of_doy_inverse [OF _ _ md]
  define y' where "y' = yoe + (z div 146097) * 400"
  have y'_mod: "y' mod 400 = yoe" and y'_div: "y' div 400 = z div 146097"
    using Y by (simp_all add: y'_def)
  have z: "z div 146097 * 146097 + z mod 146097 = z" by simp
  have res: "(y, m, d) = (if mp < 10 then (y', mp + 3, d') else (y' + 1, mp - 9, d'))"
    using assms yd md by (auto simp: civil_from_days_def Let_def z_def y'_def)
  have mp: "0 \<le> mp" "mp \<le> 11" "1 \<le> d'" "(153 * mp + 2) div 5 + (d' - 1) = doy"
    using M Y by auto
  have days: "z div 146097 * 146097 + (yoe * 365 + yoe div 4 - yoe div 100)
      + (153 * mp + 2) div 5 + (d' - 1) - 719468 = n"
    using Y mp(4) z unfolding z_def by linarith
  have leap: "is_leap (y' + 1)" if "doy = 365"
    using Y that is_leap_cycle [of "yoe + 1" "z div 146097"] by (simp add: y'_def algebra_simps)
  show ?thesis
  proof (cases "mp < 10")
    case True
    then have r: "y = y'" "m = mp + 3" "d = d'" using res by auto
    have "days_from_civil y m d = n"
      using days True mp by (simp add: r days_from_civil_def y'_mod y'_div)
    moreover have "d \<le> daysIn m y"
      using M Y True mp by (auto simp: r daysIn_def split: if_splits)
    ultimately show ?thesis using mp True r by simp
  next
    case False
    then have r: "y = y' + 1" "m = mp - 9" "d = d'" using res by auto
    have "days_from_civil y m d = n"
      using days False mp by (simp add: r days_from_civil_def y'_mod y'_div)
    moreover have "d \<le> daysIn m y"
      using M Y False mp leap by (auto simp: r daysIn_def split: if_splits)
    ultimately show ?thesis using mp False r by simp
  qed
qed

lemma civil_year_bounds:
  assumes "0 \<le> n" and "n < 2932897" and "civil_from_days n = (y, m, d)"
  shows "0 \<le> y \<and> y < 10000"
proof -
  define z where "z = n + 719468"
  obtain yoe doy where yd: "year_of_cycle (z mod 146097) = (yoe, doy)" by fastforce
  obtain mp d' where md: "month_of_doy doy = (mp, d')" by fastforce
  note Y = year_of_cycle_inverse [OF _ _ yd, simplified]
  have M: "0 \<le> mp" "mp \<le> 11" "(153 * mp + 2) div 5 \<le> doy"
    using month_of_doy_inverse [OF _ _ md] Y by auto
  have z: "z div 146097 * 146097 + z mod 146097 = z" "0 \<le> z" "z < 3652365"
    using assms(1,2) by (simp_all add: z_def)
  then have era: "0 \<le> z div 146097" "z div 146097 \<le> 24" by linarith+
  have y: "y = (if mp < 10 then yoe + z div 146097 * 400 else yoe + z div 146097 * 400 + 1)"
    using assms(3) yd md by (auto simp: civil_from_days_def Let_def z_def split: if_splits)
  have "yoe < 399" if "\<not> mp < 10" "z div 146097 = 24"
  proof (rule ccontr)
    assume "\<not> yoe < 399"
    then have "yoe = 399" using Y by linarith
    moreover have "306 \<le> doy" using M that(1) by linarith
    ultimately have "146037 \<le> z mod 146097" using Y by simp
    then show False using z that(2) by linarith
  qed
  then show ?thesis using y era Y by (cases "z div 146097 = 24") auto
qed

section \<open>Printing and parsing lemmas\<close>

lemma length_show_nat: "n < 10 ^ w \<Longrightarrow> 0 < w \<Longrightarrow> length (show_nat n) \<le> w"
proof (induction w arbitrary: n)
  case 0
  then show ?case by simp
next
  case (Suc w)
  show ?case
  proof (cases "n < 10")
    case True
    then show ?thesis by (subst show_nat.simps) simp
  next
    case False
    with Suc.prems have "n div 10 < 10 ^ w" and "0 < w"
      by (auto intro: ccontr)
    then have "length (show_nat (n div 10)) \<le> w" by (rule Suc.IH)
    with False show ?thesis by (subst show_nat.simps) simp
  qed
qed

lemma digit_val_zero [simp]: "digit_val (CHR ''0'') = 0"
  by (simp add: digit_val_def)

lemma is_digit_zero [simp]: "is_digit (CHR ''0'')"
  by (simp add: is_digit_def)

lemma read_nat_zeros [print_simps]: "read_nat (replicate k (CHR ''0'') @ s) = read_nat s"
  by (induction k) (simp_all add: read_nat_def)

lemma read_pad [simp, print_simps]: "read_nat (pad w n) = n"
  by (simp add: pad_def read_nat_zeros)

lemma length_pad: "n < 10 ^ w \<Longrightarrow> 0 < w \<Longrightarrow> length (pad w n) = w"
  using length_show_nat by (fastforce simp: pad_def)

lemma pad_digits: "list_all is_digit (pad w n)"
  using show_nat_digits by (auto simp: pad_def list_all_iff)

lemma get_year_pad: "n < 10000 \<Longrightarrow> get_year (pad 4 n @ s) = Some (n, s)"
  using length_pad [of n 4] by (simp add: get_year_def pad_digits)

lemma getnum_pad: "n < 100 \<Longrightarrow> getnum fixed (pad 2 n @ s) = Some (n, s)"
proof -
  assume n: "n < 100"
  then have "length (pad 2 n) = 2" by (intro length_pad) auto
  then obtain a b where p: "pad 2 n = [a, b]"
    by (auto simp: length_Suc_conv numeral_2_eq_2)
  have "is_digit a" "is_digit b" using pad_digits [of 2 n] by (simp_all add: p)
  moreover have "10 * digit_val a + digit_val b = n"
    using read_pad [of 2 n] by (simp add: p read_nat_def)
  ultimately show ?thesis by (simp add: p)
qed

lemma skip_same [simp]: "skip c (c # s) = Some s"
  by (simp add: skip_def)

lemma get_fraction_Z [simp]: "get_fraction ''Z'' = (0, ''Z'')"
  by (simp add: get_fraction_def)

lemma get_zone_Z [simp]: "get_zone ''Z'' = Some (0, '''')"
  by (simp add: get_zone_def)

lemma appendInt_nonneg: "0 \<le> i \<Longrightarrow> appendInt w i = pad w (nat i)"
  by (simp add: appendInt_def)

lemma Parse_fields:
  assumes "y < 10000" "1 \<le> m" "m \<le> 12" "1 \<le> d" "int d \<le> daysIn (int m) (int y)"
    "hh < 24" "mi < 60" "ss < 60"
  shows "Parse_RFC3339Nano (pad 4 y @ CHR ''-'' # pad 2 m @ CHR ''-'' # pad 2 d @ CHR ''T'' # pad 2 hh
      @ CHR '':'' # pad 2 mi @ CHR '':'' # pad 2 ss @ ''Z'')
    = Some \<lparr>Unix = days_from_civil (int y) (int m) (int d) * 86400 + int (hh * 3600 + mi * 60 + ss),
            Nanosecond = 0\<rparr>"
proof -
  have "d < 100"
    using assms(5) by (auto simp: daysIn_def split: if_splits)
  then show ?thesis
    using assms by (simp add: Parse_RFC3339Nano_def get_year_pad getnum_pad)
qed

text \<open>
  Formatting a UTC instant and parsing it back gives the instant, for the four-digit years
  the RFC 3339 layout can carry.
\<close>

lemma Parse_Format_UTC:
  assumes "Nanosecond t = 0" and "civil_from_days (Unix t div 86400) = (y, m, d)"
    and "0 \<le> y" and "y < 10000"
  shows "Parse_RFC3339Nano (Format_RFC3339_UTC t) = Some t"
proof -
  define s where "s = Unix t mod 86400"
  have s: "0 \<le> s" "s < 86400" by (simp_all add: s_def)
  note C = civil_from_days_inverse [OF assms(2)]
  have nn: "0 \<le> s div 3600" "0 \<le> s div 60 mod 60" "0 \<le> s mod 60"
    using s(1) by (simp_all add: pos_imp_zdiv_nonneg_iff)
  have md: "0 \<le> m" "0 \<le> d" using C by simp_all
  have f: "Format_RFC3339_UTC t = pad 4 (nat y) @ CHR ''-'' # pad 2 (nat m) @ CHR ''-'' # pad 2 (nat d)
      @ CHR ''T'' # pad 2 (nat (s div 3600)) @ CHR '':'' # pad 2 (nat (s div 60 mod 60))
      @ CHR '':'' # pad 2 (nat (s mod 60)) @ ''Z''"
    by (simp add: Format_RFC3339_UTC_def assms(2) appendInt_nonneg nn md assms(3) flip: s_def)
  have n: "nat (s div 3600) < 24" "nat (s div 60 mod 60) < 60" "nat (s mod 60) < 60"
  proof -
    have "s div 3600 < 24" using s(2) by (simp add: div_less_iff_less_mult)
    then show "nat (s div 3600) < 24" by simp
    show "nat (s div 60 mod 60) < 60" "nat (s mod 60) < 60"
      by (simp_all add: nat_less_iff)
  qed
  have hms: "int (nat (s div 3600) * 3600 + nat (s div 60 mod 60) * 60 + nat (s mod 60)) = s"
  proof -
    have "s div 3600 = s div 60 div 60"
      using zdiv_zmult2_eq [of 60 s 60] by simp
    moreover have "s div 60 div 60 * 60 + s div 60 mod 60 = s div 60" "s div 60 * 60 + s mod 60 = s"
      by (rule div_mult_mod_eq)+
    ultimately have "s div 3600 * 3600 + s div 60 mod 60 * 60 + s mod 60 = s"
      by linarith
    with nn show ?thesis by (simp only: of_nat_add of_nat_mult of_nat_numeral int_nat_eq if_True)
  qed
  have "Unix t = Unix t div 86400 * 86400 + s" by (simp add: s_def)
  with C assms have u: "Unix t = days_from_civil y m d * 86400 + s" by simp
  have ymd: "int (nat y) = y" "int (nat m) = m" "int (nat d) = d"
    using assms(3) C by simp_all
  have r: "nat y < 10000" "1 \<le> nat m" "nat m \<le> 12" "1 \<le> nat d"
    using C assms(4) by linarith+
  have "Parse_RFC3339Nano (Format_RFC3339_UTC t)
      = Some \<lparr>Unix = days_from_civil (int (nat y)) (int (nat m)) (int (nat d)) * 86400
          + int (nat (s div 3600) * 3600 + nat (s div 60 mod 60) * 60 + nat (s mod 60)), Nanosecond = 0\<rparr>"
    unfolding f by (rule Parse_fields [OF r _ n]) (simp only: ymd C)
  also have "\<dots> = Some \<lparr>Unix = Unix t, Nanosecond = 0\<rparr>"
    unfolding hms ymd u ..
  also have "\<dots> = Some t"
    using assms(1) by (cases t) simp
  finally show ?thesis .
qed

text \<open>The last second of the year 9999 is 253402300799.\<close>

lemma Parse_Format_Unix:
  assumes "0 \<le> u" and "u < 253402300800"
  shows "Parse_RFC3339Nano (Format_RFC3339_UTC \<lparr>Unix = u, Nanosecond = 0\<rparr>)
    = Some \<lparr>Unix = u, Nanosecond = 0\<rparr>"
proof -
  obtain y m d where c: "civil_from_days (u div 86400) = (y, m, d)" by (cases "civil_from_days (u div 86400)")
  have "0 \<le> u div 86400" "u div 86400 < 2932897" using assms by linarith+
  then have "0 \<le> y" "y < 10000" using civil_year_bounds [OF _ _ c] by simp_all
  then show ?thesis using c by (intro Parse_Format_UTC) simp_all
qed

end
