(* ===== verification/Deposit.thy ===== *)
theory Deposit
  imports Go_Time
begin

text \<open>
  Package \<^verbatim>\<open>internal/model\<close>: the deposit records, the conversion \<^verbatim>\<open>ToDeposit\<close> from a scanned event,
  the fixed-point printer \<^verbatim>\<open>formatUnits\<close> and the Korean time stamps of \<^verbatim>\<open>formatKst\<close>. A Go slice
  expression out of range panics; the printer returns \<^const>\<open>None\<close> there.
\<close>

section \<open>Records\<close>

datatype DepositStatus = StatusConfirmed | StatusPending

definition status_text :: "DepositStatus \<Rightarrow> string" where
  "status_text s = (case s of StatusConfirmed \<Rightarrow> ''TXCF'' | StatusPending \<Rightarrow> ''TXPD'')"

record DepositEvent =
  ev_ChainID :: int
  ev_TxHash :: string
  ev_LogIndex :: int
  ev_FromAddress :: string
  ev_ToAddress :: string
  ev_Amount :: "int option" \<comment> \<open>\<^verbatim>\<open>*big.Int\<close>, \<^const>\<open>None\<close> for \<^verbatim>\<open>nil\<close>\<close>
  ev_Symbol :: string
  ev_Decimals :: int
  ev_Confirmations :: int
  ev_TransactionDatetime :: string

record Deposit =
  ChainID :: int
  TxHash :: string
  LogIndex :: int
  FromAddress :: string
  ToAddress :: string
  Amount :: string
  ConfirmCount :: int
  Symbol :: string
  Status :: string
  TransactionDatetime :: string
  ReceivedDatetimeMs :: string

text \<open>The identity of a deposit: the columns of the UNIQUE constraint of the buffer.\<close>

type_synonym dep_key = "int \<times> string \<times> int"

definition deposit_key :: "Deposit \<Rightarrow> dep_key" where
  "deposit_key d = (ChainID d, TxHash d, LogIndex d)"

definition event_key :: "DepositEvent \<Rightarrow> dep_key" where
  "event_key e = (ev_ChainID e, ev_TxHash e, ev_LogIndex e)"

section \<open>Amounts and time stamps\<close>

text \<open>\<^verbatim>\<open>s[:pos]\<close> and \<^verbatim>\<open>s[pos:]\<close> with a possibly negative or too large \<open>pos\<close>.\<close>

definition slice_at :: "string \<Rightarrow> int \<Rightarrow> (string \<times> string) option" where
  "slice_at s pos = (if 0 \<le> pos \<and> pos \<le> int (length s) then Some (take (nat pos) s, drop (nat pos) s) else None)"

text \<open>\<^verbatim>\<open>strings.HasPrefix(s, "-")\<close>, then \<^verbatim>\<open>s[1:]\<close>: the sign and the digits.\<close>

definition split_sign :: "string \<Rightarrow> string \<times> string" where
  "split_sign s = (if take 1 s = ''-'' then (''-'', drop 1 s) else ('''', s))"

definition formatUnits :: "int option \<Rightarrow> int \<Rightarrow> string option" where
  "formatUnits wei decimals =
    (let w = (case wei of None \<Rightarrow> 0 | Some v \<Rightarrow> v);
         (sign, s) = split_sign (show_int w)
     in if decimals = 0 then Some (sign @ s)
        else (let s' = (if int (length s) \<le> decimals
                        then replicate (nat (decimals - int (length s) + 1)) (CHR ''0'') @ s else s)
              in map_option (\<lambda>(a, b). sign @ a @ ''.'' @ b) (slice_at s' (int (length s') - decimals))))"

definition kst_offset :: int where
  "kst_offset = 9 * 60 * 60"

definition formatKst :: "gotime \<Rightarrow> bool \<Rightarrow> string" where
  "formatKst t includeMs =
    (let base = Format_compact kst_offset t
     in if \<not> includeMs then base else base @ appendInt 3 (int (Nanosecond t div 1000000)))"

section \<open>ToDeposit\<close>

text \<open>
  \<open>Skip\<close> is the \<^verbatim>\<open>(nil, false)\<close> result, \<open>ToPanic\<close> the slice-bounds panic of \<^verbatim>\<open>formatUnits\<close>;
  \<open>now\<close> is the instant \<^verbatim>\<open>time.Now()\<close> returns.
\<close>

datatype to_result = Converted Deposit | Skip | ToPanic

definition ToDeposit :: "gotime \<Rightarrow> DepositEvent \<Rightarrow> int \<Rightarrow> to_result" where
  "ToDeposit now e minConfirmations =
    (case Parse_RFC3339Nano (ev_TransactionDatetime e) of
       None \<Rightarrow> Skip
     | Some tx \<Rightarrow>
         let status = (if ev_Confirmations e \<ge> minConfirmations then StatusConfirmed else StatusPending)
         in case formatUnits (ev_Amount e) (ev_Decimals e) of
              None \<Rightarrow> ToPanic
            | Some amount \<Rightarrow> Converted
                \<lparr>ChainID = ev_ChainID e, TxHash = ev_TxHash e, LogIndex = ev_LogIndex e,
                 FromAddress = ev_FromAddress e, ToAddress = ev_ToAddress e, Amount = amount,
                 ConfirmCount = ev_Confirmations e, Symbol = ev_Symbol e, Status = status_text status,
                 TransactionDatetime = formatKst tx False, ReceivedDatetimeMs = formatKst now True\<rparr>)"

section \<open>Reading an amount back\<close>

text \<open>
  The value a printed amount stands for, as a whole number of smallest units: the sign, then all
  digits with the decimal point left out.
\<close>

definition read_units :: "string \<Rightarrow> int" where
  "read_units s = (if take 1 s = ''-'' then - int (read_nat (filter is_digit s))
                   else int (read_nat (filter is_digit s)))"

section \<open>Lemmas\<close>

lemma filter_digits_show_nat [simp]: "filter is_digit (show_nat n) = show_nat n"
  using show_nat_digits by (simp add: filter_id_conv)

lemma filter_digits_split:
  "filter is_digit (take k s @ ''.'' @ drop k s) = filter is_digit s"
  by simp (metis append_take_drop_id filter_append)

lemma take1_show_nat: "take 1 (show_nat n) \<noteq> ''-''"
  using hd_show_nat_digit [of n] by (cases "show_nat n") auto

text \<open>The sign and the digits of a printed integer.\<close>

lemma show_int_sign:
  "split_sign (show_int w) = (if w < 0 then ''-'' else '''', show_nat (nat \<bar>w\<bar>))"
  using take1_show_nat by (simp add: split_sign_def show_int_def)

definition padded_digits :: "int \<Rightarrow> nat \<Rightarrow> string" where
  "padded_digits w d = (let s = show_nat (nat \<bar>w\<bar>) in
     if length s \<le> d then replicate (d - length s + 1) (CHR ''0'') @ s else s)"

lemma length_padded_digits: "d < length (padded_digits w d)"
  by (simp add: padded_digits_def Let_def)

lemma read_padded_digits: "read_nat (padded_digits w d) = nat \<bar>w\<bar>"
  using read_nat_zeros [of "Suc k" for k] by (simp add: padded_digits_def Let_def)

lemma padded_digits_digits: "c \<in> set (padded_digits w d) \<Longrightarrow> is_digit c"
  using show_nat_digits by (auto simp: padded_digits_def Let_def split: if_splits)

text \<open>\<^verbatim>\<open>formatUnits\<close> in closed form, for the non-negative decimals a token has.\<close>

lemma formatUnits_eq:
  "formatUnits wei (int d) =
    (let w = (case wei of None \<Rightarrow> 0 | Some v \<Rightarrow> v); sign = (if w < 0 then ''-'' else '''');
         s = padded_digits w d; k = length s - d
     in Some (if d = 0 then sign @ show_nat (nat \<bar>w\<bar>) else sign @ take k s @ ''.'' @ drop k s))"
proof -
  define w where "w = (case wei of None \<Rightarrow> 0 | Some v \<Rightarrow> v)"
  define s where "s = show_nat (nat \<bar>w\<bar>)"
  have p: "(if int (length s) \<le> int d then replicate (nat (int d - int (length s) + 1)) (CHR ''0'') @ s else s)
      = padded_digits w d"
    by (auto simp: padded_digits_def Let_def s_def nat_add_distrib nat_diff_distrib)
  have "slice_at (padded_digits w d) (int (length (padded_digits w d)) - int d)
      = Some (take (length (padded_digits w d) - d) (padded_digits w d),
              drop (length (padded_digits w d) - d) (padded_digits w d))"
    using length_padded_digits [of d w] by (simp add: slice_at_def nat_diff_distrib)
  moreover have "formatUnits wei (int d) =
     (if int d = 0 then Some ((if w < 0 then ''-'' else '''') @ s)
      else map_option (\<lambda>(a, b). (if w < 0 then ''-'' else '''') @ a @ ''.'' @ b)
        (slice_at (padded_digits w d) (int (length (padded_digits w d)) - int d)))"
    by (simp only: formatUnits_def Let_def w_def [symmetric] show_int_sign prod.case s_def [symmetric] p)
  ultimately show ?thesis
    by (simp add: Let_def w_def [symmetric] s_def [symmetric])
qed

lemma formatUnits_read:
  assumes "formatUnits wei (int d) = Some a"
  shows "read_units a = (case wei of None \<Rightarrow> 0 | Some v \<Rightarrow> v)"
proof -
  define w where "w = (case wei of None \<Rightarrow> 0 | Some v \<Rightarrow> v)"
  define s where "s = padded_digits w d"
  have all: "filter is_digit s = s"
    using padded_digits_digits by (simp add: s_def filter_id_conv)
  have a: "a = (if w < 0 then ''-'' else '''')
      @ (if d = 0 then show_nat (nat \<bar>w\<bar>) else take (length s - d) s @ ''.'' @ drop (length s - d) s)"
    using assms by (simp add: formatUnits_eq Let_def w_def [symmetric] s_def [symmetric] split: if_splits)
  have neg: "take 1 a = ''-'' \<longleftrightarrow> w < 0"
  proof (cases "w < 0")
    case False
    have "0 < length s - d" using length_padded_digits by (simp add: s_def)
    then have "take 1 (take (length s - d) s @ ''.'' @ drop (length s - d) s) = take 1 s"
      using length_padded_digits [of d w] by (simp add: s_def)
    moreover have "take 1 s \<noteq> ''-''"
      using padded_digits_digits [of "CHR ''-''" w d] by (cases s) (auto simp: s_def)
    ultimately show ?thesis
      using False a take1_show_nat by simp
  qed (simp add: a)
  have "read_nat (filter is_digit a) = nat \<bar>w\<bar>"
    using all filter_digits_split [of "length s - d" s] read_padded_digits [of w d]
    by (auto simp: a s_def)
  then show ?thesis
    using neg by (simp add: read_units_def w_def [symmetric])
qed

section \<open>Properties\<close>

text \<open>
  C27. A printed amount is exact and has a fixed number of decimals: for every integer amount
  (\<^verbatim>\<open>nil\<close> counts as 0, negative amounts keep their sign) and every non-negative number of decimals
  \<open>d\<close>, \<^verbatim>\<open>formatUnits\<close> returns a string from which the amount in smallest units can be read back,
  with exactly \<open>d\<close> digits after the point (and no point when \<open>d\<close> is 0).
\<close>

theorem formatUnits_exact:
  "\<exists>a. formatUnits wei (int d) = Some a
     \<and> read_units a = (case wei of None \<Rightarrow> 0 | Some v \<Rightarrow> v)
     \<and> (if d = 0 then CHR ''.'' \<notin> set a else length (tl (dropWhile (\<lambda>c. c \<noteq> CHR ''.'') a)) = d)"
proof -
  define w where "w = (case wei of None \<Rightarrow> 0 | Some v \<Rightarrow> v)"
  define s where "s = padded_digits w d"
  define k where "k = length s - d"
  have nodot: "CHR ''.'' \<notin> set s"
    using padded_digits_digits [of "CHR ''.''" w d] by (auto simp: s_def)
  have a: "formatUnits wei (int d) = Some ((if w < 0 then ''-'' else '''')
      @ (if d = 0 then show_nat (nat \<bar>w\<bar>) else take k s @ ''.'' @ drop k s))" (is "_ = Some ?a")
    by (simp add: formatUnits_eq Let_def w_def [symmetric] s_def [symmetric] k_def)
  have "c \<noteq> CHR ''.''" if "c \<in> set (take k s)" for c
    using nodot in_set_takeD [OF that] by auto
  then have "dropWhile (\<lambda>c. c \<noteq> CHR ''.'') (take k s @ ''.'' @ drop k s) = ''.'' @ drop k s"
    by (simp add: dropWhile_append2)
  then have frac: "d \<noteq> 0 \<Longrightarrow> length (tl (dropWhile (\<lambda>c. c \<noteq> CHR ''.'') ?a)) = d"
    using length_padded_digits [of d w] by (simp add: k_def s_def)
  have "CHR ''.'' \<notin> set (show_nat (nat \<bar>w\<bar>))"
    using show_nat_digits not_digit_dot by blast
  then show ?thesis
    using a formatUnits_read [OF a] frac by auto
qed

text \<open>\<^verbatim>\<open>formatUnits\<close> panics (slice bounds out of range) exactly for a negative number of decimals.\<close>

theorem formatUnits_panics_iff: "formatUnits wei decimals = None \<longleftrightarrow> decimals < 0"
proof (cases "decimals < 0")
  case True
  obtain sign s where "split_sign (show_int (case wei of None \<Rightarrow> 0 | Some v \<Rightarrow> v)) = (sign, s)"
    by fastforce
  with True show ?thesis by (simp add: formatUnits_def slice_at_def)
next
  case False
  then have "decimals = int (nat decimals)" by simp
  then show ?thesis using formatUnits_eq [of wei "nat decimals"] False by (simp add: Let_def)
qed



end
