(* ===== verification/Json.thy ===== *)
theory Json
  imports Go_Errors Deposit "HOL-Library.Char_ord" "HOL-Library.List_Lexorder" "HOL-Library.Product_Lexorder"
begin

text \<open>
  JSON documents as the sources use them: \<^verbatim>\<open>json.Marshal\<close> and \<^verbatim>\<open>json.Unmarshal\<close> of
  \<^verbatim>\<open>model.Deposit\<close> (the \<^verbatim>\<open>payload\<close> column of the buffer), the normal form in which a JSONB column
  keeps an object, and the WebSocket envelope of \<^verbatim>\<open>internal/publisher/protocol.go\<close>. Documents are
  abstract syntax; the byte syntax is that of \<^verbatim>\<open>encoding/json\<close> and carries no logic of the listener.
\<close>

section \<open>Documents\<close>

datatype json = JNull | JBool bool | JInt int | JStr string | JArr "json list"
  | JObj "(string \<times> json) list"

text \<open>
  JSONB keeps one value per key (the last one given) and orders the keys of an object by length,
  then by bytes.
\<close>

fun jsonb :: "json \<Rightarrow> json" where
  "jsonb (JObj kvs) = JObj (sort_key (\<lambda>p. (length (fst p), fst p))
     (AList.clearjunk (rev (map (\<lambda>(k, v). (k, jsonb v)) kvs))))"
| "jsonb (JArr vs) = JArr (map jsonb vs)"
| "jsonb v = v"

section \<open>Deposits\<close>

definition marshal_deposit :: "Deposit \<Rightarrow> json" where
  "marshal_deposit d = JObj
    [(''ChainID'', JInt (ChainID d)), (''TxHash'', JStr (TxHash d)), (''LogIndex'', JInt (LogIndex d)),
     (''FromAddress'', JStr (FromAddress d)), (''ToAddress'', JStr (ToAddress d)),
     (''Amount'', JStr (Amount d)), (''ConfirmCount'', JInt (ConfirmCount d)),
     (''Symbol'', JStr (Symbol d)), (''Status'', JStr (Status d)),
     (''TransactionDatetime'', JStr (TransactionDatetime d)),
     (''ReceivedDatetimeMs'', JStr (ReceivedDatetimeMs d))]"

definition zero_deposit :: Deposit where
  "zero_deposit = \<lparr>ChainID = 0, TxHash = '''', LogIndex = 0, FromAddress = '''', ToAddress = '''',
     Amount = '''', ConfirmCount = 0, Symbol = '''', Status = '''', TransactionDatetime = '''',
     ReceivedDatetimeMs = ''''\<rparr>"

text \<open>
  One member of the object: \<^verbatim>\<open>null\<close> leaves the field, a value of the wrong type or a number out of
  the range of the field is an error (decoding goes on, the first error is returned at the end).
  Keys match field names without regard to case; unknown keys are ignored.
\<close>

definition set_int :: "((int \<Rightarrow> int) \<Rightarrow> Deposit \<Rightarrow> Deposit) \<Rightarrow> json \<Rightarrow> Deposit \<Rightarrow> Deposit \<times> bool" where
  "set_int upd v d =
    (case v of JNull \<Rightarrow> (d, True) | JInt i \<Rightarrow> if in_i64 i then (upd (\<lambda>_. i) d, True) else (d, False)
     | _ \<Rightarrow> (d, False))"

definition set_str :: "((string \<Rightarrow> string) \<Rightarrow> Deposit \<Rightarrow> Deposit) \<Rightarrow> json \<Rightarrow> Deposit \<Rightarrow> Deposit \<times> bool" where
  "set_str upd v d =
    (case v of JNull \<Rightarrow> (d, True) | JStr s \<Rightarrow> (upd (\<lambda>_. s) d, True) | _ \<Rightarrow> (d, False))"

definition set_field :: "string \<Rightarrow> json \<Rightarrow> Deposit \<Rightarrow> Deposit \<times> bool" where
  "set_field key v d =
    (let k = to_lower key in
     if k = ''chainid'' then set_int ChainID_update v d
     else if k = ''txhash'' then set_str TxHash_update v d
     else if k = ''logindex'' then set_int LogIndex_update v d
     else if k = ''fromaddress'' then set_str FromAddress_update v d
     else if k = ''toaddress'' then set_str ToAddress_update v d
     else if k = ''amount'' then set_str Amount_update v d
     else if k = ''confirmcount'' then set_int ConfirmCount_update v d
     else if k = ''symbol'' then set_str Symbol_update v d
     else if k = ''status'' then set_str Status_update v d
     else if k = ''transactiondatetime'' then set_str TransactionDatetime_update v d
     else if k = ''receiveddatetimems'' then set_str ReceivedDatetimeMs_update v d
     else (d, True))"

fun set_fields :: "(string \<times> json) list \<Rightarrow> Deposit \<times> bool \<Rightarrow> Deposit \<times> bool" where
  "set_fields [] st = st"
| "set_fields ((k, v) # kvs) (d, ok) =
    (case set_field k v d of (d', ok') \<Rightarrow> set_fields kvs (d', ok \<and> ok'))"

definition unmarshal_deposit :: "json \<Rightarrow> goerror + Deposit" where
  "unmarshal_deposit j =
    (case j of
       JObj kvs \<Rightarrow> (case set_fields kvs (zero_deposit, True) of
           (d, ok) \<Rightarrow> if ok then Inr d else Inl (Opaque ''json: cannot unmarshal into Go struct field''))
     | JNull \<Rightarrow> Inr zero_deposit
     | _ \<Rightarrow> Inl (Opaque ''json: cannot unmarshal into Go value of type model.Deposit''))"

section \<open>The envelope\<close>

record envelope =
  env_Type :: string
  env_ID :: string
  env_Payload :: "json option"

definition msgTypeDeposit :: string where "msgTypeDeposit = ''deposit''"
definition msgTypeAck :: string where "msgTypeAck = ''ack''"

text \<open>\<^verbatim>\<open>fmt.Sprintf("%d:%s:%d", chainID, txHash, logIndex)\<close>\<close>

definition ackID :: "int \<Rightarrow> string \<Rightarrow> int \<Rightarrow> string" where
  "ackID chainID txHash logIndex = show_int chainID @ '':'' @ txHash @ '':'' @ show_int logIndex"

definition key_id :: "dep_key \<Rightarrow> string" where
  "key_id k = (case k of (c, t, l) \<Rightarrow> ackID c t l)"

text \<open>\<^verbatim>\<open>omitempty\<close>: an empty id and an absent payload are left out.\<close>

definition marshal_envelope :: "envelope \<Rightarrow> json" where
  "marshal_envelope e = JObj
     ([(''type'', JStr (env_Type e))] @ (if env_ID e = '''' then [] else [(''id'', JStr (env_ID e))])
      @ (case env_Payload e of None \<Rightarrow> [] | Some p \<Rightarrow> [(''payload'', p)]))"

fun unmarshal_envelope_fields :: "(string \<times> json) list \<Rightarrow> envelope \<times> bool \<Rightarrow> envelope \<times> bool" where
  "unmarshal_envelope_fields [] st = st"
| "unmarshal_envelope_fields ((k, v) # kvs) (e, ok) =
    unmarshal_envelope_fields kvs
     (if to_lower k = ''type'' then
        (case v of JStr s \<Rightarrow> (e\<lparr>env_Type := s\<rparr>, ok) | JNull \<Rightarrow> (e, ok) | _ \<Rightarrow> (e, False))
      else if to_lower k = ''id'' then
        (case v of JStr s \<Rightarrow> (e\<lparr>env_ID := s\<rparr>, ok) | JNull \<Rightarrow> (e, ok) | _ \<Rightarrow> (e, False))
      else if to_lower k = ''payload'' then (e\<lparr>env_Payload := Some v\<rparr>, ok)
      else (e, ok))"

definition unmarshal_envelope :: "json \<Rightarrow> goerror + envelope" where
  "unmarshal_envelope j =
    (let zero = \<lparr>env_Type = '''', env_ID = '''', env_Payload = None\<rparr> in
     case j of
       JObj kvs \<Rightarrow> (case unmarshal_envelope_fields kvs (zero, True) of
           (e, ok) \<Rightarrow> if ok then Inr e else Inl (Opaque ''json: cannot unmarshal into Go struct field''))
     | JNull \<Rightarrow> Inr zero
     | _ \<Rightarrow> Inl (Opaque ''json: cannot unmarshal into Go value of type publisher.envelope''))"

text \<open>\<^verbatim>\<open>encodeDeposit\<close>: marshalling a deposit (strings and integers) cannot fail.\<close>

definition encodeDeposit :: "Deposit \<Rightarrow> json \<times> string" where
  "encodeDeposit d =
    (let payload = marshal_deposit d; id = ackID (ChainID d) (TxHash d) (LogIndex d)
     in (marshal_envelope \<lparr>env_Type = msgTypeDeposit, env_ID = id, env_Payload = Some payload\<rparr>, id))"

section \<open>Lemmas\<close>

definition wf_deposit :: "Deposit \<Rightarrow> bool" where
  "wf_deposit d \<longleftrightarrow> in_i64 (ChainID d) \<and> in_i64 (LogIndex d) \<and> in_i64 (ConfirmCount d)"

lemma lower_char_simps [simp]:
  "lower_char (CHR ''A'') = CHR ''a''" "lower_char (CHR ''C'') = CHR ''c''"
  "lower_char (CHR ''D'') = CHR ''d''" "lower_char (CHR ''F'') = CHR ''f''"
  "lower_char (CHR ''H'') = CHR ''h''" "lower_char (CHR ''I'') = CHR ''i''"
  "lower_char (CHR ''L'') = CHR ''l''" "lower_char (CHR ''M'') = CHR ''m''"
  "lower_char (CHR ''R'') = CHR ''r''" "lower_char (CHR ''S'') = CHR ''s''"
  "lower_char (CHR ''T'') = CHR ''t''"
  by code_simp+

lemma lower_char_lower: "97 \<le> (of_char c :: nat) \<Longrightarrow> lower_char c = c"
  by (simp add: lower_char_def)

lemma ackID_inject:
  "ackID c t l = ackID c' t' l' \<longleftrightarrow> c = c' \<and> t = t' \<and> l = l'"
proof -
  have "ackID c t l = ackID c' t' l' \<longleftrightarrow>
      show_int c = show_int c' \<and> t @ CHR '':'' # show_int l = t' @ CHR '':'' # show_int l'"
    unfolding ackID_def
    using append_sep_inject_left [of "CHR '':''" "show_int c" "show_int c'"] by simp
  also have "\<dots> \<longleftrightarrow> c = c' \<and> t = t' \<and> l = l'"
    using append_sep_inject_right [of "CHR '':''" "show_int l" "show_int l'"] by simp
  finally show ?thesis .
qed

lemma key_id_inject [simp]: "key_id k = key_id k' \<longleftrightarrow> k = k'"
  by (cases k; cases k') (simp add: key_id_def ackID_inject)

lemma encodeDeposit_id [simp]: "snd (encodeDeposit d) = key_id (deposit_key d)"
  by (simp add: encodeDeposit_def Let_def key_id_def deposit_key_def)

lemma to_lower_keys [simp]:
  "to_lower ''ChainID'' = ''chainid''" "to_lower ''TxHash'' = ''txhash''"
  "to_lower ''LogIndex'' = ''logindex''" "to_lower ''FromAddress'' = ''fromaddress''"
  "to_lower ''ToAddress'' = ''toaddress''" "to_lower ''Amount'' = ''amount''"
  "to_lower ''ConfirmCount'' = ''confirmcount''" "to_lower ''Symbol'' = ''symbol''"
  "to_lower ''Status'' = ''status''" "to_lower ''TransactionDatetime'' = ''transactiondatetime''"
  "to_lower ''ReceivedDatetimeMs'' = ''receiveddatetimems''"
  "to_lower ''type'' = ''type''" "to_lower ''id'' = ''id''" "to_lower ''payload'' = ''payload''"
  by (simp_all add: to_lower_def lower_char_lower)

text \<open>The key order of a stored deposit.\<close>

lemma jsonb_marshal_deposit:
  "jsonb (marshal_deposit d) = JObj
    [(''Amount'', JStr (Amount d)), (''Status'', JStr (Status d)), (''Symbol'', JStr (Symbol d)),
     (''TxHash'', JStr (TxHash d)), (''ChainID'', JInt (ChainID d)), (''LogIndex'', JInt (LogIndex d)),
     (''ToAddress'', JStr (ToAddress d)), (''FromAddress'', JStr (FromAddress d)),
     (''ConfirmCount'', JInt (ConfirmCount d)),
     (''ReceivedDatetimeMs'', JStr (ReceivedDatetimeMs d)),
     (''TransactionDatetime'', JStr (TransactionDatetime d))]"
  by (simp add: marshal_deposit_def less_char_def)

lemma unmarshal_stored:
  "wf_deposit d \<Longrightarrow> unmarshal_deposit (jsonb (marshal_deposit d)) = Inr d"
  by (simp add: jsonb_marshal_deposit unmarshal_deposit_def set_field_def set_int_def set_str_def
      wf_deposit_def zero_deposit_def)

lemma unmarshal_marshalled: "wf_deposit d \<Longrightarrow> unmarshal_deposit (marshal_deposit d) = Inr d"
  by (simp add: marshal_deposit_def unmarshal_deposit_def set_field_def set_int_def set_str_def wf_deposit_def zero_deposit_def)

end
