(* ===== verification/Interfaces.thy ===== *)
theory Interfaces
  imports Json
begin

text \<open>
  The Go interfaces through which the packages depend on each other, declared on the consumer's
  side as in the sources. An interface value is a record of operations over a state of type
  \<^typ>\<open>'b\<close> (the database pool, an RPC connection); its contract is a locale, which the providing
  component interprets.
\<close>

section \<open>publisher.Buffer\<close>

record 'b Buffer =
  PendingAll_op :: "int \<Rightarrow> 'b \<Rightarrow> (goerror + Deposit list) \<times> 'b"
  Ack_op :: "int \<Rightarrow> string \<Rightarrow> int \<Rightarrow> 'b \<Rightarrow> goerror option \<times> 'b"

text \<open>
  \<open>rows\<close> is the content of the buffer in id order. Both calls may fail for outside reasons; a
  failed \<^verbatim>\<open>Ack\<close> may or may not have removed the row.
\<close>

locale publisher_buffer =
  fixes B :: "'b Buffer" and rows :: "'b \<Rightarrow> Deposit list" and inv :: "'b \<Rightarrow> bool"
  assumes rows_distinct: "inv b \<Longrightarrow> distinct (map deposit_key (rows b))"
    and pending_frame: "inv b \<Longrightarrow> PendingAll_op B n b = (r, b') \<Longrightarrow> inv b' \<and> rows b' = rows b"
    and pending_result: "inv b \<Longrightarrow> PendingAll_op B n b = (Inr ds, b') \<Longrightarrow> ds = take (nat n) (rows b)"
    and ack_inv: "inv b \<Longrightarrow> Ack_op B c t l b = (e, b') \<Longrightarrow> inv b'"
    and ack_rows: "inv b \<Longrightarrow> Ack_op B c t l b = (e, b') \<Longrightarrow>
        rows b' = filter (\<lambda>d. deposit_key d \<noteq> (c, t, l)) (rows b) \<or> e \<noteq> None \<and> rows b' = rows b"
begin

lemma ack_keeps_others:
  assumes "inv b" and "Ack_op B c t l b = (e, b')" and "d \<in> set (rows b)" and "deposit_key d \<noteq> (c, t, l)"
  shows "d \<in> set (rows b')"
  using ack_rows [OF assms(1,2)] assms(3,4) by auto

lemma ack_only_removes:
  assumes "inv b" and "Ack_op B c t l b = (e, b')"
  shows "set (rows b') \<subseteq> set (rows b)"
  using ack_rows [OF assms] by auto

lemma ack_removes:
  assumes "inv b" and "Ack_op B c t l b = (None, b')"
  shows "rows b' = filter (\<lambda>d. deposit_key d \<noteq> (c, t, l)) (rows b)"
  using ack_rows [OF assms] by auto

end

text \<open>A buffer whose backend answers: while \<open>up\<close> holds, reads return and rows of the buffer are removed.\<close>

locale responsive_buffer = publisher_buffer +
  fixes up :: "'a \<Rightarrow> bool"
  assumes pending_up: "inv b \<Longrightarrow> up b \<Longrightarrow> 0 \<le> n \<Longrightarrow> PendingAll_op B n b = (Inr (take (nat n) (rows b)), b)"
    and ack_up: "inv b \<Longrightarrow> up b \<Longrightarrow> (c, t, l) \<in> deposit_key ` set (rows b) \<Longrightarrow>
        \<exists>b'. Ack_op B c t l b = (None, b') \<and> up b'"
begin

lemma ack_served:
  assumes "inv b" and "up b" and "(c, t, l) \<in> deposit_key ` set (rows b)"
  obtains b' where "Ack_op B c t l b = (None, b')" and "up b'" and "inv b'"
    and "rows b' = filter (\<lambda>d. deposit_key d \<noteq> (c, t, l)) (rows b)"
  using ack_up [OF assms] ack_removes [OF assms(1)] ack_inv [OF assms(1)] by metis

end

section \<open>audit.Buffer\<close>

record 'b AuditBuffer =
  Cursor_op :: "int \<Rightarrow> string \<Rightarrow> 'b \<Rightarrow> (goerror + u64) \<times> 'b"
  PendingInRange_op :: "int \<Rightarrow> u64 \<Rightarrow> u64 \<Rightarrow> 'b \<Rightarrow> (goerror + Deposit list) \<times> 'b"

text \<open>\<open>block_rows b c f t\<close> are the pending deposits of chain \<open>c\<close> in the blocks \<open>f\<close> to \<open>t\<close>. Both calls only read.\<close>

locale audit_buffer =
  fixes B :: "'b AuditBuffer" and block_rows :: "'b \<Rightarrow> int \<Rightarrow> u64 \<Rightarrow> u64 \<Rightarrow> Deposit list"
    and cursor :: "'b \<Rightarrow> int \<Rightarrow> string \<Rightarrow> u64" and tables :: "'b \<Rightarrow> 'd" and inv :: "'b \<Rightarrow> bool"
  assumes cursor_frame: "inv b \<Longrightarrow> Cursor_op B c n b = (r, b') \<Longrightarrow> inv b' \<and> tables b' = tables b"
    and cursor_result: "inv b \<Longrightarrow> Cursor_op B c n b = (Inr v, b') \<Longrightarrow> v = cursor b c n"
    and range_frame: "inv b \<Longrightarrow> PendingInRange_op B c f t b = (q, b') \<Longrightarrow> inv b' \<and> tables b' = tables b"
    and range_result: "inv b \<Longrightarrow> PendingInRange_op B c f t b = (Inr ds, b') \<Longrightarrow> ds = block_rows b c f t"

section \<open>scanner.Scanner (and audit.Scanner)\<close>

record 's Scanner =
  Name :: string
  ScanBlock :: "u64 \<Rightarrow> int \<Rightarrow> 's \<Rightarrow> (goerror + DepositEvent list) \<times> 's"

text \<open>
  What the Go types say of the events: the fields are \<^verbatim>\<open>int64\<close> and \<^verbatim>\<open>int\<close> values. The loop relies on
  it when it stores them; both strategies provide it.
\<close>

definition typed_event :: "DepositEvent \<Rightarrow> bool" where
  "typed_event e \<longleftrightarrow> in_i64 (ev_ChainID e) \<and> in_i64 (ev_LogIndex e) \<and> in_i64 (ev_Confirmations e)"

locale typed_scanner =
  fixes S :: "'s Scanner"
  assumes events_typed: "ScanBlock S b k s = (Inr events, s') \<Longrightarrow> in_i64 k \<Longrightarrow> list_all typed_event events"

end
