(* ===== verification/Publisher.thy ===== *)
theory Publisher
  imports Interfaces Complex_Main
begin

text \<open>
  Package \<^verbatim>\<open>internal/publisher\<close>: it drains the buffer to the Adapter over a WebSocket, either fire and
  forget or with application-level ACKs and a bounded window of unacknowledged messages. The buffer
  is the interface value \<open>B\<close>; the WebSocket library is the parameter \<open>wr\<close> (\<^verbatim>\<open>conn.WriteMessage\<close>) over
  a connection state \<^typ>\<open>'c\<close>. The \<^verbatim>\<open>select\<close> loops are run over the list of the events that become
  ready, each with the time at which it is handled; durations and times are in nanoseconds.
\<close>

section \<open>Configuration\<close>

record PubConfig =
  URL :: string
  ReconnectIntervalMs :: int
  DrainTimeoutMs :: int
  PollIntervalMs :: int
  MaxBatchSize :: int
  WriteTimeout :: int
  ReadTimeout :: int
  PingInterval :: int
  RequireACK :: bool
  ACKTimeout :: int
  MaxInFlight :: int

definition maxReconnectDelayMs :: int where "maxReconnectDelayMs = 60000"
definition errorThreshold :: int where "errorThreshold = 5"

text \<open>\<^verbatim>\<open>publisher.New\<close>: defaults for values that are not positive, in the order of the source.\<close>

definition New_config :: "PubConfig \<Rightarrow> PubConfig" where
  "New_config c0 =
    (let c1 = (if WriteTimeout c0 \<le> 0 then c0\<lparr>WriteTimeout := 10 * Second\<rparr> else c0);
         c2 = (if ReadTimeout c1 \<le> 0 then c1\<lparr>ReadTimeout := 60 * Second\<rparr> else c1);
         c3 = (if PingInterval c2 \<le> 0 then c2\<lparr>PingInterval := ReadTimeout c2 div 2\<rparr> else c2);
         c4 = (if ACKTimeout c3 \<le> 0 then c3\<lparr>ACKTimeout := 30 * Second\<rparr> else c3)
     in if MaxInFlight c4 \<le> 0 then c4\<lparr>MaxInFlight := 100\<rparr> else c4)"

section \<open>Outstanding messages\<close>

record outstandingMsg =
  om_chainID :: int
  om_txHash :: string
  om_logIndex :: int
  om_sentAt :: int

text \<open>The Go map as an association list with distinct keys.\<close>

type_synonym outstanding = "(string \<times> outstandingMsg) list"

definition om_key :: "outstandingMsg \<Rightarrow> dep_key" where
  "om_key m = (om_chainID m, om_txHash m, om_logIndex m)"

definition out_add :: "int \<Rightarrow> string \<Rightarrow> int \<Rightarrow> string \<Rightarrow> int \<Rightarrow> outstanding \<Rightarrow> outstanding" where
  "out_add now mid chainID txHash logIndex o1 =
    AList.update mid \<lparr>om_chainID = chainID, om_txHash = txHash, om_logIndex = logIndex, om_sentAt = now\<rparr> o1"

definition out_has :: "string \<Rightarrow> outstanding \<Rightarrow> bool" where
  "out_has mid o1 \<longleftrightarrow> map_of o1 mid \<noteq> None"

definition out_take :: "string \<Rightarrow> outstanding \<Rightarrow> outstandingMsg option \<times> outstanding" where
  "out_take mid o1 =
    (case map_of o1 mid of None \<Rightarrow> (None, o1) | Some m \<Rightarrow> (Some m, AList.delete mid o1))"

definition out_len :: "outstanding \<Rightarrow> int" where
  "out_len o1 = int (length o1)"

text \<open>The scan for the oldest entry; \<^const>\<open>None\<close> is the zero \<^verbatim>\<open>time.Time\<close>.\<close>

fun oldest_sent :: "int option \<Rightarrow> outstanding \<Rightarrow> int option" where
  "oldest_sent acc [] = acc"
| "oldest_sent acc ((i, m) # o1) =
    oldest_sent (case acc of None \<Rightarrow> Some (om_sentAt m)
                 | Some t \<Rightarrow> if om_sentAt m < t then Some (om_sentAt m) else acc) o1"

definition oldestAge :: "int \<Rightarrow> outstanding \<Rightarrow> int" where
  "oldestAge now o1 = (case oldest_sent None o1 of None \<Rightarrow> 0 | Some t \<Rightarrow> now - t)"

section \<open>State\<close>

datatype frame = TextMessage json | PingMessage

record pub_metrics =
  PublisherSent :: nat
  PublisherSendErrors :: nat
  PublisherConnected :: bool
  PublisherReconnects :: nat
  PublisherAcksReceived :: nat
  PublisherAckTimeouts :: nat
  PublisherInFlight :: int

record ('b, 'c) pub =
  buf :: 'b
  conn :: 'c
  out :: outstanding
  met :: pub_metrics

section \<open>ACK mode\<close>

fun topUp_loop ::
  "(frame \<Rightarrow> 'c \<Rightarrow> goerror option \<times> 'c) \<Rightarrow> int \<Rightarrow> int \<Rightarrow> Deposit list \<Rightarrow> ('b, 'c) pub
     \<Rightarrow> goerror option \<times> ('b, 'c) pub" where
  "topUp_loop wr now available [] st = (None, st)"
| "topUp_loop wr now available (d # ds) st =
    (if available \<le> 0 then (None, st)
     else (case encodeDeposit d of (raw, mid) \<Rightarrow>
       if out_has mid (out st) then topUp_loop wr now available ds st
       else (case wr (TextMessage raw) (conn st) of
          (Some e, c') \<Rightarrow> (Some (Wrap (''write '' @ mid) e),
             st\<lparr>conn := c', met := met st\<lparr>PublisherSendErrors := Suc (PublisherSendErrors (met st))\<rparr>\<rparr>)
        | (None, c') \<Rightarrow> topUp_loop wr now (available - 1) ds
             (st\<lparr>conn := c', out := out_add now mid (ChainID d) (TxHash d) (LogIndex d) (out st)\<rparr>))))"

definition set_in_flight :: "('b, 'c) pub \<Rightarrow> ('b, 'c) pub" where
  "set_in_flight st = st\<lparr>met := met st\<lparr>PublisherInFlight := out_len (out st)\<rparr>\<rparr>"

definition topUp ::
  "'b Buffer \<Rightarrow> (frame \<Rightarrow> 'c \<Rightarrow> goerror option \<times> 'c) \<Rightarrow> PubConfig \<Rightarrow> int \<Rightarrow> ('b, 'c) pub
     \<Rightarrow> goerror option \<times> ('b, 'c) pub" where
  "topUp B wr cfg now st =
    (let available = MaxInFlight cfg - out_len (out st) in
     if available \<le> 0 then (None, st)
     else let limit0 = available + out_len (out st);
              limit = (if limit0 > MaxBatchSize cfg then MaxBatchSize cfg else limit0)
       in (case PendingAll_op B limit (buf st) of
          (Inl e, b') \<Rightarrow> (Some (Wrap ''PendingAll'' e), st\<lparr>buf := b'\<rparr>)
        | (Inr pending, b') \<Rightarrow>
            (case topUp_loop wr now available pending (st\<lparr>buf := b'\<rparr>) of
               (Some e, st') \<Rightarrow> (Some e, st')
             | (None, st') \<Rightarrow> (None, set_in_flight st'))))"

definition handleAck :: "'b Buffer \<Rightarrow> string \<Rightarrow> ('b, 'c) pub \<Rightarrow> goerror option \<times> ('b, 'c) pub" where
  "handleAck B mid st =
    (case out_take mid (out st) of
       (None, _) \<Rightarrow> (None, st)
     | (Some m, o') \<Rightarrow>
         let st1 = st\<lparr>out := o', met := met st\<lparr>PublisherAcksReceived := Suc (PublisherAcksReceived (met st))\<rparr>\<rparr>
         in (case Ack_op B (om_chainID m) (om_txHash m) (om_logIndex m) (buf st1) of
            (Some e, b') \<Rightarrow> (Some (Wrap ''DB Ack'' e), st1\<lparr>buf := b'\<rparr>)
          | (None, b') \<Rightarrow> (None, set_in_flight
              (st1\<lparr>buf := b', met := met st1\<lparr>PublisherSent := Suc (PublisherSent (met st1))\<rparr>\<rparr>))))"

definition writePing :: "(frame \<Rightarrow> 'c \<Rightarrow> goerror option \<times> 'c) \<Rightarrow> ('b, 'c) pub \<Rightarrow> goerror option \<times> ('b, 'c) pub" where
  "writePing wr st =
    (case wr PingMessage (conn st) of
       (Some e, c') \<Rightarrow> (Some (Wrap ''ping write'' e), st\<lparr>conn := c'\<rparr>)
     | (None, c') \<Rightarrow> (None, st\<lparr>conn := c'\<rparr>))"

text \<open>
  Graceful shutdown: each turn of the loop is one element, the time read by \<^verbatim>\<open>time.Now()\<close> and the
  ACK received in that turn, if any (\<^const>\<open>None\<close> is the 100 ms timer).
\<close>

fun gracefulACK_loop :: "'b Buffer \<Rightarrow> int \<Rightarrow> (int \<times> string option) list \<Rightarrow> ('b, 'c) pub \<Rightarrow> ('b, 'c) pub" where
  "gracefulACK_loop B deadline [] st = st"
| "gracefulACK_loop B deadline ((now, x) # turns) st =
    (if out_len (out st) > 0 \<and> now < deadline
     then gracefulACK_loop B deadline turns
       (case x of Some mid \<Rightarrow> snd (handleAck B mid st) | None \<Rightarrow> st)
     else st)"

definition gracefulACK ::
  "'b Buffer \<Rightarrow> PubConfig \<Rightarrow> int \<Rightarrow> (int \<times> string option) list \<Rightarrow> ('b, 'c) pub \<Rightarrow> goerror option \<times> ('b, 'c) pub" where
  "gracefulACK B cfg now turns st =
    (Some Canceled, gracefulACK_loop B (now + wrap64 (DrainTimeoutMs cfg * Millisecond)) turns st)"

datatype pub_event =
    CtxDone "(int \<times> string option) list"
  | ReadErr goerror
  | Wake
  | AckIn string
  | PingTick
  | PollTick
  | TimeoutTick

text \<open>One turn of the \<^verbatim>\<open>select\<close> in \<^verbatim>\<open>drainWithACK\<close>; \<^const>\<open>Some\<close> is a \<^verbatim>\<open>return\<close>. The two durations in the
  text of the timeout error are left out.\<close>

definition drainACK_step ::
  "'b Buffer \<Rightarrow> (frame \<Rightarrow> 'c \<Rightarrow> goerror option \<times> 'c) \<Rightarrow> PubConfig \<Rightarrow> int \<Rightarrow> pub_event \<Rightarrow> ('b, 'c) pub
     \<Rightarrow> goerror option \<times> ('b, 'c) pub" where
  "drainACK_step B wr cfg now ev st =
    (case ev of
       CtxDone turns \<Rightarrow> gracefulACK B cfg now turns st
     | ReadErr e \<Rightarrow> (Some (Wrap ''read loop ended'' e), st)
     | Wake \<Rightarrow> topUp B wr cfg now st
     | AckIn mid \<Rightarrow> topUp B wr cfg now (snd (handleAck B mid st))
     | PingTick \<Rightarrow> writePing wr st
     | PollTick \<Rightarrow> topUp B wr cfg now st
     | TimeoutTick \<Rightarrow>
         if oldestAge now (out st) > ACKTimeout cfg
         then (Some (Opaque ''ACK timeout exceeded''),
               st\<lparr>met := met st\<lparr>PublisherAckTimeouts := Suc (PublisherAckTimeouts (met st))\<rparr>\<rparr>)
         else (None, st))"

fun run_events ::
  "('e \<Rightarrow> 's \<Rightarrow> goerror option \<times> 's) \<Rightarrow> 'e list \<Rightarrow> 's \<Rightarrow> goerror option \<times> 's" where
  "run_events step [] st = (None, st)"
| "run_events step (ev # evs) st =
    (case step ev st of (Some e, st') \<Rightarrow> (Some e, st') | (None, st') \<Rightarrow> run_events step evs st')"

text \<open>\<^verbatim>\<open>drainWithACK\<close> on a fresh connection: an empty window, a first top-up, then the events.\<close>

definition drainWithACK ::
  "'b Buffer \<Rightarrow> (frame \<Rightarrow> 'c \<Rightarrow> goerror option \<times> 'c) \<Rightarrow> PubConfig \<Rightarrow> int \<Rightarrow> (int \<times> pub_event) list
     \<Rightarrow> ('b, 'c) pub \<Rightarrow> goerror option \<times> ('b, 'c) pub" where
  "drainWithACK B wr cfg now evs st =
    (case topUp B wr cfg now (st\<lparr>out := []\<rparr>) of
       (Some e, st') \<Rightarrow> (Some e, st')
     | (None, st') \<Rightarrow> run_events (\<lambda>(t, ev). drainACK_step B wr cfg t ev) evs st')"

section \<open>Fire-and-forget mode\<close>

fun sendBatch ::
  "'b Buffer \<Rightarrow> (frame \<Rightarrow> 'c \<Rightarrow> goerror option \<times> 'c) \<Rightarrow> Deposit list \<Rightarrow> ('b, 'c) pub
     \<Rightarrow> goerror option \<times> ('b, 'c) pub" where
  "sendBatch B wr [] st = (None, st)"
| "sendBatch B wr (d # ds) st =
    (case wr (TextMessage (marshal_deposit d)) (conn st) of
       (Some e, c') \<Rightarrow> (Some (Wrap (''write '' @ TxHash d @ ''/'' @ show_int (LogIndex d)) e),
          st\<lparr>conn := c', met := met st\<lparr>PublisherSendErrors := Suc (PublisherSendErrors (met st))\<rparr>\<rparr>)
     | (None, c') \<Rightarrow>
         (case Ack_op B (ChainID d) (TxHash d) (LogIndex d) (buf st) of
            (Some e, b') \<Rightarrow> sendBatch B wr ds (st\<lparr>conn := c', buf := b'\<rparr>)
          | (None, b') \<Rightarrow> sendBatch B wr ds
              (st\<lparr>conn := c', buf := b', met := met st\<lparr>PublisherSent := Suc (PublisherSent (met st))\<rparr>\<rparr>)))"

text \<open>
  \<^verbatim>\<open>flushUntilEmpty\<close> repeats while full batches come back and may therefore run forever: \<^const>\<open>None\<close>.
  \<open>ctx i\<close> is what \<^verbatim>\<open>ctx.Err()\<close> returns in round \<open>i\<close>.
\<close>

partial_function (option) flushUntilEmpty ::
  "'b Buffer \<Rightarrow> (frame \<Rightarrow> 'c \<Rightarrow> goerror option \<times> 'c) \<Rightarrow> PubConfig \<Rightarrow> (nat \<Rightarrow> goerror option) \<Rightarrow> nat
     \<Rightarrow> ('b, 'c) pub \<Rightarrow> (goerror option \<times> ('b, 'c) pub) option" where
  "flushUntilEmpty B wr cfg ctx i st =
    (case ctx i of
       Some e \<Rightarrow> Some (Some e, st)
     | None \<Rightarrow>
         (case PendingAll_op B (MaxBatchSize cfg) (buf st) of
            (Inl e, b') \<Rightarrow> Some (Some (Wrap ''PendingAll'' e), st\<lparr>buf := b'\<rparr>)
          | (Inr pending, b') \<Rightarrow>
              if pending = [] then Some (None, st\<lparr>buf := b'\<rparr>)
              else (case sendBatch B wr pending (st\<lparr>buf := b'\<rparr>) of
                 (Some e, st') \<Rightarrow> Some (Some e, st')
               | (None, st') \<Rightarrow>
                   if int (length pending) < MaxBatchSize cfg then Some (None, st')
                   else flushUntilEmpty B wr cfg ctx (Suc i) st')))"

datatype faf_event =
    FafCtxDone "nat \<Rightarrow> goerror option" \<comment> \<open>the drain context of the final flush\<close>
  | FafReadErr goerror
  | FafWake "nat \<Rightarrow> goerror option"
  | FafPing
  | FafPoll "nat \<Rightarrow> goerror option"

definition gracefulFireAndForget ::
  "'b Buffer \<Rightarrow> (frame \<Rightarrow> 'c \<Rightarrow> goerror option \<times> 'c) \<Rightarrow> PubConfig \<Rightarrow> (nat \<Rightarrow> goerror option) \<Rightarrow> ('b, 'c) pub
     \<Rightarrow> (goerror option \<times> ('b, 'c) pub) option" where
  "gracefulFireAndForget B wr cfg drainCtx st =
    map_option (\<lambda>(r, st'). (Some Canceled, st')) (flushUntilEmpty B wr cfg drainCtx 0 st)"

definition drainFaf_step ::
  "'b Buffer \<Rightarrow> (frame \<Rightarrow> 'c \<Rightarrow> goerror option \<times> 'c) \<Rightarrow> PubConfig \<Rightarrow> faf_event \<Rightarrow> ('b, 'c) pub
     \<Rightarrow> (goerror option \<times> ('b, 'c) pub) option" where
  "drainFaf_step B wr cfg ev st =
    (case ev of
       FafCtxDone drainCtx \<Rightarrow> gracefulFireAndForget B wr cfg drainCtx st
     | FafReadErr e \<Rightarrow> Some (Some (Wrap ''read loop ended'' e), st)
     | FafWake ctx \<Rightarrow> flushUntilEmpty B wr cfg ctx 0 st
     | FafPing \<Rightarrow> Some (writePing wr st)
     | FafPoll ctx \<Rightarrow> flushUntilEmpty B wr cfg ctx 0 st)"

fun run_faf ::
  "'b Buffer \<Rightarrow> (frame \<Rightarrow> 'c \<Rightarrow> goerror option \<times> 'c) \<Rightarrow> PubConfig \<Rightarrow> faf_event list \<Rightarrow> ('b, 'c) pub
     \<Rightarrow> (goerror option \<times> ('b, 'c) pub) option" where
  "run_faf B wr cfg [] st = Some (None, st)"
| "run_faf B wr cfg (ev # evs) st =
    (case drainFaf_step B wr cfg ev st of
       None \<Rightarrow> None
     | Some (Some e, st') \<Rightarrow> Some (Some e, st')
     | Some (None, st') \<Rightarrow> run_faf B wr cfg evs st')"

definition drainFireAndForget ::
  "'b Buffer \<Rightarrow> (frame \<Rightarrow> 'c \<Rightarrow> goerror option \<times> 'c) \<Rightarrow> PubConfig \<Rightarrow> (nat \<Rightarrow> goerror option) \<Rightarrow> faf_event list
     \<Rightarrow> ('b, 'c) pub \<Rightarrow> (goerror option \<times> ('b, 'c) pub) option" where
  "drainFireAndForget B wr cfg ctx evs st =
    (case flushUntilEmpty B wr cfg ctx 0 st of
       None \<Rightarrow> None
     | Some (Some e, st') \<Rightarrow> Some (Some e, st')
     | Some (None, st') \<Rightarrow> run_faf B wr cfg evs st')"

section \<open>The read loop\<close>

text \<open>
  \<^verbatim>\<open>startReadLoop\<close> with an ACK channel of capacity \<open>cap\<close>: text messages of type ack with an id are
  put on the channel unless it is full; everything else is ignored.
\<close>

datatype incoming = InText "json option" \<comment> \<open>\<^const>\<open>None\<close>: not JSON\<close> | InOther

fun ack_of :: "incoming \<Rightarrow> string option" where
  "ack_of (InText (Some j)) =
    (case unmarshal_envelope j of
       Inl e \<Rightarrow> None
     | Inr env \<Rightarrow> if env_Type env = msgTypeAck \<and> env_ID env \<noteq> '''' then Some (env_ID env) else None)"
| "ack_of _ = None"

definition read_step :: "int \<Rightarrow> incoming \<Rightarrow> string list \<Rightarrow> string list" where
  "read_step cap m ch =
    (case ack_of m of None \<Rightarrow> ch | Some mid \<Rightarrow> if int (length ch) < cap then ch @ [mid] else ch)"

section \<open>Reconnecting\<close>

text \<open>\<open>u\<close> is what \<^verbatim>\<open>rand.Float64()\<close> returns; the float product is taken exactly and
  converted to \<^verbatim>\<open>int\<close> by truncation towards zero.\<close>

definition nextBackoff :: "rat \<Rightarrow> int \<Rightarrow> int" where
  "nextBackoff u currentMs =
    (let doubled = currentMs * 2;
         doubled' = (if doubled > maxReconnectDelayMs then maxReconnectDelayMs else doubled);
         jitter = 4 / 5 + u * (2 / 5);
         product = rat_of_int doubled' * jitter
     in if product < 0 then \<lceil>product\<rceil> else \<lfloor>product\<rfloor>)"

text \<open>
  One pass of the loop in \<^verbatim>\<open>Run\<close>: the context has ended; or the dial fails and the sleep completes
  or is cut short by the context; or a session runs until its drain function returns.
\<close>

datatype 'c round =
    CtxOver goerror
  | DialFails goerror rat "goerror option" \<comment> \<open>jitter; the context's error if it cuts the sleep short\<close>
  | Connects 'c int "(int \<times> pub_event) list" "nat \<Rightarrow> goerror option" "faf_event list"

record run_state =
  consecutiveFailures :: int
  delayMs :: int

definition session ::
  "'b Buffer \<Rightarrow> (frame \<Rightarrow> 'c \<Rightarrow> goerror option \<times> 'c) \<Rightarrow> PubConfig \<Rightarrow> int \<Rightarrow> (int \<times> pub_event) list
    \<Rightarrow> (nat \<Rightarrow> goerror option) \<Rightarrow> faf_event list \<Rightarrow> ('b, 'c) pub \<Rightarrow> (goerror option \<times> ('b, 'c) pub) option" where
  "session B wr cfg now evs ctx fevs st =
    (if RequireACK cfg then Some (drainWithACK B wr cfg now evs st)
     else drainFireAndForget B wr cfg ctx fevs st)"

definition disconnected :: "('b, 'c) pub \<Rightarrow> ('b, 'c) pub" where
  "disconnected st = st\<lparr>met := met st\<lparr>PublisherConnected := False, PublisherInFlight := 0\<rparr>\<rparr>"

definition is_ctx_error :: "goerror \<Rightarrow> bool" where
  "is_ctx_error e \<longleftrightarrow> errors_Is e Canceled \<or> errors_Is e DeadlineExceeded"

definition count_reconnect :: "('b, 'c) pub \<Rightarrow> ('b, 'c) pub" where
  "count_reconnect st = st\<lparr>met := met st\<lparr>PublisherReconnects := Suc (PublisherReconnects (met st))\<rparr>\<rparr>"

fun Run ::
  "'b Buffer \<Rightarrow> (frame \<Rightarrow> 'c \<Rightarrow> goerror option \<times> 'c) \<Rightarrow> PubConfig \<Rightarrow> 'c round list \<Rightarrow> run_state \<Rightarrow> ('b, 'c) pub
     \<Rightarrow> (goerror option \<times> run_state \<times> ('b, 'c) pub) option" where
  "Run B wr cfg [] rs st = Some (None, rs, st)"
| "Run B wr cfg (CtxOver e # rounds) rs st = Some (Some e, rs, st)"
| "Run B wr cfg (DialFails e u interrupted # rounds) rs st =
    (let rs1 = rs\<lparr>consecutiveFailures := consecutiveFailures rs + 1\<rparr>; st1 = count_reconnect st in
     (case interrupted of
        Some ce \<Rightarrow> Some (Some ce, rs1, st1)
      | None \<Rightarrow> Run B wr cfg rounds (rs1\<lparr>delayMs := nextBackoff u (delayMs rs)\<rparr>) st1))"
| "Run B wr cfg (Connects c now evs ctx fevs # rounds) rs st =
    (let rs1 = \<lparr>consecutiveFailures = 0, delayMs = ReconnectIntervalMs cfg\<rparr>;
         st1 = count_reconnect st\<lparr>conn := c, met := met (count_reconnect st)\<lparr>PublisherConnected := True\<rparr>\<rparr>
     in (case session B wr cfg now evs ctx fevs st1 of
           None \<Rightarrow> None
         | Some (None, st2) \<Rightarrow> Some (None, rs1, st2) \<comment> \<open>events used up: still in the session\<close>
         | Some (Some e, st2) \<Rightarrow>
             if is_ctx_error e then Some (Some e, rs1, disconnected st2)
             else Run B wr cfg rounds rs1 (disconnected st2)))"

section \<open>Lemmas: outstanding messages\<close>

text \<open>Every entry is filed under the id of its key.\<close>

definition out_ok :: "outstanding \<Rightarrow> bool" where
  "out_ok o1 \<longleftrightarrow> distinct (map fst o1) \<and> (\<forall>(i, m) \<in> set o1. i = key_id (om_key m))"

definition out_keys :: "outstanding \<Rightarrow> dep_key set" where
  "out_keys o1 = om_key ` snd ` set o1"

lemma out_ok_Nil [simp]: "out_ok []"
  by (simp add: out_ok_def)

lemma out_keys_Nil [simp]: "out_keys [] = {}"
  by (simp add: out_keys_def)

lemma out_has_key: "out_ok o1 \<Longrightarrow> out_has mid o1 \<longleftrightarrow> mid \<in> key_id ` out_keys o1"
  by (force simp: out_has_def out_ok_def out_keys_def map_of_eq_None_iff image_iff)

lemma out_has_fst: "out_has mid o1 \<longleftrightarrow> mid \<in> fst ` set o1"
  by (simp add: out_has_def map_of_eq_None_iff)

lemma out_ok_mem: "out_ok o1 \<Longrightarrow> (mid, m) \<in> set o1 \<Longrightarrow> mid = key_id (om_key m) \<and> om_key m \<in> out_keys o1"
  unfolding out_ok_def out_keys_def image_image by (auto intro: rev_image_eqI)

lemma out_add_new:
  "\<not> out_has mid o1 \<Longrightarrow> out_add now mid c t l o1 = o1 @ [(mid, \<lparr>om_chainID = c, om_txHash = t, om_logIndex = l, om_sentAt = now\<rparr>)]"
  by (induction o1) (auto simp: out_add_def out_has_def split: if_splits)

lemma out_add_ok:
  assumes "out_ok o1" and "\<not> out_has mid o1" and "mid = key_id (c, t, l)"
  shows "out_ok (out_add now mid c t l o1)" and "out_keys (out_add now mid c t l o1) = insert (c, t, l) (out_keys o1)"
    and "out_len (out_add now mid c t l o1) = out_len o1 + 1"
  using assms by (auto simp: out_add_new out_ok_def out_keys_def out_len_def om_key_def out_has_fst)

lemma out_take_None: "fst (out_take mid o1) = None \<Longrightarrow> snd (out_take mid o1) = o1"
  by (auto simp: out_take_def split: option.splits)

lemma out_take_Some:
  assumes "out_ok o1" and "out_take mid o1 = (Some m, o2)"
  shows "out_ok o2" and "out_keys o2 = out_keys o1 - {om_key m}" and "mid = key_id (om_key m)"
    and "om_key m \<in> out_keys o1" and "out_len o2 = out_len o1 - 1"
proof -
  from assms(2) have m: "map_of o1 mid = Some m" and o2: "o2 = AList.delete mid o1"
    by (auto simp: out_take_def split: option.splits)
  from map_of_SomeD [OF m] have mem: "(mid, m) \<in> set o1" .
  with assms(1) show mid: "mid = key_id (om_key m)" by (auto simp: out_ok_def)
  from mem show "om_key m \<in> out_keys o1" by (force simp: out_keys_def)
  show "out_ok o2"
    using assms(1) by (auto simp: o2 out_ok_def AList.delete_eq distinct_map_filter)
  show "out_keys o2 = out_keys o1 - {om_key m}"
    using assms(1) mid by (auto simp: o2 out_keys_def AList.delete_eq out_ok_def image_iff) force+
  have "Suc (length (AList.delete mid o1)) = length o1"
    using assms(1) mem by (intro length_delete_alist) (force simp: out_ok_def)+
  then show "out_len o2 = out_len o1 - 1" by (simp add: o2 out_len_def)
qed

section \<open>Lemmas: what a step removes from the buffer\<close>

text \<open>\<open>rs'\<close> is \<open>rs\<close> without some rows whose message ids are in \<open>K\<close>.\<close>

definition removes :: "string set \<Rightarrow> Deposit list \<Rightarrow> Deposit list \<Rightarrow> bool" where
  "removes K rs rs' \<longleftrightarrow> (\<exists>P. rs' = filter P rs \<and> (\<forall>d \<in> set rs. P d \<or> key_id (deposit_key d) \<in> K))"

lemma removes_refl [simp]: "removes K rs rs"
  by (auto simp: removes_def intro!: exI [of _ "\<lambda>_. True"])

lemma removes_key: "removes {key_id k} rs (filter (\<lambda>d. deposit_key d \<noteq> k) rs)"
  by (auto simp: removes_def intro!: exI [of _ "\<lambda>d. deposit_key d \<noteq> k"])

lemma removes_trans:
  assumes "removes K rs rs'" and "removes L rs' rs''"
  shows "removes (K \<union> L) rs rs''"
proof -
  obtain P Q where "rs' = filter P rs" "rs'' = filter Q rs'"
    "\<forall>d \<in> set rs. P d \<or> key_id (deposit_key d) \<in> K" "\<forall>d \<in> set rs'. Q d \<or> key_id (deposit_key d) \<in> L"
    using assms by (auto simp: removes_def)
  then show ?thesis
    unfolding removes_def by (intro exI [of _ "\<lambda>d. P d \<and> Q d"]) auto
qed

lemma removes_mono: "removes K rs rs' \<Longrightarrow> K \<subseteq> L \<Longrightarrow> removes L rs rs'"
  by (auto simp: removes_def)

lemma removes_keeps: "removes K rs rs' \<Longrightarrow> d \<in> set rs \<Longrightarrow> key_id (deposit_key d) \<notin> K \<Longrightarrow> d \<in> set rs'"
  by (auto simp: removes_def)

lemma removes_subset: "removes K rs rs' \<Longrightarrow> set rs' \<subseteq> set rs"
  by (auto simp: removes_def)

text \<open>The ids whose ACKs an event carries.\<close>

fun acks_in :: "pub_event \<Rightarrow> string set" where
  "acks_in (AckIn mid) = {mid}"
| "acks_in (CtxDone turns) = {mid. Some mid \<in> snd ` set turns}"
| "acks_in _ = {}"

lemma topUp_loop_frame:
  assumes "topUp_loop wr now available ds st = (r, st')" and "out_ok (out st)"
  shows "buf st' = buf st \<and> out_ok (out st')
    \<and> out_keys (out st) \<subseteq> out_keys (out st')
    \<and> out_keys (out st') \<subseteq> out_keys (out st) \<union> deposit_key ` set ds
    \<and> out_len (out st') \<le> out_len (out st) + max 0 available
    \<and> (r = None \<longrightarrow> out_len (out st') = out_len (out st) + max 0 available
                    \<or> deposit_key ` set ds \<subseteq> out_keys (out st'))"
  using assms
proof (induction ds arbitrary: available st)
  case Nil
  then show ?case by simp
next
  case (Cons d ds)
  have e: "encodeDeposit d = (fst (encodeDeposit d), key_id (deposit_key d))"
    by (metis encodeDeposit_id prod.collapse)
  show ?case
  proof (cases "available \<le> 0")
    case True
    with Cons.prems show ?thesis by auto
  next
    case pos: False
    show ?thesis
    proof (cases "out_has (key_id (deposit_key d)) (out st)")
      case True
      with Cons.prems(1) pos e have "topUp_loop wr now available ds st = (r, st')"
        by (simp split: prod.splits)
      from Cons.IH [OF this Cons.prems(2)] show ?thesis
        using True out_has_key [OF Cons.prems(2)] by auto
    next
      case False
      obtain w c' where w: "wr (TextMessage (fst (encodeDeposit d))) (conn st) = (w, c')" by fastforce
      define st1 where "st1 = st\<lparr>conn := c', out := out_add now (key_id (deposit_key d))
          (ChainID d) (TxHash d) (LogIndex d) (out st)\<rparr>"
      have add: "out_ok (out st1)" "out_keys (out st1) = insert (deposit_key d) (out_keys (out st))"
        "out_len (out st1) = out_len (out st) + 1" "buf st1 = buf st"
        using out_add_ok [OF Cons.prems(2) False, of "ChainID d" "TxHash d" "LogIndex d"]
        by (simp_all add: st1_def deposit_key_def)
      show ?thesis
      proof (cases w)
        case None
        with Cons.prems(1) pos e False w have "topUp_loop wr now (available - 1) ds st1 = (r, st')"
          by (simp add: st1_def split: prod.splits)
        from Cons.IH [OF this add(1)] show ?thesis using add pos by auto
      next
        case (Some x)
        with Cons.prems pos e False w show ?thesis by (auto split: prod.splits)
      qed
    qed
  qed
qed

section \<open>Lemmas: a session over any buffer that keeps the contract\<close>

text \<open>
  The window of a connection: entries filed under their keys, each with its row still in the buffer,
  at most \<^verbatim>\<open>MaxInFlight\<close> of them.
\<close>

definition window_ok :: "PubConfig \<Rightarrow> Deposit list \<Rightarrow> outstanding \<Rightarrow> bool" where
  "window_ok cfg rs o1 \<longleftrightarrow> out_ok o1 \<and> out_keys o1 \<subseteq> deposit_key ` set rs \<and> out_len o1 \<le> MaxInFlight cfg"

lemma set_in_flight_sel [simp]:
  "buf (set_in_flight st) = buf st" "out (set_in_flight st) = out st" "conn (set_in_flight st) = conn st"
  by (simp_all add: set_in_flight_def)

lemma writePing_frame: "writePing wr st = (r, st') \<Longrightarrow> buf st' = buf st \<and> out st' = out st"
  by (auto simp: writePing_def split: prod.splits option.splits)

context publisher_buffer
begin

lemma topUp_frame:
  assumes "topUp B wr cfg now st = (r, st')" and "inv (buf st)" and "window_ok cfg (rows (buf st)) (out st)"
  shows "inv (buf st') \<and> rows (buf st') = rows (buf st) \<and> window_ok cfg (rows (buf st')) (out st')
    \<and> out_keys (out st) \<subseteq> out_keys (out st')"
proof (cases "MaxInFlight cfg - out_len (out st) \<le> 0")
  case True
  with assms show ?thesis by (auto simp: topUp_def)
next
  case False
  define limit where "limit = (if MaxInFlight cfg > MaxBatchSize cfg then MaxBatchSize cfg else MaxInFlight cfg)"
  obtain q b' where q: "PendingAll_op B limit (buf st) = (q, b')" by fastforce
  note fr = pending_frame [OF assms(2) q]
  show ?thesis
  proof (cases q)
    case (Inl e)
    with assms False q fr show ?thesis by (auto simp: topUp_def limit_def)
  next
    case (Inr ds)
    then have ds: "ds = take (nat limit) (rows (buf st))"
      using pending_result assms(2) q by blast
    obtain w st2 where l: "topUp_loop wr now (MaxInFlight cfg - out_len (out st)) ds (st\<lparr>buf := b'\<rparr>) = (w, st2)"
      by fastforce
    have "st' = st2 \<or> st' = set_in_flight st2"
      using assms(1) False q Inr l by (cases w) (auto simp: topUp_def limit_def)
    moreover have "deposit_key ` set ds \<subseteq> deposit_key ` set (rows (buf st))"
      by (intro image_mono) (simp add: ds set_take_subset)
    moreover note topUp_loop_frame [OF l]
    ultimately show ?thesis
      using assms(3) fr False by (cases "st' = st2") (simp_all add: window_ok_def, blast+)
  qed
qed

lemma handleAck_frame:
  assumes "handleAck B mid st = (r, st')" and "inv (buf st)" and "window_ok cfg (rows (buf st)) (out st)"
  shows "inv (buf st') \<and> removes {mid} (rows (buf st)) (rows (buf st')) \<and> window_ok cfg (rows (buf st')) (out st')
    \<and> conn st' = conn st"
proof (cases "fst (out_take mid (out st))")
  case None
  with assms show ?thesis by (auto simp: handleAck_def split: prod.splits)
next
  case (Some m)
  then obtain o2 where t: "out_take mid (out st) = (Some m, o2)" by (cases "out_take mid (out st)") auto
  have "out_ok (out st)" using assms(3) by (simp add: window_ok_def)
  note tk = out_take_Some [OF this t]
  obtain e b' where a: "Ack_op B (om_chainID m) (om_txHash m) (om_logIndex m) (buf st) = (e, b')" by fastforce
  have key: "(om_chainID m, om_txHash m, om_logIndex m) = om_key m" by (simp add: om_key_def)
  have st': "buf st' = b' \<and> out st' = o2 \<and> conn st' = conn st"
    using assms(1) t a by (cases e) (auto simp: handleAck_def)
  have rs: "rows b' = filter (\<lambda>d. deposit_key d \<noteq> om_key m) (rows (buf st)) \<or> rows b' = rows (buf st)"
    using ack_rows [OF assms(2) a] by (auto simp: key)
  then have "removes {mid} (rows (buf st)) (rows b')"
    using tk(3) by (auto intro: removes_key)
  moreover have "out_keys o2 \<subseteq> deposit_key ` set (rows b')"
    using rs assms(3) tk(2) unfolding window_ok_def by (elim disjE; force)
  ultimately show ?thesis
    using st' ack_inv [OF assms(2) a] tk assms(3) by (auto simp: window_ok_def)
qed

lemma gracefulACK_loop_frame:
  assumes "inv (buf st)" and "window_ok cfg (rows (buf st)) (out st)"
  shows "inv (buf (gracefulACK_loop B dl turns st))
    \<and> removes {mid. Some mid \<in> snd ` set turns} (rows (buf st)) (rows (buf (gracefulACK_loop B dl turns st)))
    \<and> window_ok cfg (rows (buf (gracefulACK_loop B dl turns st))) (out (gracefulACK_loop B dl turns st))"
  using assms
proof (induction turns arbitrary: st)
  case Nil
  then show ?case by simp
next
  case (Cons x turns)
  obtain now a where x: "x = (now, a)" by fastforce
  define st1 where "st1 = (case a of Some mid \<Rightarrow> snd (handleAck B mid st) | None \<Rightarrow> st)"
  have st1: "inv (buf st1) \<and> removes (set_option a) (rows (buf st)) (rows (buf st1)) \<and> window_ok cfg (rows (buf st1)) (out st1)"
    using Cons.prems handleAck_frame [OF prod.collapse [symmetric]] by (cases a) (auto simp: st1_def)
  show ?case
  proof (cases "out_len (out st) > 0 \<and> now < dl")
    case True
    then have "gracefulACK_loop B dl (x # turns) st = gracefulACK_loop B dl turns st1"
      by (simp add: x st1_def)
    moreover have "set_option a \<union> {mid. Some mid \<in> snd ` set turns} = {mid. Some mid \<in> snd ` set (x # turns)}"
      by (auto simp: x)
    ultimately show ?thesis
      using Cons.IH [of st1] st1 removes_trans [of "set_option a" "rows (buf st)"] by metis
  next
    case False
    with Cons.prems show ?thesis by (auto simp: x)
  qed
qed

lemma drainACK_step_frame:
  assumes "drainACK_step B wr cfg now ev st = (r, st')" and "inv (buf st)" and "window_ok cfg (rows (buf st)) (out st)"
  shows "inv (buf st') \<and> removes (acks_in ev) (rows (buf st)) (rows (buf st')) \<and> window_ok cfg (rows (buf st')) (out st')"
proof (cases ev)
  case (CtxDone turns)
  with assms show ?thesis
    using gracefulACK_loop_frame [OF assms(2,3)] by (auto simp: drainACK_step_def gracefulACK_def)
next
  case (AckIn mid)
  obtain r1 st1 where h: "handleAck B mid st = (r1, st1)" by fastforce
  note f = handleAck_frame [OF h assms(2,3)]
  have "topUp B wr cfg now st1 = (r, st')"
    using assms(1) AckIn h by (simp add: drainACK_step_def)
  from topUp_frame [OF this] f AckIn show ?thesis by auto
qed (use assms topUp_frame [of wr cfg now st r st'] writePing_frame [of wr st r st'] in
      \<open>auto simp: drainACK_step_def split: if_splits\<close>)

lemma run_events_frame:
  assumes "run_events (\<lambda>(t, ev). drainACK_step B wr cfg t ev) evs st = (r, st')"
    and "inv (buf st)" and "window_ok cfg (rows (buf st)) (out st)"
  shows "inv (buf st') \<and> removes (\<Union> (acks_in ` snd ` set evs)) (rows (buf st)) (rows (buf st'))
    \<and> window_ok cfg (rows (buf st')) (out st')"
  using assms
proof (induction evs arbitrary: st)
  case Nil
  then show ?case by simp
next
  case (Cons x evs)
  obtain t ev where x: "x = (t, ev)" by fastforce
  obtain r1 st1 where s: "drainACK_step B wr cfg t ev st = (r1, st1)" by fastforce
  note f = drainACK_step_frame [OF s Cons.prems(2,3)]
  show ?case
  proof (cases r1)
    case None
    with Cons.prems(1) x s have "run_events (\<lambda>(t, ev). drainACK_step B wr cfg t ev) evs st1 = (r, st')" by simp
    from Cons.IH [OF this] f have "inv (buf st')" "window_ok cfg (rows (buf st')) (out st')"
      "removes (acks_in ev \<union> \<Union> (acks_in ` snd ` set evs)) (rows (buf st)) (rows (buf st'))"
      using removes_trans by blast+
    then show ?thesis by (simp add: x)
  next
    case (Some e)
    with Cons.prems(1) x s f removes_mono show ?thesis by fastforce
  qed
qed

lemma drainWithACK_frame:
  assumes "drainWithACK B wr cfg now evs st = (r, st')" and "inv (buf st)" and "0 \<le> MaxInFlight cfg"
  shows "inv (buf st') \<and> removes (\<Union> (acks_in ` snd ` set evs)) (rows (buf st)) (rows (buf st'))
    \<and> window_ok cfg (rows (buf st')) (out st')"
proof -
  have w: "window_ok cfg (rows (buf st)) []"
    using assms(3) by (simp add: window_ok_def out_len_def)
  obtain r1 st1 where t: "topUp B wr cfg now (st\<lparr>out := []\<rparr>) = (r1, st1)" by fastforce
  have f: "inv (buf st1)" "rows (buf st1) = rows (buf st)" "window_ok cfg (rows (buf st1)) (out st1)"
    using topUp_frame [OF t] assms(2) w by auto
  show ?thesis
  proof (cases r1)
    case None
    with assms(1) t have "run_events (\<lambda>(t, ev). drainACK_step B wr cfg t ev) evs st1 = (r, st')"
      by (simp add: drainWithACK_def)
    from run_events_frame [OF this f(1,3)] f(2) show ?thesis by simp
  next
    case (Some e)
    with assms(1) t f show ?thesis by (auto simp: drainWithACK_def)
  qed
qed

end

section \<open>Lemmas: progress over a responsive buffer and connection\<close>

definition batch_limit :: "PubConfig \<Rightarrow> nat" where
  "batch_limit cfg = nat (min (MaxInFlight cfg) (MaxBatchSize cfg))"

lemma card_out_keys: "out_ok o1 \<Longrightarrow> int (card (out_keys o1)) = out_len o1"
proof -
  assume ok: "out_ok o1"
  then have "inj_on fst (set o1)" "distinct o1"
    by (auto simp: out_ok_def distinct_map)
  moreover have "inj_on (\<lambda>x. om_key (snd x)) (set o1)"
  proof (rule inj_onI)
    fix x y assume xy: "x \<in> set o1" "y \<in> set o1" "om_key (snd x) = om_key (snd y)"
    then have "fst x = key_id (om_key (snd x))" "fst y = key_id (om_key (snd y))"
      using ok by (fastforce simp: out_ok_def)+
    then have "fst x = fst y" using xy by simp
    with xy \<open>inj_on fst (set o1)\<close> show "x = y" by (auto dest: inj_onD)
  qed
  ultimately show ?thesis
    by (simp add: out_keys_def out_len_def image_image card_image distinct_card)
qed

lemma full_window:
  assumes "out_ok o1" and "out_keys o1 \<subseteq> deposit_key ` set ds" and "int (length ds) \<le> out_len o1"
  shows "out_keys o1 = deposit_key ` set ds"
proof (rule card_subset_eq [OF _ assms(2)])
  have "card (deposit_key ` set ds) \<le> length ds"
    by (meson card_image_le card_length finite_set le_trans)
  moreover have "length ds \<le> card (out_keys o1)"
    using card_out_keys [OF assms(1)] assms(3) by linarith
  moreover have "card (out_keys o1) \<le> card (deposit_key ` set ds)"
    using assms(2) by (simp add: card_mono)
  ultimately show "card (out_keys o1) = card (deposit_key ` set ds)" by simp
qed simp

lemma topUp_loop_no_error:
  assumes "\<forall>f c. fst (wr f c) = None"
  shows "fst (topUp_loop wr now available ds st) = None"
proof (induction ds arbitrary: available st)
  case (Cons d ds)
  have "wr f c = (None, snd (wr f c))" for f c
    using assms by (metis prod.collapse)
  with Cons show ?case by (auto split: prod.splits option.splits) (metis option.distinct(1) prod.inject)+
qed simp

context responsive_buffer
begin

lemma topUp_fills:
  assumes "inv (buf st)" and "up (buf st)" and "\<forall>f c. fst (wr f c) = None"
    and "0 < MaxInFlight cfg" and "0 < MaxBatchSize cfg"
    and "window_ok cfg (rows (buf st)) (out st)"
    and "out_keys (out st) \<subseteq> deposit_key ` set (take (batch_limit cfg) (rows (buf st)))"
  obtains st' where "topUp B wr cfg now st = (None, st')" and "buf st' = buf st"
    and "window_ok cfg (rows (buf st)) (out st')"
    and "out_keys (out st') = deposit_key ` set (take (batch_limit cfg) (rows (buf st)))"
proof -
  define ds where "ds = take (batch_limit cfg) (rows (buf st))"
  have len: "int (length ds) \<le> MaxInFlight cfg"
    using assms(4,5) by (simp add: ds_def batch_limit_def)
  have ok: "out_ok (out st)" using assms(6) by (simp add: window_ok_def)
  show thesis
  proof (cases "MaxInFlight cfg - out_len (out st) \<le> 0")
    case True
    then have "out_keys (out st) = deposit_key ` set ds"
      using full_window [OF ok, of ds] assms(7) len by (simp add: ds_def)
    with True that [of st] assms(6) show thesis by (simp add: topUp_def ds_def)
  next
    case False
    define limit where "limit = (if MaxInFlight cfg > MaxBatchSize cfg then MaxBatchSize cfg else MaxInFlight cfg)"
    have "nat limit = batch_limit cfg" "0 \<le> limit"
      using assms(4,5) by (simp_all add: limit_def batch_limit_def min_def)
    then have q: "PendingAll_op B limit (buf st) = (Inr ds, buf st)"
      using pending_up [OF assms(1,2)] by (simp add: ds_def)
    obtain r st2 where l: "topUp_loop wr now (MaxInFlight cfg - out_len (out st)) ds st = (r, st2)" by fastforce
    then have "r = None" using topUp_loop_no_error [OF assms(3)] by (metis fst_conv)
    with False q l have t: "topUp B wr cfg now st = (None, set_in_flight st2)"
      by (simp add: topUp_def limit_def)
    note f = topUp_loop_frame [OF l ok]
    have sub: "out_keys (out st2) \<subseteq> deposit_key ` set ds"
      using f assms(7) by (auto simp: ds_def)
    have "out_keys (out st2) = deposit_key ` set ds"
      using f \<open>r = None\<close> sub full_window [of "out st2" ds] len False by auto
    moreover have "window_ok cfg (rows (buf st)) (out st2)"
      using topUp_frame [OF t assms(1,6)] f by simp
    ultimately show thesis
      using that [OF t] f by (simp add: ds_def)
  qed
qed

text \<open>One ACK for the oldest row: the row goes and the window is refilled.\<close>

lemma ack_head:
  assumes "inv (buf st)" and "up (buf st)" and "\<forall>f c. fst (wr f c) = None"
    and "0 < MaxInFlight cfg" and "0 < MaxBatchSize cfg"
    and "window_ok cfg (rows (buf st)) (out st)" and "rows (buf st) = d # ds"
    and "out_keys (out st) = deposit_key ` set (take (batch_limit cfg) (rows (buf st)))"
  obtains st' where "drainACK_step B wr cfg now (AckIn (key_id (deposit_key d))) st = (None, st')"
    and "inv (buf st')" and "up (buf st')" and "rows (buf st') = ds"
    and "window_ok cfg (rows (buf st')) (out st')"
    and "out_keys (out st') = deposit_key ` set (take (batch_limit cfg) (rows (buf st')))"
proof -
  have dist: "distinct (map deposit_key (d # ds))"
    using rows_distinct [OF assms(1)] assms(7) by simp
  have "0 < batch_limit cfg" using assms(4,5) by (simp add: batch_limit_def)
  then obtain n where n: "batch_limit cfg = Suc n" by (cases "batch_limit cfg") auto
  have ok: "out_ok (out st)" using assms(6) by (simp add: window_ok_def)
  have "out_has (key_id (deposit_key d)) (out st)"
    using assms(7,8) n by (simp add: out_has_key [OF ok])
  then obtain m where mo: "map_of (out st) (key_id (deposit_key d)) = Some m"
    by (auto simp: out_has_def)
  define o2 where "o2 = AList.delete (key_id (deposit_key d)) (out st)"
  have tk: "out_take (key_id (deposit_key d)) (out st) = (Some m, o2)"
    by (simp add: out_take_def mo o2_def)
  note tks = out_take_Some [OF ok tk]
  have key: "(om_chainID m, om_txHash m, om_logIndex m) = deposit_key d"
    using tks(3) by (simp add: om_key_def)
  obtain b' where a: "Ack_op B (om_chainID m) (om_txHash m) (om_logIndex m) (buf st) = (None, b')"
      "up b'" "inv b'" "rows b' = filter (\<lambda>x. deposit_key x \<noteq> deposit_key d) (rows (buf st))"
    using ack_served [OF assms(1,2), of "om_chainID m" "om_txHash m" "om_logIndex m"] assms(7)
    unfolding key by auto
  have rows': "rows b' = ds"
    using a(4) dist assms(7) by (auto simp: filter_id_conv image_iff)
  obtain st1 where h: "handleAck B (key_id (deposit_key d)) st = (None, st1)" "buf st1 = b'" "out st1 = o2"
    using tk a(1) by (simp add: handleAck_def)
  have w: "window_ok cfg ds o2"
    using handleAck_frame [OF h(1) assms(1,6)] h rows' by simp
  have "out_keys o2 = deposit_key ` set (take n ds)"
    using tks(2,3) assms(7,8) n dist by (auto dest: in_set_takeD)
  then have "out_keys o2 \<subseteq> deposit_key ` set (take (batch_limit cfg) ds)"
    using n set_take_subset_set_take [of n "Suc n" ds] by auto
  then obtain st2 where "topUp B wr cfg now st1 = (None, st2)" "buf st2 = buf st1"
      "window_ok cfg (rows (buf st1)) (out st2)"
      "out_keys (out st2) = deposit_key ` set (take (batch_limit cfg) (rows (buf st1)))"
    using topUp_fills [of st1 wr cfg now] assms(3-5) a h rows' w by auto
  with that [of st2] h a rows' show thesis by (simp add: drainACK_step_def)
qed

lemma ack_all:
  assumes "inv (buf st)" and "up (buf st)" and "\<forall>f c. fst (wr f c) = None"
    and "0 < MaxInFlight cfg" and "0 < MaxBatchSize cfg"
    and "window_ok cfg (rows (buf st)) (out st)"
    and "out_keys (out st) = deposit_key ` set (take (batch_limit cfg) (rows (buf st)))"
  shows "\<exists>st'. run_events (\<lambda>(t, ev). drainACK_step B wr cfg t ev)
      (map (\<lambda>d. (now, AckIn (key_id (deposit_key d)))) (rows (buf st))) st = (None, st') \<and> rows (buf st') = [] \<and> out st' = []"
  using assms(1,2,6,7)
proof (induction "rows (buf st)" arbitrary: st)
  case Nil
  then have "out_keys (out st) = {}" by simp
  then have "out st = []" by (simp add: out_keys_def)
  with Nil show ?case by auto
next
  case (Cons d ds)
  obtain st1 where s: "drainACK_step B wr cfg now (AckIn (key_id (deposit_key d))) st = (None, st1)"
    "inv (buf st1)" "up (buf st1)" "rows (buf st1) = ds"
    "window_ok cfg (rows (buf st1)) (out st1)"
    "out_keys (out st1) = deposit_key ` set (take (batch_limit cfg) (rows (buf st1)))"
    using ack_head [OF Cons.prems(1,2) assms(3-5) Cons.prems(3) Cons.hyps(2) [symmetric] Cons.prems(4)] by blast
  from Cons.hyps(1) [OF s(4) [symmetric] s(2,3,5,6)] s(1,4) Cons.hyps(2) [symmetric] show ?case by simp
qed

end

section \<open>Lemmas: fire and forget\<close>

definition ids_of :: "Deposit list \<Rightarrow> string set" where
  "ids_of ds = (\<lambda>d. key_id (deposit_key d)) ` set ds"

lemma ids_of_simps [simp]: "ids_of [] = {}" "ids_of (d # ds) = insert (key_id (deposit_key d)) (ids_of ds)"
  by (simp_all add: ids_of_def)

lemma keys_filter: "deposit_key ` set (filter (\<lambda>x. deposit_key x \<noteq> k) rs) = deposit_key ` set rs - {k}"
  by auto

context publisher_buffer
begin

text \<open>Rows leave the buffer only up to, and excluding, the first write that fails.\<close>

lemma sendBatch_frame:
  assumes "sendBatch B wr ds st = (r, st')" and "inv (buf st)"
  shows "inv (buf st') \<and> (case r of
      None \<Rightarrow> removes (ids_of ds) (rows (buf st)) (rows (buf st'))
    | Some e \<Rightarrow> \<exists>pre d post. ds = pre @ d # post \<and> removes (ids_of pre) (rows (buf st)) (rows (buf st')))"
  using assms
proof (induction ds arbitrary: st)
  case Nil
  then show ?case by simp
next
  case (Cons d ds)
  obtain w c' where w: "wr (TextMessage (marshal_deposit d)) (conn st) = (w, c')" by fastforce
  show ?case
  proof (cases w)
    case (Some e)
    with Cons.prems w show ?thesis by (auto intro!: exI [of _ "[]"])
  next
    case None
    obtain e b' where a: "Ack_op B (ChainID d) (TxHash d) (LogIndex d) (buf st) = (e, b')" by fastforce
    have rm: "removes {key_id (deposit_key d)} (rows (buf st)) (rows b')"
      using ack_rows [OF Cons.prems(2) a] removes_key [of "deposit_key d"] by (auto simp: deposit_key_def)
    obtain st1 where s1: "sendBatch B wr ds st1 = (r, st')" "buf st1 = b'"
      using Cons.prems(1) w None a by (cases e) auto
    note ih = Cons.IH [OF s1(1)] ack_inv [OF Cons.prems(2) a]
    show ?thesis
    proof (cases r)
      case None
      then show ?thesis
        using ih s1(2) removes_trans [OF rm, of "ids_of ds"] by simp
    next
      case (Some x)
      then obtain pre d2 post where p: "ds = pre @ d2 # post" "removes (ids_of pre) (rows b') (rows (buf st'))"
        using ih s1(2) by auto
      then have "d # ds = (d # pre) @ d2 # post" "removes (ids_of (d # pre)) (rows (buf st)) (rows (buf st'))"
        using removes_trans [OF rm p(2)] by simp_all
      then have "\<exists>pre d' post. d # ds = pre @ d' # post \<and> removes (ids_of pre) (rows (buf st)) (rows (buf st'))"
        by blast
      then show ?thesis using Some ih s1(2) by simp
    qed
  qed
qed

end

context responsive_buffer
begin

lemma sendBatch_all:
  assumes "inv (buf st)" and "up (buf st)" and "\<forall>f c. fst (wr f c) = None"
    and "distinct (map deposit_key ds)" and "deposit_key ` set ds \<subseteq> deposit_key ` set (rows (buf st))"
  shows "\<exists>st'. sendBatch B wr ds st = (None, st') \<and> inv (buf st') \<and> up (buf st')
    \<and> rows (buf st') = filter (\<lambda>x. deposit_key x \<notin> deposit_key ` set ds) (rows (buf st))"
  using assms(1,2,4,5)
proof (induction ds arbitrary: st)
  case Nil
  then show ?case by simp
next
  case (Cons d ds)
  have "(ChainID d, TxHash d, LogIndex d) \<in> deposit_key ` set (rows (buf st))"
    using Cons.prems(4) by (simp add: deposit_key_def)
  then obtain b' where a: "Ack_op B (ChainID d) (TxHash d) (LogIndex d) (buf st) = (None, b')" "up b'" "inv b'"
      "rows b' = filter (\<lambda>x. deposit_key x \<noteq> deposit_key d) (rows (buf st))"
    using ack_served [OF Cons.prems(1,2)] by (metis deposit_key_def)
  obtain c' where w: "wr (TextMessage (marshal_deposit d)) (conn st) = (None, c')"
    using assms(3) by (metis prod.collapse)
  define st1 where "st1 = st\<lparr>conn := c', buf := b', met := met st\<lparr>PublisherSent := Suc (PublisherSent (met st))\<rparr>\<rparr>"
  have step: "sendBatch B wr (d # ds) st = sendBatch B wr ds st1"
    using w a(1) by (simp add: st1_def)
  have "\<exists>st'. sendBatch B wr ds st1 = (None, st') \<and> inv (buf st') \<and> up (buf st')
      \<and> rows (buf st') = filter (\<lambda>x. deposit_key x \<notin> deposit_key ` set ds) (rows (buf st1))"
  proof (rule Cons.IH)
    show "deposit_key ` set ds \<subseteq> deposit_key ` set (rows (buf st1))"
      using Cons.prems(3,4) keys_filter [of "deposit_key d" "rows (buf st)"] by (auto simp: st1_def a(4))
  qed (use Cons.prems a in \<open>simp_all add: st1_def\<close>)
  then show ?case
    unfolding step by (simp add: st1_def a(4) conj_commute)
qed

lemma flush_step:
  assumes "inv (buf st)" and "up (buf st)" and "\<forall>f c. fst (wr f c) = None" and "0 < MaxBatchSize cfg"
  shows "\<exists>st'. sendBatch B wr (take (nat (MaxBatchSize cfg)) (rows (buf st))) st = (None, st')
    \<and> inv (buf st') \<and> up (buf st') \<and> rows (buf st') = drop (nat (MaxBatchSize cfg)) (rows (buf st))"
proof -
  define n where "n = nat (MaxBatchSize cfg)"
  define rs where "rs = rows (buf st)"
  have d: "distinct (map deposit_key (take n rs @ drop n rs))"
    using rows_distinct [OF assms(1)] by (simp add: rs_def)
  then have disj: "deposit_key ` set (take n rs) \<inter> deposit_key ` set (drop n rs) = {}"
      and dt: "distinct (map deposit_key (take n rs))"
    by (simp_all only: map_append distinct_append list.set_map)
  have "filter (\<lambda>x. deposit_key x \<notin> deposit_key ` set (take n rs)) (take n rs @ drop n rs) = drop n rs"
    using disj unfolding filter_append by (auto simp: filter_empty_conv filter_id_conv)
  then have "filter (\<lambda>x. deposit_key x \<notin> deposit_key ` set (take n rs)) rs = drop n rs"
    by simp
  moreover have "deposit_key ` set (take n rs) \<subseteq> deposit_key ` set (rows (buf st))"
    by (intro image_mono) (simp add: rs_def set_take_subset)
  ultimately show ?thesis
    using sendBatch_all [OF assms(1-3) dt] by (simp add: n_def rs_def)
qed

lemma flush_empties:
  assumes "inv (buf st)" and "up (buf st)" and "\<forall>f c. fst (wr f c) = None" and "0 < MaxBatchSize cfg"
    and "\<forall>i. ctx i = None"
  shows "\<exists>st'. flushUntilEmpty B wr cfg ctx i st = Some (None, st') \<and> inv (buf st') \<and> rows (buf st') = []"
  using assms(1,2)
proof (induction "length (rows (buf st))" arbitrary: st i rule: less_induct)
  case less
  define n where "n = nat (MaxBatchSize cfg)"
  have n: "0 < n" "MaxBatchSize cfg = int n" using assms(4) by (simp_all add: n_def)
  have q: "PendingAll_op B (MaxBatchSize cfg) (buf st) = (Inr (take n (rows (buf st))), buf st)"
    using pending_up [OF less.prems] assms(4) by (simp add: n_def)
  obtain st1 where s: "sendBatch B wr (take n (rows (buf st))) st = (None, st1)" "inv (buf st1)" "up (buf st1)"
      "rows (buf st1) = drop n (rows (buf st))"
    using flush_step [OF less.prems assms(3,4)] by (auto simp: n_def)
  show ?case
  proof (cases "length (rows (buf st)) < n")
    case True
    then show ?thesis
      using s q assms(5) less.prems n by (subst flushUntilEmpty.simps) simp
  next
    case False
    then have "length (rows (buf st1)) < length (rows (buf st))"
      using n s(4) by simp
    from less.hyps [OF this s(2,3)] show ?thesis
      using False s(1) q assms(5) n by (subst flushUntilEmpty.simps) auto
  qed
qed

end

section \<open>Lemmas: the reconnect loop\<close>

fun acks_of_round :: "'c round \<Rightarrow> string set" where
  "acks_of_round (Connects c now evs ctx fevs) = \<Union> (acks_in ` snd ` set evs)"
| "acks_of_round _ = {}"

text \<open>The errors a round takes from the context are \<^verbatim>\<open>ctx.Err()\<close> values.\<close>

fun ctx_errors_ok :: "'c round \<Rightarrow> bool" where
  "ctx_errors_ok (CtxOver e) \<longleftrightarrow> is_ctx_error e"
| "ctx_errors_ok (DialFails e u (Some ce)) \<longleftrightarrow> is_ctx_error ce"
| "ctx_errors_ok _ \<longleftrightarrow> True"

lemma count_reconnect_sel [simp]: "buf (count_reconnect st) = buf st" "out (count_reconnect st) = out st"
  by (simp_all add: count_reconnect_def)

lemma disconnected_sel [simp]: "buf (disconnected st) = buf st" "out (disconnected st) = out st"
  by (simp_all add: disconnected_def)

context publisher_buffer
begin

lemma Run_frame:
  assumes "Run B wr cfg rounds rs st = Some (r, rs', st')" and "RequireACK cfg" and "0 \<le> MaxInFlight cfg"
    and "inv (buf st)"
  shows "inv (buf st') \<and> removes (\<Union> (acks_of_round ` set rounds)) (rows (buf st)) (rows (buf st'))"
  using assms(1,4)
proof (induction rounds arbitrary: rs st)
  case Nil
  then show ?case by simp
next
  case (Cons x rounds)
  show ?case
  proof (cases x)
    case (CtxOver e)
    with Cons.prems show ?thesis by simp
  next
    case (DialFails e u intr)
    with Cons.prems Cons.IH [of _ "count_reconnect st"] show ?thesis by (cases intr) (auto simp: Let_def)
  next
    case (Connects c now evs ctx fevs)
    define st1 where "st1 = count_reconnect st\<lparr>conn := c, met := met (count_reconnect st)\<lparr>PublisherConnected := True\<rparr>\<rparr>"
    define rs1 where "rs1 = \<lparr>consecutiveFailures = 0, delayMs = ReconnectIntervalMs cfg\<rparr>"
    have b: "buf st1 = buf st" by (simp add: st1_def)
    obtain e st2 where s: "drainWithACK B wr cfg now evs st1 = (e, st2)" by fastforce
    have f: "inv (buf st2)" "removes (acks_of_round x) (rows (buf st)) (rows (buf st2))"
      using drainWithACK_frame [OF s _ assms(3)] Cons.prems(2) b by (simp_all add: Connects)
    have run: "Run B wr cfg (x # rounds) rs st = (case e of
        None \<Rightarrow> Some (None, rs1, st2)
      | Some err \<Rightarrow> if is_ctx_error err then Some (Some err, rs1, disconnected st2)
                    else Run B wr cfg rounds rs1 (disconnected st2))"
      using s assms(2) by (cases e) (simp_all add: Connects session_def Let_def st1_def rs1_def)
    show ?thesis
    proof (cases "\<exists>err. e = Some err \<and> \<not> is_ctx_error err")
      case True
      then have "Run B wr cfg rounds rs1 (disconnected st2) = Some (r, rs', st')"
        using Cons.prems(1) run by auto
      from Cons.IH [OF this] f show ?thesis
        using removes_trans [OF f(2)] by simp
    next
      case False
      then have "buf st' = buf st2"
        using Cons.prems(1) run by (cases e) (auto split: if_splits)
      with f show ?thesis by (auto intro: removes_mono)
    qed
  qed
qed

end

section \<open>Properties\<close>


definition sample_cfg :: PubConfig where
  "sample_cfg = New_config \<lparr>URL = ''ws://adapter'', ReconnectIntervalMs = 5000, DrainTimeoutMs = 5000,
     PollIntervalMs = 1000, MaxBatchSize = 100, WriteTimeout = 0, ReadTimeout = 0, PingInterval = 0,
     RequireACK = True, ACKTimeout = 0, MaxInFlight = 2\<rparr>"

lemma sample_cfg_sel [simp]:
  "RequireACK sample_cfg" "MaxInFlight sample_cfg = 2" "MaxBatchSize sample_cfg = 100" "ReconnectIntervalMs sample_cfg = 5000"
  by (simp_all add: sample_cfg_def New_config_def)

definition no_metrics :: pub_metrics where
  "no_metrics = \<lparr>PublisherSent = 0, PublisherSendErrors = 0, PublisherConnected = False, PublisherReconnects = 0,
     PublisherAcksReceived = 0, PublisherAckTimeouts = 0, PublisherInFlight = 0\<rparr>"


text \<open>
  The reconnect delay backs off and stays useful: for a jitter draw in [0,1), from any positive
  delay the next one is at least the old delay or 48 s, at most 2.4 times the old one, and never above
  72 s (the 60 s cap is applied before the jitter).
\<close>

theorem nextBackoff_bounds:
  assumes "0 \<le> u" and "u < 1" and "1 \<le> currentMs"
  shows "min currentMs 48000 \<le> nextBackoff u currentMs \<and> 5 * nextBackoff u currentMs \<le> 12 * currentMs
    \<and> nextBackoff u currentMs \<le> 72000"
proof -
  define m where "m = (if currentMs * 2 > maxReconnectDelayMs then maxReconnectDelayMs else currentMs * 2)"
  define x where "x = rat_of_int m * (4 / 5 + u * (2 / 5))"
  have m: "0 \<le> rat_of_int m" "rat_of_int m \<le> 2 * rat_of_int currentMs" "rat_of_int m \<le> 60000"
      "5 * rat_of_int (min currentMs 48000) \<le> 4 * rat_of_int m"
    using assms(3) by (auto simp: m_def maxReconnectDelayMs_def)
  have "0 \<le> rat_of_int m * u" "rat_of_int m * u \<le> rat_of_int m"
    using assms(1,2) m(1) mult_left_le [of u "rat_of_int m"] by simp_all
  then have x: "4 * rat_of_int m \<le> 5 * x" "5 * x \<le> 6 * rat_of_int m"
    by (simp_all add: x_def algebra_simps)
  then have "nextBackoff u currentMs = \<lfloor>x\<rfloor>"
    using m(1) by (simp add: nextBackoff_def Let_def x_def m_def)
  moreover have "min currentMs 48000 \<le> \<lfloor>x\<rfloor>"
    using m(4) x(1) unfolding le_floor_iff by linarith
  moreover have "5 * rat_of_int \<lfloor>x\<rfloor> \<le> 12 * rat_of_int currentMs" "rat_of_int \<lfloor>x\<rfloor> \<le> 72000"
    using x(2) m(2,3) of_int_floor_le [of x] by linarith+
  then have "rat_of_int (5 * \<lfloor>x\<rfloor>) \<le> rat_of_int (12 * currentMs)" "rat_of_int \<lfloor>x\<rfloor> \<le> rat_of_int 72000"
    by simp_all
  ultimately show ?thesis by (simp only: of_int_le_iff)
qed

theorem nextBackoff_bounds_witness:
  "min 60000 48000 \<le> nextBackoff (9 / 10) 60000 \<and> 5 * nextBackoff (9 / 10) 60000 \<le> 12 * 60000
    \<and> nextBackoff (9 / 10) 60000 \<le> 72000"
  by (rule nextBackoff_bounds) simp_all

end
