(* ===== verification/Buffer_Repo.thy ===== *)
theory Buffer_Repo
  imports Interfaces
begin

text \<open>
  \<^verbatim>\<open>internal/database/buffer_repo.go\<close> over the tables of \<^verbatim>\<open>migrations/\<close>: the durable buffer of
  undelivered deposits and the scan cursors. A table is the list of its rows in id order; a query
  is the SQL text of the source read as a function on the tables. The server and the network decide
  the outcome of every call: it is served, refused, or executed with the answer lost. The outcomes
  are a list in the pool, so every schedule of faults is a value; a pool whose list is used up
  serves every further call.
\<close>

section \<open>Tables\<close>

record buffer_row =
  row_id :: nat
  row_chain_id :: int
  row_tx_hash :: string
  row_log_index :: int
  row_payload :: json
  row_created_at :: int
  row_block_number :: "int option"

record cursor_row =
  last_block :: int
  updated_at :: int

record db =
  deposit_buffer :: "buffer_row list"
  next_id :: nat                                   \<comment> \<open>the BIGSERIAL sequence, never rolled back\<close>
  scan_cursor :: "int \<times> string \<Rightarrow> cursor_row option"
  notifications :: nat                             \<comment> \<open>committed \<^verbatim>\<open>NOTIFY deposits\<close>\<close>

definition row_key :: "buffer_row \<Rightarrow> dep_key" where
  "row_key r = (row_chain_id r, row_tx_hash r, row_log_index r)"

section \<open>The connection pool\<close>

datatype outcome = Served | Refused goerror | Lost goerror

record pool =
  store :: db
  outcomes :: "outcome list"
  clock :: int \<comment> \<open>\<^verbatim>\<open>now()\<close> of the server\<close>

definition next_outcome :: "pool \<Rightarrow> outcome \<times> pool" where
  "next_outcome p = (case outcomes p of [] \<Rightarrow> (Served, p) | x # xs \<Rightarrow> (x, p\<lparr>outcomes := xs\<rparr>))"

fun outcome_error :: "outcome \<Rightarrow> goerror option" where
  "outcome_error Served = None"
| "outcome_error (Refused e) = Some e"
| "outcome_error (Lost e) = Some e"

section \<open>Statements\<close>

text \<open>
  \<^verbatim>\<open>INSERT ... ON CONFLICT (chain_id, tx_hash, log_index) DO NOTHING\<close>: the sequence advances even
  when the row exists already.
\<close>

definition insert_row :: "int \<Rightarrow> u64 \<Rightarrow> Deposit \<Rightarrow> db \<Rightarrow> db" where
  "insert_row now block d s =
    (let s' = s\<lparr>next_id := Suc (next_id s)\<rparr> in
     if deposit_key d \<in> row_key ` set (deposit_buffer s) then s'
     else s'\<lparr>deposit_buffer := deposit_buffer s @
       [\<lparr>row_id = next_id s, row_chain_id = ChainID d, row_tx_hash = TxHash d,
         row_log_index = LogIndex d, row_payload = jsonb (marshal_deposit d),
         row_created_at = now, row_block_number = Some (to_i64 block)\<rparr>]\<rparr>)"

definition upsert_cursor :: "int \<Rightarrow> int \<Rightarrow> string \<Rightarrow> u64 \<Rightarrow> db \<Rightarrow> db" where
  "upsert_cursor now chainID scanner block s =
    s\<lparr>scan_cursor := (scan_cursor s)((chainID, scanner) \<mapsto> \<lparr>last_block = to_i64 block, updated_at = now\<rparr>)\<rparr>"

definition notify_deposits :: "db \<Rightarrow> db" where
  "notify_deposits s = s\<lparr>notifications := Suc (notifications s)\<rparr>"

text \<open>One \<^verbatim>\<open>tx.Exec\<close>: the new transaction state, and the wrapped error if the call fails.\<close>

definition tx_exec :: "string \<Rightarrow> (db \<Rightarrow> db) \<Rightarrow> db \<Rightarrow> pool \<Rightarrow> goerror option \<times> db \<times> pool" where
  "tx_exec what stmt t p =
    (case next_outcome p of
       (Served, p') \<Rightarrow> (None, stmt t, p')
     | (Refused e, p') \<Rightarrow> (Some (Wrap what e), t, p')
     | (Lost e, p') \<Rightarrow> (Some (Wrap what e), stmt t, p'))"

text \<open>The insert loop. A log index that does not fit the INT column is an encoding error.\<close>

fun insert_deposits :: "u64 \<Rightarrow> Deposit list \<Rightarrow> db \<Rightarrow> pool \<Rightarrow> goerror option \<times> db \<times> pool" where
  "insert_deposits block [] t p = (None, t, p)"
| "insert_deposits block (d # ds) t p =
    (if \<not> in_i32 (LogIndex d)
     then (Some (Wrap ''insert deposit_buffer'' (Opaque ''unable to encode into int4'')), t, p)
     else (case tx_exec ''insert deposit_buffer'' (insert_row (clock p) block d) t p of
        (Some e, t', p') \<Rightarrow> (Some e, t', p')
      | (None, t', p') \<Rightarrow> insert_deposits block ds t' p'))"

text \<open>\<^verbatim>\<open>tx.Rollback\<close>: the tables as before; the sequence values stay used.\<close>

definition rollback :: "db \<Rightarrow> pool \<Rightarrow> pool" where
  "rollback t p = p\<lparr>store := (store p)\<lparr>next_id := next_id t\<rparr>\<rparr>"

section \<open>SaveAndAdvance\<close>

definition commit_tx :: "db \<Rightarrow> pool \<Rightarrow> goerror option \<times> pool" where
  "commit_tx t p =
    (case next_outcome p of
       (Served, p') \<Rightarrow> (None, p'\<lparr>store := t\<rparr>)
     | (Refused e, p') \<Rightarrow> (Some (Wrap ''commit tx'' e), rollback t p')
     | (Lost e, p') \<Rightarrow> (Some (Wrap ''commit tx'' e), p'\<lparr>store := t\<rparr>))"

definition SaveAndAdvance ::
  "int \<Rightarrow> string \<Rightarrow> u64 \<Rightarrow> Deposit list \<Rightarrow> pool \<Rightarrow> goerror option \<times> pool" where
  "SaveAndAdvance chainID scanner block deposits p =
    (case next_outcome p of (begin_out, p1) \<Rightarrow>
     (case outcome_error begin_out of
        Some e \<Rightarrow> (Some (Wrap ''begin tx'' e), p1)
      | None \<Rightarrow>
     (case insert_deposits block deposits (store p1) p1 of
        (Some e, t, p2) \<Rightarrow> (Some e, rollback t p2)
      | (None, t, p2) \<Rightarrow>
     (case tx_exec ''upsert scan_cursor'' (upsert_cursor (clock p2) chainID scanner block) t p2 of
        (Some e, t', p3) \<Rightarrow> (Some e, rollback t' p3)
      | (None, t', p3) \<Rightarrow>
     (case (if length deposits > 0 then tx_exec ''notify deposits'' notify_deposits t' p3
            else (None, t', p3)) of
        (Some e, t'', p4) \<Rightarrow> (Some e, rollback t'' p4)
      | (None, t'', p4) \<Rightarrow> commit_tx t'' p4)))))"

section \<open>Queries\<close>

fun scan_payloads :: "json list \<Rightarrow> goerror + Deposit list" where
  "scan_payloads [] = Inr []"
| "scan_payloads (j # js) =
    (case unmarshal_deposit j of
       Inl e \<Rightarrow> Inl (Wrap ''unmarshal payload'' e)
     | Inr d \<Rightarrow> (case scan_payloads js of Inl e \<Rightarrow> Inl e | Inr ds \<Rightarrow> Inr (d # ds)))"

text \<open>\<^verbatim>\<open>scanDeposits(rows)\<close>: the payloads in order, then \<^verbatim>\<open>rows.Err()\<close>.\<close>

definition scanDeposits :: "buffer_row list \<Rightarrow> pool \<Rightarrow> (goerror + Deposit list) \<times> pool" where
  "scanDeposits rs p =
    (case scan_payloads (map row_payload rs) of
       Inl e \<Rightarrow> (Inl e, p)
     | Inr ds \<Rightarrow> (case next_outcome p of (o', p') \<Rightarrow>
         (case outcome_error o' of Some e \<Rightarrow> (Inl e, p') | None \<Rightarrow> (Inr ds, p'))))"

definition query :: "string \<Rightarrow> (db \<Rightarrow> buffer_row list) \<Rightarrow> pool \<Rightarrow> (goerror + Deposit list) \<times> pool" where
  "query what sel p =
    (case next_outcome p of (o', p') \<Rightarrow>
     (case outcome_error o' of
        Some e \<Rightarrow> (Inl (Wrap what e), p')
      | None \<Rightarrow> scanDeposits (sel (store p')) p'))"

definition Pending :: "int \<Rightarrow> pool \<Rightarrow> (goerror + Deposit list) \<times> pool" where
  "Pending chainID = query ''query pending'' (\<lambda>s. filter (\<lambda>r. row_chain_id r = chainID) (deposit_buffer s))"

definition in_range_rows :: "int \<Rightarrow> u64 \<Rightarrow> u64 \<Rightarrow> db \<Rightarrow> buffer_row list" where
  "in_range_rows chainID fromBlock toBlock s =
    filter (\<lambda>r. row_chain_id r = chainID \<and>
       (case row_block_number r of None \<Rightarrow> False | Some b \<Rightarrow> to_i64 fromBlock \<le> b \<and> b \<le> to_i64 toBlock))
      (deposit_buffer s)"

definition PendingInRange :: "int \<Rightarrow> u64 \<Rightarrow> u64 \<Rightarrow> pool \<Rightarrow> (goerror + Deposit list) \<times> pool" where
  "PendingInRange chainID fromBlock toBlock =
    query ''query pending in range'' (in_range_rows chainID fromBlock toBlock)"

text \<open>A negative \<^verbatim>\<open>LIMIT\<close> is an error of the server.\<close>

definition PendingAll :: "int \<Rightarrow> pool \<Rightarrow> (goerror + Deposit list) \<times> pool" where
  "PendingAll limit p =
    (if limit < 0 then (Inl (Wrap ''query pending all'' (Opaque ''LIMIT must not be negative'')), p)
     else query ''query pending all'' (\<lambda>s. take (nat limit) (deposit_buffer s)) p)"

definition delete_row :: "int \<Rightarrow> string \<Rightarrow> int \<Rightarrow> db \<Rightarrow> db" where
  "delete_row chainID txHash logIndex s =
    s\<lparr>deposit_buffer := filter (\<lambda>r. row_key r \<noteq> (chainID, txHash, logIndex)) (deposit_buffer s)\<rparr>"

definition ack_error :: "int \<Rightarrow> string \<Rightarrow> int \<Rightarrow> goerror \<Rightarrow> goerror" where
  "ack_error chainID txHash logIndex e =
    Wrap (''delete deposit_buffer ('' @ show_int chainID @ '', '' @ txHash @ '', '' @ show_int logIndex @ '')'') e"

definition Ack :: "int \<Rightarrow> string \<Rightarrow> int \<Rightarrow> pool \<Rightarrow> goerror option \<times> pool" where
  "Ack chainID txHash logIndex p =
    (if \<not> in_i32 logIndex
     then (Some (ack_error chainID txHash logIndex (Opaque ''unable to encode into int4'')), p)
     else (case next_outcome p of
        (Served, p') \<Rightarrow> (None, p'\<lparr>store := delete_row chainID txHash logIndex (store p')\<rparr>)
      | (Refused e, p') \<Rightarrow> (Some (ack_error chainID txHash logIndex e), p')
      | (Lost e, p') \<Rightarrow> (Some (ack_error chainID txHash logIndex e),
                       p'\<lparr>store := delete_row chainID txHash logIndex (store p')\<rparr>)))"

record Stats =
  PendingCount :: int
  OldestAgeSeconds :: int \<comment> \<open>\<^const>\<open>clock\<close> counts seconds\<close>

definition buffer_stats :: "int \<Rightarrow> db \<Rightarrow> Stats" where
  "buffer_stats now s = \<lparr>PendingCount = int (length (deposit_buffer s)),
     OldestAgeSeconds = (case map row_created_at (deposit_buffer s) of [] \<Rightarrow> 0
                  | t # ts \<Rightarrow> now - foldl min t ts)\<rparr>"

definition Stats_query :: "pool \<Rightarrow> (goerror + Stats) \<times> pool" where
  "Stats_query p =
    (case next_outcome p of (o', p') \<Rightarrow>
     (case outcome_error o' of
        Some e \<Rightarrow> (Inl (Wrap ''query buffer stats'' e), p')
      | None \<Rightarrow> (Inr (buffer_stats (clock p') (store p')), p')))"

definition Cursor :: "int \<Rightarrow> string \<Rightarrow> pool \<Rightarrow> (goerror + u64) \<times> pool" where
  "Cursor chainID scanner p =
    (case next_outcome p of (o', p') \<Rightarrow>
     (case outcome_error o' of
        Some e \<Rightarrow> (Inl (Wrap (''query cursor ('' @ show_int chainID @ '', '' @ scanner @ '')'') e), p')
      | None \<Rightarrow> (case scan_cursor (store p') (chainID, scanner) of
           None \<Rightarrow> (Inr 0, p')
         | Some c \<Rightarrow> (Inr (to_u64 (last_block c)), p'))))"

section \<open>The interface values\<close>

definition buffer_repo :: "pool Buffer" where
  "buffer_repo = \<lparr>PendingAll_op = PendingAll, Ack_op = Ack\<rparr>"

definition audit_repo :: "pool AuditBuffer" where
  "audit_repo = \<lparr>Cursor_op = Cursor, PendingInRange_op = PendingInRange\<rparr>"

section \<open>Invariant and abstraction\<close>

definition decoded :: "buffer_row \<Rightarrow> Deposit option" where
  "decoded r = (case unmarshal_deposit (row_payload r) of Inl e \<Rightarrow> None | Inr d \<Rightarrow> Some d)"

definition row_ok :: "buffer_row \<Rightarrow> bool" where
  "row_ok r \<longleftrightarrow> (case decoded r of None \<Rightarrow> False | Some d \<Rightarrow> deposit_key d = row_key r) \<and> in_i32 (row_log_index r)"

definition db_inv :: "db \<Rightarrow> bool" where
  "db_inv s \<longleftrightarrow> sorted_wrt (<) (map row_id (deposit_buffer s))
     \<and> list_all (\<lambda>r. row_id r < next_id s) (deposit_buffer s)
     \<and> distinct (map row_key (deposit_buffer s))
     \<and> list_all row_ok (deposit_buffer s)"

definition pending :: "db \<Rightarrow> Deposit list" where
  "pending s = map (the \<circ> decoded) (deposit_buffer s)"

definition cursor_of :: "db \<Rightarrow> int \<Rightarrow> string \<Rightarrow> u64" where
  "cursor_of s chainID scanner =
    (case scan_cursor s (chainID, scanner) of None \<Rightarrow> 0 | Some c \<Rightarrow> to_u64 (last_block c))"

definition buffer_keys :: "db \<Rightarrow> dep_key set" where
  "buffer_keys s = row_key ` set (deposit_buffer s)"

text \<open>What a committed \<^verbatim>\<open>SaveAndAdvance\<close> makes of the tables.\<close>

definition saved :: "int \<Rightarrow> int \<Rightarrow> string \<Rightarrow> u64 \<Rightarrow> Deposit list \<Rightarrow> db \<Rightarrow> db" where
  "saved now chainID scanner block deposits s =
    (let s' = upsert_cursor now chainID scanner block (foldl (\<lambda>s d. insert_row now block d s) s deposits)
     in if deposits = [] then s' else notify_deposits s')"

text \<open>The tables are untouched, at most sequence values are used up.\<close>

definition same_tables :: "db \<Rightarrow> db \<Rightarrow> bool" where
  "same_tables s s' \<longleftrightarrow> (\<exists>n \<ge> next_id s. s' = s\<lparr>next_id := n\<rparr>)"

section \<open>Lemmas: the pool and the statements\<close>

lemma next_outcome_frame:
  "next_outcome p = (x, p') \<Longrightarrow> store p' = store p \<and> clock p' = clock p"
  by (auto simp: next_outcome_def split: list.splits)

lemma next_outcome_served [simp]: "outcomes p = [] \<Longrightarrow> next_outcome p = (Served, p)"
  by (simp add: next_outcome_def)

lemma tx_exec_cases:
  assumes "tx_exec what stmt t p = (r, t', p')"
  shows "store p' = store p \<and> clock p' = clock p \<and> (t' = stmt t \<or> r \<noteq> None \<and> t' = t)"
  using assms next_outcome_frame by (fastforce simp: tx_exec_def split: prod.splits outcome.splits)

lemma next_id_insert_row [simp]: "next_id (insert_row now block d s) = Suc (next_id s)"
  by (simp add: insert_row_def Let_def)

lemma scan_cursor_insert_row [simp]: "scan_cursor (insert_row now block d s) = scan_cursor s"
  by (simp add: insert_row_def Let_def)

lemma insert_deposits_cases:
  assumes "insert_deposits block ds t p = (r, t', p')"
  shows "store p' = store p \<and> clock p' = clock p \<and> next_id t \<le> next_id t'
    \<and> (r = None \<longrightarrow> t' = foldl (\<lambda>s d. insert_row (clock p) block d s) t ds \<and> list_all (in_i32 \<circ> LogIndex) ds)"
  using assms
proof (induction ds arbitrary: t p)
  case Nil
  then show ?case by simp
next
  case (Cons d ds)
  show ?case
  proof (cases "in_i32 (LogIndex d)")
    case False
    with Cons.prems show ?thesis by auto
  next
    case True
    obtain r1 t1 p1 where x: "tx_exec ''insert deposit_buffer'' (insert_row (clock p) block d) t p = (r1, t1, p1)"
      using prod_cases3 by blast
    note f = tx_exec_cases [OF x]
    show ?thesis
    proof (cases r1)
      case None
      then have t1: "t1 = insert_row (clock p) block d t" using f by simp
      from Cons.prems True x None have "insert_deposits block ds t1 p1 = (r, t', p')" by simp
      from Cons.IH [OF this] f t1 True show ?thesis by auto
    next
      case (Some e)
      with Cons.prems True x have "r = Some e" "t' = t1" "p' = p1" by simp_all
      with f show ?thesis by auto
    qed
  qed
qed

lemma next_id_upsert [simp]: "next_id (upsert_cursor now c n b s) = next_id s"
  by (simp add: upsert_cursor_def)

lemma next_id_notify [simp]: "next_id (notify_deposits s) = next_id s"
  by (simp add: notify_deposits_def)

lemma same_tables_rollback:
  "next_id (store p) \<le> next_id t \<Longrightarrow> store p = s \<Longrightarrow> same_tables s (store (rollback t p))"
  by (auto simp: same_tables_def rollback_def)

lemma rolled_back:
  "store q = s \<Longrightarrow> clock q = c \<Longrightarrow> next_id s \<le> next_id t \<Longrightarrow>
    clock (rollback t q) = c \<and> same_tables s (store (rollback t q))"
  by (auto simp: same_tables_def rollback_def)

lemma same_tables_refl [simp]: "same_tables s s"
  by (auto simp: same_tables_def intro: exI [of _ "next_id s"])

lemma commit_tx_cases:
  assumes "commit_tx t p = (r, p')" and "next_id (store p) \<le> next_id t"
  shows "clock p' = clock p \<and> (store p' = t \<or> r \<noteq> None \<and> same_tables (store p) (store p'))"
proof -
  obtain x q where n: "next_outcome p = (x, q)" by fastforce
  note f = next_outcome_frame [OF n]
  show ?thesis
    using assms n f same_tables_rollback [of q t "store p"]
    by (cases x) (auto simp: commit_tx_def rollback_def)
qed

lemma SaveAndAdvance_cases:
  assumes "SaveAndAdvance chainID scanner block ds p = (r, p')"
  shows "clock p' = clock p \<and>
    (store p' = saved (clock p) chainID scanner block ds (store p) \<and> list_all (in_i32 \<circ> LogIndex) ds
     \<or> r \<noteq> None \<and> same_tables (store p) (store p'))"
proof -
  obtain o1 p1 where n1: "next_outcome p = (o1, p1)" by fastforce
  note f1 = next_outcome_frame [OF n1]
  show ?thesis
  proof (cases "outcome_error o1")
    case (Some e)
    with assms n1 f1 show ?thesis by (auto simp: SaveAndAdvance_def)
  next
    case None
    obtain r2 t2 p2 where n2: "insert_deposits block ds (store p1) p1 = (r2, t2, p2)"
      using prod_cases3 by blast
    note f2 = insert_deposits_cases [OF n2]
    obtain r3 t3 p3 where n3: "tx_exec ''upsert scan_cursor'' (upsert_cursor (clock p2) chainID scanner block) t2 p2 = (r3, t3, p3)"
      using prod_cases3 by blast
    note f3 = tx_exec_cases [OF n3]
    obtain r4 t4 p4 where n4: "(if length ds > 0 then tx_exec ''notify deposits'' notify_deposits t3 p3
        else (None, t3, p3)) = (r4, t4, p4)"
      using prod_cases3 by blast
    then have f4: "store p4 = store p3 \<and> clock p4 = clock p3
        \<and> (t4 = (if ds = [] then t3 else notify_deposits t3) \<or> r4 \<noteq> None \<and> t4 = t3)"
      using tx_exec_cases [of "''notify deposits''" notify_deposits t3 p3 r4 t4 p4] by (auto split: if_splits)
    have ids: "next_id (store p) \<le> next_id t2" "next_id (store p) \<le> next_id t3" "next_id (store p) \<le> next_id t4"
      using f1 f2 f3 f4 by auto
    show ?thesis
    proof (cases "r2 = None \<and> r3 = None \<and> r4 = None")
      case True
      then have t4: "t4 = saved (clock p) chainID scanner block ds (store p)"
        using f1 f2 f3 f4 by (simp add: saved_def Let_def)
      have "commit_tx t4 p4 = (r, p')"
        using assms n1 n2 n3 n4 None True by (simp add: SaveAndAdvance_def)
      then show ?thesis
        using commit_tx_cases [of t4 p4 r p'] ids f1 f2 f3 f4 t4 True by auto
    next
      case False
      then have "r \<noteq> None \<and> (p' = rollback t2 p2 \<or> p' = rollback t3 p3 \<or> p' = rollback t4 p4)"
        using assms n1 n2 n3 n4 None by (auto simp: SaveAndAdvance_def split: option.splits)
      moreover have "store p2 = store p" "store p3 = store p" "store p4 = store p"
        "clock p2 = clock p" "clock p3 = clock p" "clock p4 = clock p"
        using f1 f2 f3 f4 by simp_all
      ultimately show ?thesis
        using ids rolled_back [of _ "store p" "clock p"] by metis
    qed
  qed
qed

section \<open>Lemmas: the invariant\<close>

lemma buffer_keys_insert_row [simp]:
  "buffer_keys (insert_row now block d s) = insert (deposit_key d) (buffer_keys s)"
  by (auto simp: buffer_keys_def insert_row_def Let_def row_key_def deposit_key_def)

lemma buffer_keys_foldl [simp]:
  "buffer_keys (foldl (\<lambda>s d. insert_row now block d s) s ds) = buffer_keys s \<union> deposit_key ` set ds"
  by (induction ds arbitrary: s) auto

lemma scan_cursor_foldl [simp]:
  "scan_cursor (foldl (\<lambda>s d. insert_row now block d s) s ds) = scan_cursor s"
  by (induction ds arbitrary: s) auto

lemma notifications_foldl [simp]:
  "notifications (foldl (\<lambda>s d. insert_row now block d s) s ds) = notifications s"
  by (induction ds arbitrary: s) (auto simp: insert_row_def Let_def)

lemma insert_row_prefix: "\<exists>xs. deposit_buffer (insert_row now block d s) = deposit_buffer s @ xs"
  by (simp add: insert_row_def Let_def)

lemma foldl_insert_prefix:
  "\<exists>xs. deposit_buffer (foldl (\<lambda>s d. insert_row now block d s) s ds) = deposit_buffer s @ xs"
proof (induction ds arbitrary: s)
  case Nil
  then show ?case by simp
next
  case (Cons d ds)
  obtain xs where "deposit_buffer (insert_row now block d s) = deposit_buffer s @ xs"
    using insert_row_prefix by blast
  with Cons [of "insert_row now block d s"] show ?case by auto
qed

lemma foldl_insert_known:
  "deposit_key ` set ds \<subseteq> buffer_keys s \<Longrightarrow>
    deposit_buffer (foldl (\<lambda>s d. insert_row now block d s) s ds) = deposit_buffer s"
proof (induction ds arbitrary: s)
  case Nil
  then show ?case by simp
next
  case (Cons d ds)
  then have "deposit_buffer (insert_row now block d s) = deposit_buffer s"
    by (simp add: insert_row_def Let_def buffer_keys_def)
  with Cons.prems Cons.IH [of "insert_row now block d s"] show ?case
    by (simp add: buffer_keys_def)
qed

lemma deposit_buffer_upsert [simp]: "deposit_buffer (upsert_cursor now c n b s) = deposit_buffer s"
  by (simp add: upsert_cursor_def)

lemma deposit_buffer_notify [simp]: "deposit_buffer (notify_deposits s) = deposit_buffer s"
  by (simp add: notify_deposits_def)

lemma deposit_buffer_saved:
  "deposit_buffer (saved now c n b ds s) = deposit_buffer (foldl (\<lambda>s d. insert_row now b d s) s ds)"
  by (simp add: saved_def Let_def)

lemma buffer_keys_saved [simp]:
  "buffer_keys (saved now c n b ds s) = buffer_keys s \<union> deposit_key ` set ds"
  using buffer_keys_foldl [of now b s ds] unfolding buffer_keys_def deposit_buffer_saved .

lemma scan_cursor_saved:
  "scan_cursor (saved now c n b ds s)
     = (scan_cursor s)((c, n) \<mapsto> \<lparr>last_block = to_i64 b, updated_at = now\<rparr>)"
  by (simp add: saved_def Let_def upsert_cursor_def notify_deposits_def)

lemma cursor_of_saved [simp]:
  "cursor_of (saved now c n b ds s) c' n' = (if (c', n') = (c, n) then b else cursor_of s c' n')"
  by (auto simp: cursor_of_def scan_cursor_saved)

lemma notifications_saved:
  "notifications (saved now c n b ds s) = notifications s + (if ds = [] then 0 else 1)"
  by (simp add: saved_def Let_def upsert_cursor_def notify_deposits_def)

lemma same_tablesD:
  assumes "same_tables s s'"
  shows "deposit_buffer s' = deposit_buffer s" and "scan_cursor s' = scan_cursor s"
    and "notifications s' = notifications s" and "next_id s \<le> next_id s'"
  using assms by (auto simp: same_tables_def)

lemma same_tables_keys: "same_tables s s' \<Longrightarrow> buffer_keys s' = buffer_keys s"
  by (simp add: buffer_keys_def same_tablesD)

lemma same_tables_cursor: "same_tables s s' \<Longrightarrow> cursor_of s' c n = cursor_of s c n"
  by (simp add: cursor_of_def same_tablesD)

lemma db_inv_cong:
  "db_inv s \<Longrightarrow> deposit_buffer s' = deposit_buffer s \<Longrightarrow> next_id s \<le> next_id s' \<Longrightarrow> db_inv s'"
  by (auto simp: db_inv_def list_all_iff)

lemma db_inv_same_tables: "db_inv s \<Longrightarrow> same_tables s s' \<Longrightarrow> db_inv s'"
  by (erule db_inv_cong) (simp_all add: same_tablesD)

lemma db_inv_insert_row:
  assumes "db_inv s" and "wf_deposit d" and "in_i32 (LogIndex d)"
  shows "db_inv (insert_row now block d s)"
proof (cases "deposit_key d \<in> row_key ` set (deposit_buffer s)")
  case True
  then show ?thesis
    using assms(1) by (auto simp: insert_row_def Let_def db_inv_def list_all_iff)
next
  case False
  have "unmarshal_deposit (jsonb (marshal_deposit d)) = Inr d"
    using assms(2) by (rule unmarshal_stored)
  with False assms show ?thesis
    by (auto simp: insert_row_def Let_def db_inv_def list_all_iff sorted_wrt_append row_ok_def
        decoded_def row_key_def deposit_key_def less_Suc_eq)
qed

lemma pending_insert_row:
  assumes "wf_deposit d"
  shows "pending (insert_row now block d s) =
    (if deposit_key d \<in> buffer_keys s then pending s else pending s @ [d])"
  using unmarshal_stored [OF assms]
  by (simp add: insert_row_def Let_def pending_def buffer_keys_def decoded_def)

lemma db_inv_foldl:
  "db_inv s \<Longrightarrow> list_all wf_deposit ds \<Longrightarrow> list_all (in_i32 \<circ> LogIndex) ds \<Longrightarrow>
    db_inv (foldl (\<lambda>s d. insert_row now block d s) s ds)"
  by (induction ds arbitrary: s) (auto intro: db_inv_insert_row)

lemma db_inv_saved:
  assumes "db_inv s" and "list_all wf_deposit ds" and "list_all (in_i32 \<circ> LogIndex) ds"
  shows "db_inv (saved now c n b ds s)"
proof -
  have "next_id (saved now c n b ds s) = next_id (foldl (\<lambda>s d. insert_row now b d s) s ds)"
    by (simp add: saved_def Let_def)
  then show ?thesis
    using db_inv_cong [OF db_inv_foldl [OF assms]] by (simp add: deposit_buffer_saved)
qed

lemma db_inv_delete_row: "db_inv s \<Longrightarrow> db_inv (delete_row c t l s)"
  by (auto simp: db_inv_def delete_row_def list_all_iff sorted_wrt_filter sorted_wrt_map
      distinct_map_filter)

lemma pending_keys: "db_inv s \<Longrightarrow> map deposit_key (pending s) = map row_key (deposit_buffer s)"
  by (auto simp: db_inv_def pending_def list_all_iff row_ok_def split: option.splits)

lemma pending_delete_row:
  assumes "db_inv s"
  shows "pending (delete_row c t l s) = filter (\<lambda>d. deposit_key d \<noteq> (c, t, l)) (pending s)"
proof -
  have "row_key r = deposit_key ((the \<circ> decoded) r)" if "r \<in> set (deposit_buffer s)" for r
    using assms that by (auto simp: db_inv_def list_all_iff row_ok_def split: option.splits)
  then show ?thesis
    by (auto simp: pending_def delete_row_def filter_map intro!: arg_cong [where f = "map _"] filter_cong)
qed

lemma scan_payloads_ok:
  "list_all row_ok rs \<Longrightarrow> scan_payloads (map row_payload rs) = Inr (map (the \<circ> decoded) rs)"
  by (induction rs) (auto simp: row_ok_def decoded_def split: sum.splits option.splits)

lemma query_cases:
  assumes "query what sel p = (r, p')"
  shows "store p' = store p \<and> clock p' = clock p"
proof -
  obtain x q where n: "next_outcome p = (x, q)" by fastforce
  obtain y q' where n': "next_outcome q = (y, q')" by fastforce
  show ?thesis
    using assms n n' next_outcome_frame [OF n] next_outcome_frame [OF n']
    by (auto simp: query_def scanDeposits_def split: option.splits sum.splits)
qed

lemma query_result:
  assumes "query what sel p = (Inr ds, p')" and "list_all row_ok (sel (store p))"
  shows "ds = map (the \<circ> decoded) (sel (store p))"
proof -
  obtain x q where n: "next_outcome p = (x, q)" by fastforce
  obtain y q' where n': "next_outcome q = (y, q')" by fastforce
  show ?thesis
    using assms n n' next_outcome_frame [OF n] scan_payloads_ok [OF assms(2)]
    by (auto simp: query_def scanDeposits_def split: option.splits)
qed

lemma Ack_cases:
  assumes "Ack c t l p = (r, p')"
  shows "clock p' = clock p \<and> (store p' = delete_row c t l (store p) \<or> r \<noteq> None \<and> store p' = store p)"
proof -
  obtain x q where n: "next_outcome p = (x, q)" by fastforce
  show ?thesis
    using assms n next_outcome_frame [OF n]
    by (cases x) (auto simp: Ack_def split: if_splits)
qed

lemma Cursor_cases:
  assumes "Cursor c n p = (r, p')"
  shows "store p' = store p \<and> clock p' = clock p
    \<and> (case r of Inr b \<Rightarrow> b = cursor_of (store p) c n | Inl e \<Rightarrow> True)"
proof -
  obtain x q where n: "next_outcome p = (x, q)" by fastforce
  show ?thesis
    using assms n next_outcome_frame [OF n]
    by (auto simp: Cursor_def cursor_of_def split: option.splits)
qed

lemma insert_deposits_served:
  assumes "outcomes p = []" and "list_all (in_i32 \<circ> LogIndex) ds"
  shows "insert_deposits block ds t p = (None, foldl (\<lambda>s d. insert_row (clock p) block d s) t ds, p)"
  using assms(2) by (induction ds arbitrary: t) (simp_all add: tx_exec_def assms(1))

lemma SaveAndAdvance_served:
  assumes "outcomes p = []" and "list_all (in_i32 \<circ> LogIndex) ds"
  shows "SaveAndAdvance chainID scanner block ds p =
    (None, p\<lparr>store := saved (clock p) chainID scanner block ds (store p)\<rparr>)"
  using assms(1) insert_deposits_served [OF assms]
  by (simp add: SaveAndAdvance_def tx_exec_def commit_tx_def saved_def Let_def)

lemma Cursor_served: "outcomes p = [] \<Longrightarrow> Cursor c n p = (Inr (cursor_of (store p) c n), p)"
  by (simp add: Cursor_def cursor_of_def split: option.split)

section \<open>The buffer meets the auditor's contract\<close>

interpretation audit_repo: audit_buffer audit_repo "\<lambda>p c f t. map (the \<circ> decoded) (in_range_rows c f t (store p))"
  "\<lambda>p. cursor_of (store p)" store "\<lambda>p. db_inv (store p)"
proof
  fix p p' :: pool and c n r v f t q ds
  assume inv: "db_inv (store p)"
  show "db_inv (store p') \<and> store p' = store p" if "Cursor_op audit_repo c n p = (r, p')"
    using Cursor_cases [of c n p r p'] that inv by (simp add: audit_repo_def)
  show "v = cursor_of (store p) c n" if "Cursor_op audit_repo c n p = (Inr v, p')"
    using Cursor_cases [of c n p "Inr v" p'] that by (simp add: audit_repo_def)
  show "db_inv (store p') \<and> store p' = store p" if "PendingInRange_op audit_repo c f t p = (q, p')"
    using query_cases [of _ _ p q p'] that inv by (auto simp: audit_repo_def PendingInRange_def)
  have "list_all row_ok (in_range_rows c f t (store p))" using inv by (auto simp: db_inv_def in_range_rows_def list_all_iff)
  then show "ds = map (the \<circ> decoded) (in_range_rows c f t (store p))" if "PendingInRange_op audit_repo c f t p = (Inr ds, p')"
    using query_result that by (auto simp: audit_repo_def PendingInRange_def)
qed

section \<open>The buffer meets the publisher's contract\<close>

interpretation repo: publisher_buffer buffer_repo "\<lambda>p. pending (store p)" "\<lambda>p. db_inv (store p)"
proof
  fix b :: pool and n r b'
  assume inv: "db_inv (store b)"
  show "distinct (map deposit_key (pending (store b)))"
    using inv by (simp add: pending_keys) (simp add: db_inv_def)
  assume "PendingAll_op buffer_repo n b = (r, b')"
  then show "db_inv (store b') \<and> pending (store b') = pending (store b)"
    using inv query_cases by (auto simp: buffer_repo_def PendingAll_def split: if_splits)
next
  fix b :: pool and n ds b'
  assume inv: "db_inv (store b)" and q: "PendingAll_op buffer_repo n b = (Inr ds, b')"
  have "list_all row_ok (take (nat n) (deposit_buffer (store b)))"
    using inv by (auto simp: db_inv_def list_all_iff dest: in_set_takeD)
  with q show "ds = take (nat n) (pending (store b))"
    by (auto simp: buffer_repo_def PendingAll_def pending_def take_map split: if_splits dest: query_result)
next
  fix b :: pool and c t l e b'
  assume inv: "db_inv (store b)" and a: "Ack_op buffer_repo c t l b = (e, b')"
  then have "store b' = delete_row c t l (store b) \<or> e \<noteq> None \<and> store b' = store b"
    using Ack_cases by (simp add: buffer_repo_def)
  with inv show "db_inv (store b')"
    and "pending (store b') = filter (\<lambda>d. deposit_key d \<noteq> (c, t, l)) (pending (store b))
      \<or> e \<noteq> None \<and> pending (store b') = pending (store b)"
    using db_inv_delete_row pending_delete_row by auto
qed

interpretation repo_up: responsive_buffer buffer_repo "\<lambda>p. pending (store p)" "\<lambda>p. db_inv (store p)" "\<lambda>p. outcomes p = []"
proof
  fix b :: pool and n :: int
  assume inv: "db_inv (store b)" and up: "outcomes b = []" and n: "0 \<le> n"
  have "list_all row_ok (take (nat n) (deposit_buffer (store b)))"
    using inv by (auto simp: db_inv_def list_all_iff dest: in_set_takeD)
  then show "PendingAll_op buffer_repo n b = (Inr (take (nat n) (pending (store b))), b)"
    using up n scan_payloads_ok
    by (simp add: buffer_repo_def PendingAll_def query_def scanDeposits_def pending_def take_map)
next
  fix b :: pool and c t l
  assume inv: "db_inv (store b)" and up: "outcomes b = []"
    and "(c, t, l) \<in> deposit_key ` set (pending (store b))"
  then have "(c, t, l) \<in> set (map row_key (deposit_buffer (store b)))"
    using pending_keys [OF inv] by (metis list.set_map)
  then have "in_i32 l"
    using inv by (auto simp: db_inv_def list_all_iff row_ok_def row_key_def)
  then show "\<exists>b'. Ack_op buffer_repo c t l b = (None, b') \<and> outcomes b' = []"
    using up by (simp add: buffer_repo_def Ack_def)
qed

section \<open>Properties\<close>

text \<open>
  C2. \<^verbatim>\<open>SaveAndAdvance\<close> is all or nothing under every schedule of faults. Either the cursor of this
  (chain, scanner) stands at the block, no other cursor moved, every deposit of the block is in the
  buffer, the rows that were there are kept in place and one notification was sent if there were
  deposits; or an error is returned and no table changed. In particular the cursor never advances
  past a block whose deposits are not stored.
\<close>

theorem SaveAndAdvance_all_or_nothing:
  "let (r, p') = SaveAndAdvance chainID scanner block deposits p; s = store p; s' = store p' in
     (scan_cursor s' = (scan_cursor s)((chainID, scanner) \<mapsto> \<lparr>last_block = to_i64 block, updated_at = clock p\<rparr>)
      \<and> cursor_of s' chainID scanner = block
      \<and> buffer_keys s' = buffer_keys s \<union> deposit_key ` set deposits
      \<and> take (length (deposit_buffer s)) (deposit_buffer s') = deposit_buffer s
      \<and> notifications s' = notifications s + (if deposits = [] then 0 else 1))
     \<or> (r \<noteq> None \<and> same_tables s s')"
proof -
  obtain r p' where e: "SaveAndAdvance chainID scanner block deposits p = (r, p')" by fastforce
  obtain xs where "deposit_buffer (saved (clock p) chainID scanner block deposits (store p)) = deposit_buffer (store p) @ xs"
    using foldl_insert_prefix deposit_buffer_saved by metis
  then show ?thesis
    using SaveAndAdvance_cases [OF e] by (auto simp: e scan_cursor_saved notifications_saved)
qed

text \<open>
  C18. \<^verbatim>\<open>SaveAndAdvance\<close> and \<^verbatim>\<open>Ack\<close> keep the invariant of the buffer under every schedule of faults: rows
  in ascending id order below the sequence, one row per (chain, transaction, log index), every
  payload decodable to a deposit with the key of its row.
\<close>

theorem buffer_invariant_preserved:
  assumes "db_inv (store p)" and "list_all wf_deposit deposits"
  shows "db_inv (store (snd (SaveAndAdvance chainID scanner block deposits p)))
    \<and> db_inv (store (snd (Ack c t l p)))"
proof -
  obtain r p' where e: "SaveAndAdvance chainID scanner block deposits p = (r, p')" by fastforce
  obtain r2 p2 where a: "Ack c t l p = (r2, p2)" by fastforce
  have "db_inv (store p')"
    using SaveAndAdvance_cases [OF e] assms db_inv_saved db_inv_same_tables by metis
  moreover have "db_inv (store p2)"
    using Ack_cases [OF a] assms db_inv_delete_row by metis
  ultimately show ?thesis by (simp add: e a)
qed

definition empty_db :: db where
  "empty_db = \<lparr>deposit_buffer = [], next_id = 1, scan_cursor = Map.empty, notifications = 0\<rparr>"

definition sample_deposit :: Deposit where
  "sample_deposit = \<lparr>ChainID = 1, TxHash = ''0xab'', LogIndex = -1, FromAddress = ''0xf'',
     ToAddress = ''0xt'', Amount = ''1.00'', ConfirmCount = 12, Symbol = ''ETH'', Status = ''TXCF'',
     TransactionDatetime = ''20250531090000'', ReceivedDatetimeMs = ''20250531090000000''\<rparr>"

lemma db_inv_empty_db [simp]: "db_inv empty_db"
  by (simp add: db_inv_def empty_db_def)

lemma wf_sample_deposit [simp]: "wf_deposit sample_deposit"
  by (simp add: wf_deposit_def sample_deposit_def in_i64_def)

theorem buffer_invariant_preserved_witness:
  "db_inv (store (snd (SaveAndAdvance 1 ''log'' 100 [sample_deposit]
      \<lparr>store = empty_db, outcomes = [Served, Served, Served, Served, Lost EOF], clock = 5\<rparr>)))
   \<and> db_inv (store (snd (Ack 1 ''0xab'' (-1)
      \<lparr>store = empty_db, outcomes = [Served, Served, Served, Served, Lost EOF], clock = 5\<rparr>)))"
  by (rule buffer_invariant_preserved) simp_all

text \<open>
  C23. Saving is not only safe but effective, and what was saved is read back: with a responsive server
  and log indices that fit the column, \<^verbatim>\<open>SaveAndAdvance\<close> returns \<^verbatim>\<open>nil\<close>; afterwards \<^verbatim>\<open>Cursor\<close> returns
  the block, and \<^verbatim>\<open>PendingAll\<close> returns the old rows followed by the new deposits, field for field,
  when their keys are new.
\<close>

theorem save_then_read:
  assumes "db_inv (store p)" and "outcomes p = []"
    and "list_all wf_deposit deposits" and "list_all (in_i32 \<circ> LogIndex) deposits"
    and "distinct (map deposit_key deposits)" and "deposit_key ` set deposits \<inter> buffer_keys (store p) = {}"
    and "SaveAndAdvance chainID scanner block deposits p = (r, p')"
    and "int (length (pending (store p)) + length deposits) \<le> limit"
  shows "r = None \<and> Cursor chainID scanner p' = (Inr block, p')
    \<and> PendingAll limit p' = (Inr (pending (store p) @ deposits), p')"
proof -
  define s' where "s' = saved (clock p) chainID scanner block deposits (store p)"
  have res: "r = None" "p' = p\<lparr>store := s'\<rparr>"
    using assms(7) SaveAndAdvance_served [OF assms(2,4)] by (simp_all add: s'_def)
  have pend: "pending (foldl (\<lambda>s d. insert_row now block d s) s ds) = pending s @ ds"
    if "list_all wf_deposit ds" "distinct (map deposit_key ds)" "deposit_key ` set ds \<inter> buffer_keys s = {}" for now s ds
    using that by (induction ds arbitrary: s) (auto simp: pending_insert_row)
  have "pending s' = pending (store p) @ deposits"
    using pend [OF assms(3,5,6)] by (simp add: pending_def s'_def deposit_buffer_saved)
  moreover have "db_inv s'"
    unfolding s'_def by (rule db_inv_saved [OF assms(1,3,4)])
  moreover have "length (deposit_buffer s') = length (pending s')"
    by (simp add: pending_def)
  ultimately have "PendingAll limit p' = (Inr (pending (store p) @ deposits), p')"
    using res assms(2,8) scan_payloads_ok [of "deposit_buffer s'"]
    by (simp add: PendingAll_def query_def scanDeposits_def db_inv_def pending_def)
  moreover have "Cursor chainID scanner p' = (Inr block, p')"
    using res assms(2) by (simp add: Cursor_def s'_def scan_cursor_saved)
  ultimately show ?thesis using res by simp
qed

theorem save_then_read_witness:
  "fst (SaveAndAdvance 1 ''log'' 100 [sample_deposit] \<lparr>store = empty_db, outcomes = [], clock = 5\<rparr>) = None
   \<and> fst (PendingAll 10 (snd (SaveAndAdvance 1 ''log'' 100 [sample_deposit]
        \<lparr>store = empty_db, outcomes = [], clock = 5\<rparr>))) = Inr [sample_deposit]"
  using save_then_read [of "\<lparr>store = empty_db, outcomes = [], clock = 5\<rparr>" "[sample_deposit]" 1 "''log''" 100
      "fst (SaveAndAdvance 1 ''log'' 100 [sample_deposit] \<lparr>store = empty_db, outcomes = [], clock = 5\<rparr>)"
      "snd (SaveAndAdvance 1 ''log'' 100 [sample_deposit] \<lparr>store = empty_db, outcomes = [], clock = 5\<rparr>)" 10]
  by (simp add: buffer_keys_def empty_db_def pending_def sample_deposit_def in_i32_def)
    (simp add: wf_deposit_def in_i64_def db_inv_def)

text \<open>
  C24. Scanning a block again is harmless: once the deposits of a block are stored, another
  \<^verbatim>\<open>SaveAndAdvance\<close> for any block with deposits of the same keys (whatever the other columns say, and
  whatever the server does) leaves the buffer exactly as it is.
\<close>

theorem rescan_adds_nothing:
  assumes "deposit_key ` set deposits \<subseteq> buffer_keys (store p)"
  shows "deposit_buffer (store (snd (SaveAndAdvance chainID scanner block deposits p))) = deposit_buffer (store p)"
proof -
  obtain r p' where e: "SaveAndAdvance chainID scanner block deposits p = (r, p')" by fastforce
  show ?thesis
    using SaveAndAdvance_cases [OF e] foldl_insert_known [OF assms]
    by (auto simp: e deposit_buffer_saved same_tablesD)
qed

theorem rescan_adds_nothing_witness:
  "deposit_buffer (store (snd (SaveAndAdvance 1 ''trace'' 101 [sample_deposit]
     \<lparr>store = insert_row 5 100 sample_deposit empty_db, outcomes = [Served, Served], clock = 6\<rparr>)))
   = deposit_buffer (insert_row 5 100 sample_deposit empty_db)"
  using rescan_adds_nothing [of "[sample_deposit]"
      "\<lparr>store = insert_row 5 100 sample_deposit empty_db, outcomes = [Served, Served], clock = 6\<rparr>" 1 "''trace''" 101]
  by simp

end
