(* ===== verification/Delivery.thy ===== *)
theory Delivery
  imports Publisher Buffer_Repo
begin

text \<open>
  The publisher on the real buffer: the contract-level lemmas of the publisher, read over
  \<^verbatim>\<open>BufferRepo\<close> and the tables through its interpretation.
\<close>

section \<open>The publisher's lemmas over the tables\<close>

lemmas repo_Run_frame = publisher_buffer.Run_frame [OF repo.publisher_buffer_axioms]
lemmas repo_drainWithACK_frame = publisher_buffer.drainWithACK_frame [OF repo.publisher_buffer_axioms]
lemmas repo_drainACK_step_frame = publisher_buffer.drainACK_step_frame [OF repo.publisher_buffer_axioms]
lemmas repo_topUp_frame = publisher_buffer.topUp_frame [OF repo.publisher_buffer_axioms]
lemmas repo_sendBatch_frame = publisher_buffer.sendBatch_frame [OF repo.publisher_buffer_axioms]
lemmas repo_topUp_fills = responsive_buffer.topUp_fills [OF repo_up.responsive_buffer_axioms]
lemmas repo_ack_all = responsive_buffer.ack_all [OF repo_up.responsive_buffer_axioms]
lemmas repo_flush_empties = responsive_buffer.flush_empties [OF repo_up.responsive_buffer_axioms]

text \<open>A publisher that starts on one stored deposit, for the concrete instances below.\<close>

definition one_pending :: "(pool, unit) pub" where
  "one_pending = \<lparr>buf = \<lparr>store = insert_row 5 100 sample_deposit empty_db, outcomes = [], clock = 6\<rparr>,
     conn = (), out = [], met = no_metrics\<rparr>"

lemma one_pending_sel [simp]: "store (buf one_pending) = insert_row 5 100 sample_deposit empty_db"
  "outcomes (buf one_pending) = []" "conn one_pending = ()" "out one_pending = []"
  by (simp_all add: one_pending_def)

lemma one_pending_ok [simp]: "db_inv (insert_row 5 100 sample_deposit empty_db)"
  "pending (insert_row 5 100 sample_deposit empty_db) = [sample_deposit]"
proof -
  show "db_inv (insert_row 5 100 sample_deposit empty_db)"
    by (rule db_inv_insert_row [OF db_inv_empty_db wf_sample_deposit]) (simp add: sample_deposit_def in_i32_def)
  show "pending (insert_row 5 100 sample_deposit empty_db) = [sample_deposit]"
    by (simp add: pending_insert_row) (simp add: buffer_keys_def pending_def empty_db_def)
qed

lemma repo_drains:
  assumes "db_inv (store (buf st))" and "outcomes (buf st) = []" and "\<forall>f c. fst (wr f c) = None"
    and "0 < MaxInFlight cfg" and "0 < MaxBatchSize cfg"
  shows "\<exists>st'. drainWithACK buffer_repo wr cfg now
      (map (\<lambda>d. (now, AckIn (ackID (ChainID d) (TxHash d) (LogIndex d)))) (pending (store (buf st)))) st = (None, st')
    \<and> pending (store (buf st')) = [] \<and> out st' = []"
proof -
  have ids: "ackID (ChainID d) (TxHash d) (LogIndex d) = key_id (deposit_key d)" for d
    by (simp add: key_id_def deposit_key_def)
  have "window_ok cfg (pending (store (buf (st\<lparr>out := []\<rparr>)))) (out (st\<lparr>out := []\<rparr>))"
    using assms(4) by (simp add: window_ok_def out_len_def)
  then obtain st1 where t: "topUp buffer_repo wr cfg now (st\<lparr>out := []\<rparr>) = (None, st1)" "buf st1 = buf st"
      "window_ok cfg (pending (store (buf st1))) (out st1)"
      "out_keys (out st1) = deposit_key ` set (take (batch_limit cfg) (pending (store (buf st1))))"
    using repo_topUp_fills [of "st\<lparr>out := []\<rparr>" wr cfg now] assms by auto
  then show ?thesis
    using repo_ack_all [of st1 wr cfg now] assms unfolding drainWithACK_def ids by simp
qed

section \<open>Properties\<close>

text \<open>
  C6. At-least-once delivery (ACK mode). Over any number of connections, with any faults of the
  database, the socket and the dialer, and any order of events, a deposit leaves the buffer only if
  an ACK carrying its own id was received; all others are still stored, and the tables stay
  well-formed.
\<close>

theorem unacked_deposits_stay:
  assumes "Run buffer_repo wr cfg rounds rs st = Some (r, rs', st')" and "RequireACK cfg" and "0 < MaxInFlight cfg"
    and "db_inv (store (buf st))"
    and "d \<in> set (pending (store (buf st)))"
    and "\<forall>x \<in> set rounds. ackID (ChainID d) (TxHash d) (LogIndex d) \<notin> acks_of_round x"
  shows "d \<in> set (pending (store (buf st'))) \<and> db_inv (store (buf st'))"
proof -
  have "key_id (deposit_key d) \<notin> \<Union> (acks_of_round ` set rounds)"
    using assms(6) by (simp add: key_id_def deposit_key_def)
  then show ?thesis
    using repo_Run_frame [OF assms(1,2) _ assms(4)] assms(3,5) removes_keeps by fastforce
qed

theorem unacked_deposits_stay_witness:
  "\<exists>r rs' st'. Run buffer_repo (\<lambda>f c. (None, c)) sample_cfg
       [Connects () 0 [(1, AckIn ''1:0xab:7''), (2, ReadErr EOF)] (\<lambda>i. None) [], CtxOver Canceled]
       \<lparr>consecutiveFailures = 0, delayMs = 5000\<rparr> one_pending = Some (r, rs', st')
     \<and> sample_deposit \<in> set (pending (store (buf st')))"
proof -
  let ?rounds = "[Connects () 0 [(1, AckIn ''1:0xab:7''), (2, ReadErr EOF)] (\<lambda>i. None) [], CtxOver Canceled]"
  let ?x = "drainWithACK buffer_repo (\<lambda>f c. (None, c)) sample_cfg 0 [(1, AckIn ''1:0xab:7''), (2, ReadErr EOF)]
      (count_reconnect one_pending\<lparr>conn := (), met := met (count_reconnect one_pending)\<lparr>PublisherConnected := True\<rparr>\<rparr>)"
  obtain r rs' st' where r: "Run buffer_repo (\<lambda>f c. (None, c)) sample_cfg ?rounds
      \<lparr>consecutiveFailures = 0, delayMs = 5000\<rparr> one_pending = Some (r, rs', st')"
    by (cases ?x; cases "fst ?x"; cases "is_ctx_error (the (fst ?x))") (auto simp: session_def Let_def)
  have "ackID (ChainID sample_deposit) (TxHash sample_deposit) (LogIndex sample_deposit) = ''1:0xab:-1''"
    by code_simp
  then have "sample_deposit \<in> set (pending (store (buf st')))"
    using unacked_deposits_stay [OF r, of sample_deposit] by simp
  with r show ?thesis by blast
qed

text \<open>
  C12. Flow control: at every moment of an ACK-mode connection at most \<^verbatim>\<open>MaxInFlight\<close> messages are
  unacknowledged, each is filed under the id of its own key, and the row of each is still in the
  buffer, so that a lost connection loses nothing. (The event list is arbitrary, so its prefixes
  are the moments of the connection.)
\<close>

theorem in_flight_window:
  assumes "drainWithACK buffer_repo wr cfg now evs st = (r, st')" and "0 < MaxInFlight cfg" and "db_inv (store (buf st))"
  shows "out_len (out st') \<le> MaxInFlight cfg
    \<and> (\<forall>mid m. map_of (out st') mid = Some m \<longrightarrow> mid = ackID (om_chainID m) (om_txHash m) (om_logIndex m)
        \<and> om_key m \<in> buffer_keys (store (buf st')))"
proof -
  have f: "db_inv (store (buf st'))" "window_ok cfg (pending (store (buf st'))) (out st')"
    using repo_drainWithACK_frame [OF assms(1,3)] assms(2) by auto
  have k: "deposit_key ` set (pending (store (buf st'))) = buffer_keys (store (buf st'))"
    using pending_keys [OF f(1)] unfolding buffer_keys_def by (metis list.set_map)
  have "mid = ackID (om_chainID m) (om_txHash m) (om_logIndex m) \<and> om_key m \<in> buffer_keys (store (buf st'))"
    if "map_of (out st') mid = Some m" for mid m
  proof -
    have "(mid, m) \<in> set (out st')" using that by (rule map_of_SomeD)
    then have "mid = key_id (om_key m)" and key: "om_key m \<in> out_keys (out st')"
      using f(2) out_ok_mem [of "out st'"] by (simp_all add: window_ok_def)
    moreover have "out_keys (out st') \<subseteq> buffer_keys (store (buf st'))"
      using f(2) k by (simp add: window_ok_def)
    ultimately show ?thesis
      using subsetD [OF _ key] by (simp add: key_id_def om_key_def)
  qed
  then show ?thesis
    using f(2) by (simp add: window_ok_def)
qed

theorem in_flight_window_witness:
  "out_len (out (snd (drainWithACK buffer_repo (\<lambda>f c. (None, c)) sample_cfg 0 [(3, PollTick)] one_pending))) \<le> 2"
  using in_flight_window [of "\<lambda>f c. (None, c)" sample_cfg 0 "[(3, PollTick)]" one_pending,
      OF prod.collapse [symmetric]] by simp

text \<open>
  Delivery completes (ACK mode): with a database and a socket that answer, and an Adapter that
  acknowledges the stored deposits in order, one connection empties the buffer, without an error and
  with nothing left in flight, whatever the backlog and the window.
\<close>

theorem ack_drain_delivers_all:
  assumes "db_inv (store (buf st))" and "outcomes (buf st) = []" and "\<forall>f c. fst (wr f c) = None"
    and "0 < MaxInFlight cfg" and "0 < MaxBatchSize cfg"
  shows "\<exists>st'. drainWithACK buffer_repo wr cfg now
      (map (\<lambda>d. (now, AckIn (ackID (ChainID d) (TxHash d) (LogIndex d)))) (pending (store (buf st)))) st = (None, st')
    \<and> pending (store (buf st')) = [] \<and> out st' = []"
  using assms by (rule repo_drains)

theorem ack_drain_delivers_all_witness:
  "\<exists>st'. drainWithACK buffer_repo (\<lambda>f c. (None, c)) sample_cfg 0 [(0, AckIn ''1:0xab:-1'')] one_pending = (None, st')
    \<and> pending (store (buf st')) = [] \<and> out st' = []"
proof -
  have "ackID (ChainID sample_deposit) (TxHash sample_deposit) (LogIndex sample_deposit) = ''1:0xab:-1''"
    by code_simp
  then show ?thesis
    using ack_drain_delivers_all [of one_pending "\<lambda>f c. (None, c)" sample_cfg 0] by simp
qed

text \<open>
  C14. \<^verbatim>\<open>flushUntilEmpty\<close> returns and empties the buffer when the database and the socket answer and the
  context lives: its loop ends although it has no bound of its own.
\<close>

theorem flush_returns_empty:
  assumes "db_inv (store (buf st))" and "outcomes (buf st) = []" and "\<forall>f c. fst (wr f c) = None"
    and "0 < MaxBatchSize cfg" and "\<forall>i. ctx i = None"
  shows "\<exists>st'. flushUntilEmpty buffer_repo wr cfg ctx i st = Some (None, st') \<and> pending (store (buf st')) = []"
  using repo_flush_empties [of st wr cfg ctx i] assms by auto

theorem flush_returns_empty_witness:
  "\<exists>st'. flushUntilEmpty buffer_repo (\<lambda>f c. (None, c)) sample_cfg (\<lambda>i. None) 0 one_pending = Some (None, st')
    \<and> pending (store (buf st')) = []"
  by (rule flush_returns_empty) simp_all



end
