(* ===== verification/Retry.thy ===== *)
theory Retry
  imports Go_Errors
begin

text \<open>
  Package \<^verbatim>\<open>internal/common/retry\<close>: which RPC errors are worth repeating (\<^verbatim>\<open>IsRetryable\<close>) and the
  exponential back-off loop (\<^verbatim>\<open>Do\<close>). The closure \<^verbatim>\<open>fn\<close> runs in a world of type \<^typ>\<open>'w\<close> (the RPC
  node, the captured variables, the clock); the \<^verbatim>\<open>select\<close> between \<^verbatim>\<open>ctx.Done()\<close> and
  \<^verbatim>\<open>time.After(d)\<close> is the parameter \<open>wait\<close>, which returns the context's error when the
  context ends first.
\<close>

section \<open>Constants and options\<close>

definition rpcCodeInternalError :: int where "rpcCodeInternalError = -32603"
definition rpcCodeNotificationsUnsup :: int where "rpcCodeNotificationsUnsup = -32001"
definition rpcCodeResponseTooLarge :: int where "rpcCodeResponseTooLarge = -32003"
definition rpcCodeServerErrorMax :: int where "rpcCodeServerErrorMax = -32000"
definition rpcCodeServerErrorMin :: int where "rpcCodeServerErrorMin = -32099"

definition httpStatusTooManyRequests :: int where "httpStatusTooManyRequests = 429"
definition httpStatusInternalServerError :: int where "httpStatusInternalServerError = 500"
definition httpStatusBadGateway :: int where "httpStatusBadGateway = 502"
definition httpStatusServiceUnavailable :: int where "httpStatusServiceUnavailable = 503"
definition httpStatusGatewayTimeout :: int where "httpStatusGatewayTimeout = 504"

lemmas code_defs =
  rpcCodeInternalError_def rpcCodeNotificationsUnsup_def rpcCodeResponseTooLarge_def
  rpcCodeServerErrorMax_def rpcCodeServerErrorMin_def
  httpStatusTooManyRequests_def httpStatusInternalServerError_def httpStatusBadGateway_def
  httpStatusServiceUnavailable_def httpStatusGatewayTimeout_def

record Options =
  MaxRetries :: int
  BaseDelay :: int \<comment> \<open>nanoseconds\<close>

section \<open>Classification of errors\<close>

definition IsRetryable :: "goerror option \<Rightarrow> bool" where
  "IsRetryable err =
    (case err of
       None \<Rightarrow> False
     | Some e \<Rightarrow>
         if errors_Is e Canceled \<or> errors_Is e DeadlineExceeded then False
         else if errors_As as_retryable e \<noteq> None then True
         else (case errors_As as_rpc e of
             Some code \<Rightarrow>
               if code = rpcCodeInternalError then True
               else if code = rpcCodeNotificationsUnsup \<or> code = rpcCodeResponseTooLarge then False
               else code \<le> rpcCodeServerErrorMax \<and> rpcCodeServerErrorMin \<le> code
           | None \<Rightarrow>
             (case errors_As as_http e of
                Some st \<Rightarrow> st \<in> {httpStatusTooManyRequests, httpStatusInternalServerError,
                     httpStatusBadGateway, httpStatusServiceUnavailable, httpStatusGatewayTimeout}
              | None \<Rightarrow>
                if errors_As as_net e = Some True then True
                else errors_Is e EOF \<or> errors_Is e UnexpectedEOF \<or> errors_Is e ErrClosed
                     \<or> errors_Is e ECONNRESET \<or> errors_Is e ECONNREFUSED)))"

section \<open>The back-off loop\<close>

text \<open>\<^verbatim>\<open>opt.BaseDelay << attempt\<close>: a shift of a 64-bit signed duration.\<close>

definition backoff :: "int \<Rightarrow> nat \<Rightarrow> int" where
  "backoff base attempt = to_i64 (push_bit attempt (to_u64 base))"

text \<open>
  The loop from attempt \<open>attempt\<close> on, with \<open>n\<close> attempts left. \<open>fn\<close> returns the value it
  stores into the captured variable or its error; the last argument of \<open>wait\<close> is the world.
\<close>

fun Do_loop ::
  "('w \<Rightarrow> int \<Rightarrow> goerror option \<times> 'w) \<Rightarrow> Options \<Rightarrow> ('w \<Rightarrow> (goerror + 'a) \<times> 'w)
    \<Rightarrow> nat \<Rightarrow> nat \<Rightarrow> (goerror + 'a) \<Rightarrow> 'w \<Rightarrow> (goerror + 'a) \<times> 'w" where
  "Do_loop wait opt fn 0 attempt res w = (res, w)"
| "Do_loop wait opt fn (Suc n) attempt res w =
    (case fn w of
       (Inr v, w') \<Rightarrow> (Inr v, w')
     | (Inl e, w') \<Rightarrow>
         if \<not> IsRetryable (Some e) \<or> int attempt = MaxRetries opt then (Inl e, w')
         else (case wait w' (backoff (BaseDelay opt) attempt) of
             (Some ce, w'') \<Rightarrow> (Inl ce, w'')
           | (None, w'') \<Rightarrow> Do_loop wait opt fn n (Suc attempt) (Inl e) w''))"

text \<open>
  \<open>zero\<close> is the captured variable before the call: with a negative \<^const>\<open>MaxRetries\<close> the loop body
  never runs and \<^verbatim>\<open>Do\<close> returns \<^verbatim>\<open>nil\<close>.
\<close>

definition Do ::
  "('w \<Rightarrow> int \<Rightarrow> goerror option \<times> 'w) \<Rightarrow> Options \<Rightarrow> 'a \<Rightarrow> ('w \<Rightarrow> (goerror + 'a) \<times> 'w)
    \<Rightarrow> 'w \<Rightarrow> (goerror + 'a) \<times> 'w" where
  "Do wait opt zero fn w = Do_loop wait opt fn (nat (MaxRetries opt + 1)) 0 (Inr zero) w"

text \<open>
  What a run of the loop consists of: \<open>retries wait opt fn k w w'\<close> says that from \<open>w\<close> there were
  \<open>k\<close> failed attempts, each with an error worth repeating and followed by an undisturbed wait.
\<close>

inductive retries ::
  "('w \<Rightarrow> int \<Rightarrow> goerror option \<times> 'w) \<Rightarrow> Options \<Rightarrow> ('w \<Rightarrow> (goerror + 'a) \<times> 'w)
    \<Rightarrow> nat \<Rightarrow> 'w \<Rightarrow> 'w \<Rightarrow> bool"
  for wait opt fn where
  retries_none: "retries wait opt fn 0 w w"
| retries_more: "retries wait opt fn k w w1 \<Longrightarrow> fn w1 = (Inl e, w2) \<Longrightarrow> IsRetryable (Some e) \<Longrightarrow>
    wait w2 (backoff (BaseDelay opt) k) = (None, w3) \<Longrightarrow> retries wait opt fn (Suc k) w w3"

text \<open>How the last attempt, number \<open>k\<close>, ends the loop with result \<open>r\<close> in world \<open>w'\<close>.\<close>

definition last_attempt ::
  "('w \<Rightarrow> int \<Rightarrow> goerror option \<times> 'w) \<Rightarrow> Options \<Rightarrow> ('w \<Rightarrow> (goerror + 'a) \<times> 'w)
    \<Rightarrow> nat \<Rightarrow> 'w \<Rightarrow> (goerror + 'a) \<Rightarrow> 'w \<Rightarrow> bool" where
  "last_attempt wait opt fn k w r w' \<longleftrightarrow>
    (case fn w of
       (Inr v, w1) \<Rightarrow> r = Inr v \<and> w' = w1
     | (Inl e, w1) \<Rightarrow>
         if \<not> IsRetryable (Some e) \<or> int k = MaxRetries opt then r = Inl e \<and> w' = w1
         else (\<exists>ce. wait w1 (backoff (BaseDelay opt) k) = (Some ce, w') \<and> r = Inl ce))"

section \<open>Lemmas\<close>

lemma IsRetryable_Wrap [simp]: "IsRetryable (Some (Wrap m e)) = IsRetryable (Some e)"
  by (simp add: IsRetryable_def cong: if_cong option.case_cong)

lemma IsRetryable_rpc [simp]:
  "IsRetryable (Some (RpcError code m)) \<longleftrightarrow>
     code = -32603 \<or> (-32099 \<le> code \<and> code \<le> -32000 \<and> code \<noteq> -32001 \<and> code \<noteq> -32003)"
  by (auto simp: IsRetryable_def errors_Is_def errors_As_def code_defs)

lemma Do_loop_retries:
  assumes "retries wait opt fn k w0 w" and "int (k + n) = MaxRetries opt + 1" and "0 < n"
    and "Do_loop wait opt fn n k res w = (r, w')"
  shows "\<exists>j w1. int j \<le> MaxRetries opt \<and> retries wait opt fn j w0 w1 \<and> last_attempt wait opt fn j w1 r w'"
  using assms
proof (induction n arbitrary: k res w)
  case 0
  then show ?case by simp
next
  case (Suc n)
  obtain x w1 where fn: "fn w = (x, w1)" by fastforce
  show ?case
  proof (cases x)
    case (Inr v)
    with Suc.prems fn have "last_attempt wait opt fn k w r w'"
      by (auto simp: last_attempt_def)
    with Suc.prems(1,2) show ?thesis by (intro exI [of _ k] exI [of _ w]) simp
  next
    case (Inl e)
    obtain c w2 where wt: "wait w1 (backoff (BaseDelay opt) k) = (c, w2)" by fastforce
    show ?thesis
    proof (cases "\<not> IsRetryable (Some e) \<or> int k = MaxRetries opt \<or> c \<noteq> None")
      case True
      with Suc.prems fn Inl wt have "last_attempt wait opt fn k w r w'"
        by (auto simp: last_attempt_def split: if_splits option.splits)
      with Suc.prems(1,2) show ?thesis by (intro exI [of _ k] exI [of _ w]) simp
    next
      case False
      then have more: "retries wait opt fn (Suc k) w0 w2"
        using retries_more [OF Suc.prems(1)] fn Inl wt by simp
      from False Suc.prems fn Inl wt have "Do_loop wait opt fn n (Suc k) (Inl e) w2 = (r, w')"
        by simp
      moreover from False Suc.prems(2) have "0 < n" by auto
      ultimately show ?thesis
        using Suc.IH [OF more] Suc.prems(2) by simp
    qed
  qed
qed

lemma Do_loop_success:
  "Do_loop wait opt fn n k res w = (Inr v, w') \<Longrightarrow> n = 0 \<and> res = Inr v \<or> (\<exists>w1 w2. fn w1 = (Inr v, w2))"
  by (induction n arbitrary: k res w) (fastforce split: prod.splits sum.splits if_splits option.splits)+

lemma Do_first_attempt:
  "0 \<le> MaxRetries opt \<Longrightarrow> fn w = (Inr v, w') \<Longrightarrow> Do wait opt zero fn w = (Inr v, w')"
  by (simp add: Do_def nat_add_distrib)

section \<open>Properties\<close>



text \<open>
  An error whose chain holds \<^verbatim>\<open>context.Canceled\<close> or \<^verbatim>\<open>context.DeadlineExceeded\<close> is never
  repeated, whatever wraps it (a \<^verbatim>\<open>RetryableError\<close>, a network error or \<^verbatim>\<open>fmt.Errorf\<close>): \<^verbatim>\<open>Do\<close>
  returns it after that single attempt without waiting.
\<close>

theorem Do_stops_on_cancel:
  assumes "0 \<le> MaxRetries opt" and "fn w = (Inl e, w')"
    and "errors_Is e Canceled \<or> errors_Is e DeadlineExceeded"
  shows "Do wait opt zero fn w = (Inl e, w')"
proof -
  have "\<not> IsRetryable (Some e)"
    using assms(3) by (auto simp: IsRetryable_def)
  moreover obtain n where "nat (MaxRetries opt + 1) = Suc n"
    using assms(1) by (metis add.commute nat_add_distrib nat_one_as_int of_nat_0_le_iff plus_1_eq_Suc nat_1 zero_le_one)
  ultimately show ?thesis
    using assms(2) by (simp add: Do_def)
qed

theorem Do_stops_on_cancel_witness:
  "Do (\<lambda>w d. (None, w)) \<lparr>MaxRetries = 5, BaseDelay = 1000\<rparr> 0
     (\<lambda>n::nat. (Inl (RetryableError (Wrap ''get block'' Canceled)) :: goerror + nat, Suc n)) 0
   = (Inl (RetryableError (Wrap ''get block'' Canceled)), 1)"
  by (rule Do_stops_on_cancel) (simp_all add: errors_Is_def)

text \<open>
  The pause before repeating attempt \<open>k\<close> is exactly \<^verbatim>\<open>BaseDelay\<close> times \<open>2 ^ k\<close> as long as that
  duration fits the signed 64-bit \<^verbatim>\<open>time.Duration\<close>.
\<close>

theorem backoff_doubles:
  assumes "0 \<le> base" and "base * 2 ^ k < 2 ^ 63"
  shows "backoff base k = base * 2 ^ k"
proof -
  have "0 \<le> base * 2 ^ k"
    using assms(1) by simp
  then show ?thesis
    using i64_u64 [of "base * 2 ^ k"] assms(2) by (simp add: backoff_def to_u64_push_bit)
qed

theorem backoff_doubles_witness: "backoff 1000000000 5 = 32000000000"
  using backoff_doubles [of 1000000000 5] by simp

end
