(* ===== verification/Loop.thy ===== *)
theory Loop
  imports Buffer_Repo Retry
begin

text \<open>
  \<^verbatim>\<open>internal/scanner/loop.go\<close>: the polling loop of one (chain, scanner). It reads the head of the chain,
  holds back the blocks without enough confirmations, scans the next blocks one by one and stores the
  deposits of each together with the cursor. The RPC client, the strategy and the timers are
  operations on a node state of type \<^typ>\<open>'s\<close>; block numbers are \<^verbatim>\<open>uint64\<close> words, so that \<^verbatim>\<open>block++\<close> and
  the end of the range wrap as they do in Go.
\<close>

section \<open>Configuration and state\<close>

record LoopConfig =
  MinConfirmations :: int
  MaxBlocksPerPoll :: int
  BlockDelayMs :: int
  PollingIntervalMs :: int
  RetryOptions :: Options

record 's Loop =
  loop_chainID :: int
  BlockNumber :: "'s \<Rightarrow> (goerror + u64) \<times> 's"
  strategy :: "'s Scanner"
  loop_cfg :: LoopConfig
  wait_op :: "'s \<Rightarrow> int \<Rightarrow> goerror option \<times> 's"
    \<comment> \<open>\<^verbatim>\<open>select\<close> of \<^verbatim>\<open>ctx.Done()\<close> and \<^verbatim>\<open>time.After\<close>: the context's error if it ends first\<close>
  now_op :: "'s \<Rightarrow> nat \<Rightarrow> gotime" \<comment> \<open>\<^verbatim>\<open>time.Now()\<close> at the i-th conversion\<close>

record loop_metrics =
  ScannerErrors :: nat
  ScannerLatestBlock :: u64
  ScannerCursorBlock :: u64
  ScannerLagBlocks :: u64
  ScannerBlocksProcessed :: nat
  ScannerDepositsFound :: nat

record 's loop_state =
  node :: 's
  bpool :: pool
  lmet :: loop_metrics

text \<open>How a poll ends: a return value, or the panic of a conversion.\<close>

datatype poll_end = Done "goerror option" | Panicked

section \<open>Conversion of events\<close>

text \<open>\<^const>\<open>None\<close> is the panic of \<^verbatim>\<open>formatUnits\<close>; events whose time stamp does not parse are left out.\<close>

fun convert_from :: "(nat \<Rightarrow> gotime) \<Rightarrow> int \<Rightarrow> nat \<Rightarrow> DepositEvent list \<Rightarrow> Deposit list option" where
  "convert_from now minConfirmations i [] = Some []"
| "convert_from now minConfirmations i (e # es) =
    (case ToDeposit (now i) e minConfirmations of
       ToPanic \<Rightarrow> None
     | Skip \<Rightarrow> convert_from now minConfirmations (Suc i) es
     | Converted d \<Rightarrow> map_option ((#) d) (convert_from now minConfirmations (Suc i) es))"

definition convertEvents :: "(nat \<Rightarrow> gotime) \<Rightarrow> DepositEvent list \<Rightarrow> int \<Rightarrow> Deposit list option" where
  "convertEvents now events minConfirmations = convert_from now minConfirmations 0 events"

section \<open>pollOnce\<close>

definition block_done :: "u64 \<Rightarrow> u64 \<Rightarrow> nat \<Rightarrow> loop_metrics \<Rightarrow> loop_metrics" where
  "block_done latest block found m =
    m\<lparr>ScannerCursorBlock := block, ScannerLagBlocks := latest - block,
      ScannerBlocksProcessed := Suc (ScannerBlocksProcessed m),
      ScannerDepositsFound := ScannerDepositsFound m + found\<rparr>"

definition count_error :: "'s loop_state \<Rightarrow> 's loop_state" where
  "count_error st = st\<lparr>lmet := lmet st\<lparr>ScannerErrors := Suc (ScannerErrors (lmet st))\<rparr>\<rparr>"

text \<open>One pass of the loop body; \<^const>\<open>None\<close> if the loop goes on with the next block.\<close>

definition poll_block :: "'s Loop \<Rightarrow> u64 \<Rightarrow> u64 \<Rightarrow> u64 \<Rightarrow> 's loop_state \<Rightarrow> poll_end option \<times> 's loop_state" where
  "poll_block L latest endBlock block st =
    (case ScanBlock (strategy L) block (to_i64 (latest - block)) (node st) of
       (Inl e, s') \<Rightarrow> (Some (Done (Some (Wrap (''scan block '' @ show_nat (unat block)) e))), st\<lparr>node := s'\<rparr>)
     | (Inr events, s') \<Rightarrow>
     (case convertEvents (now_op L s') events (MinConfirmations (loop_cfg L)) of
        None \<Rightarrow> (Some Panicked, st\<lparr>node := s'\<rparr>)
      | Some deposits \<Rightarrow>
     (case SaveAndAdvance (loop_chainID L) (Name (strategy L)) block deposits (bpool st) of
        (Some e, p') \<Rightarrow> (Some (Done (Some (Wrap (''save block '' @ show_nat (unat block)) e))),
                       count_error (st\<lparr>node := s', bpool := p'\<rparr>))
      | (None, p') \<Rightarrow>
          let st1 = st\<lparr>node := s', bpool := p', lmet := block_done latest block (length deposits) (lmet st)\<rparr>
          in if block < endBlock
             then (case wait_op L (node st1) (wrap64 (BlockDelayMs (loop_cfg L) * Millisecond)) of
                (Some e, s'') \<Rightarrow> (Some (Done (Some e)), st1\<lparr>node := s''\<rparr>)
              | (None, s'') \<Rightarrow> (None, st1\<lparr>node := s''\<rparr>))
             else (None, st1))))"

text \<open>The \<^verbatim>\<open>for\<close> loop from \<open>block\<close> on; \<^const>\<open>None\<close> if it runs forever.\<close>

partial_function (option) poll_blocks ::
  "'s Loop \<Rightarrow> u64 \<Rightarrow> u64 \<Rightarrow> u64 \<Rightarrow> 's loop_state \<Rightarrow> (poll_end \<times> 's loop_state) option" where
  "poll_blocks L latest endBlock block st =
    (if \<not> block \<le> endBlock then Some (Done None, st)
     else (case poll_block L latest endBlock block st of
        (Some r, st') \<Rightarrow> Some (r, st')
      | (None, st') \<Rightarrow> poll_blocks L latest endBlock (block + 1) st'))"

definition end_block :: "'s Loop \<Rightarrow> u64 \<Rightarrow> u64 \<Rightarrow> u64" where
  "end_block L maxConfirmed startBlock =
    (let endBlock = startBlock + to_u64 (MaxBlocksPerPoll (loop_cfg L)) - 1
     in if endBlock > maxConfirmed then maxConfirmed else endBlock)"

definition pollOnce :: "'s Loop \<Rightarrow> 's loop_state \<Rightarrow> (poll_end \<times> 's loop_state) option" where
  "pollOnce L st =
    (case Do (wait_op L) (RetryOptions (loop_cfg L)) 0 (BlockNumber L) (node st) of
       (Inl e, s') \<Rightarrow> Some (Done (Some (Wrap ''BlockNumber'' e)), count_error (st\<lparr>node := s'\<rparr>))
     | (Inr latest, s') \<Rightarrow>
         let st1 = st\<lparr>node := s', lmet := lmet st\<lparr>ScannerLatestBlock := latest\<rparr>\<rparr>;
             conf = to_u64 (MinConfirmations (loop_cfg L))
         in if \<not> conf \<le> latest then Some (Done None, st1)
            else let maxConfirmed = latest - conf in
              (case Cursor (loop_chainID L) (Name (strategy L)) (bpool st1) of
                 (Inl e, p') \<Rightarrow> Some (Done (Some (Wrap ''read cursor'' e)), st1\<lparr>bpool := p'\<rparr>)
               | (Inr cursor, p') \<Rightarrow>
                   let st2 = st1\<lparr>bpool := p'\<rparr>; startBlock = cursor + 1 in
                   if cursor = 0 then
                     (case SaveAndAdvance (loop_chainID L) (Name (strategy L)) maxConfirmed [] p' of
                        (Some e, p'') \<Rightarrow> Some (Done (Some (Wrap ''init cursor'' e)), st2\<lparr>bpool := p''\<rparr>)
                      | (None, p'') \<Rightarrow> Some (Done None, st2\<lparr>bpool := p''\<rparr>))
                   else if startBlock > maxConfirmed then Some (Done None, st2)
                   else poll_blocks L latest (end_block L maxConfirmed startBlock) startBlock st2))"

section \<open>Run\<close>

text \<open>
  \<^verbatim>\<open>Run\<close> over the events its \<^verbatim>\<open>select\<close> sees: a tick with the world as the poll finds it (the ticker may
  fire any time later), or the end of the context. A used-up list is a loop still running; a panic
  of a conversion or of \<^verbatim>\<open>time.NewTicker\<close> leaves the goroutine.
\<close>

datatype 's tick = Tick "'s loop_state \<Rightarrow> 's loop_state" | CtxEnds goerror

datatype run_end = Running | Returned goerror | Crashed

fun run_ticks :: "'s Loop \<Rightarrow> 's tick list \<Rightarrow> 's loop_state \<Rightarrow> (run_end \<times> 's loop_state) option" where
  "run_ticks L [] st = Some (Running, st)"
| "run_ticks L (CtxEnds e # ts) st = Some (Returned e, st)"
| "run_ticks L (Tick f # ts) st =
    (case pollOnce L (f st) of
       None \<Rightarrow> None
     | Some (Panicked, st') \<Rightarrow> Some (Crashed, st')
     | Some (Done r, st') \<Rightarrow> run_ticks L ts st')"

definition Loop_Run :: "'s Loop \<Rightarrow> 's tick list \<Rightarrow> 's loop_state \<Rightarrow> (run_end \<times> 's loop_state) option" where
  "Loop_Run L ts st =
    (case pollOnce L st of
       None \<Rightarrow> None
     | Some (Panicked, st') \<Rightarrow> Some (Crashed, st')
     | Some (Done r, st') \<Rightarrow>
         if ticker_ok (wrap64 (PollingIntervalMs (loop_cfg L) * Millisecond)) then run_ticks L ts st' else Some (Crashed, st'))"

section \<open>What a poll does to the tables\<close>

text \<open>A block was scanned with deposits \<open>ds\<close>: some \<^verbatim>\<open>ScanBlock\<close> call for it succeeded and converted to \<open>ds\<close>.\<close>

definition scan_result :: "'s Loop \<Rightarrow> u64 \<Rightarrow> u64 \<Rightarrow> Deposit list \<Rightarrow> bool" where
  "scan_result L latest block ds \<longleftrightarrow>
    (\<exists>s s' events. ScanBlock (strategy L) block (to_i64 (latest - block)) s = (Inr events, s')
       \<and> convertEvents (now_op L s') events (MinConfirmations (loop_cfg L)) = Some ds)"

text \<open>The abstract scan: the blocks of a trace are stored one after the other.\<close>

fun apply_blocks :: "int \<Rightarrow> int \<Rightarrow> string \<Rightarrow> (u64 \<times> Deposit list) list \<Rightarrow> db \<Rightarrow> db" where
  "apply_blocks now c n [] s = s"
| "apply_blocks now c n ((b, ds) # tr) s = apply_blocks now c n tr (saved now c n b ds s)"

definition blocks_from :: "u64 \<Rightarrow> nat \<Rightarrow> u64 list" where
  "blocks_from b n = map (\<lambda>i. b + of_nat i) [0..<n]"

definition trace_ok :: "'s Loop \<Rightarrow> u64 \<Rightarrow> u64 \<Rightarrow> u64 \<Rightarrow> (u64 \<times> Deposit list) list \<Rightarrow> bool" where
  "trace_ok L latest endBlock block tr \<longleftrightarrow>
    map fst tr = blocks_from block (length tr) \<and> (\<forall>(b, ds) \<in> set tr. b \<le> endBlock \<and> scan_result L latest b ds)"

lemma blocks_from_Suc: "blocks_from b (Suc n) = b # blocks_from (b + 1) n"
proof -
  have "blocks_from b (Suc n) = map (\<lambda>i. b + of_nat i) (0 # map Suc [0..<n])"
    by (simp only: blocks_from_def upt_conv_Cons map_Suc_upt zero_less_Suc)
  then show ?thesis by (simp add: blocks_from_def add.assoc)
qed

lemma trace_ok_Nil [simp]: "trace_ok L latest endBlock block []"
  by (simp add: trace_ok_def blocks_from_def)

lemma trace_ok_Cons:
  "trace_ok L latest endBlock (block + 1) tr \<Longrightarrow> block \<le> endBlock \<Longrightarrow> scan_result L latest block ds \<Longrightarrow>
    trace_ok L latest endBlock block ((block, ds) # tr)"
  by (auto simp: trace_ok_def blocks_from_Suc)

lemma buffer_keys_apply:
  "buffer_keys (apply_blocks now c n tr s) = buffer_keys s \<union> (\<Union>(b, ds) \<in> set tr. deposit_key ` set ds)"
  by (induction now c n tr s rule: apply_blocks.induct) auto

lemma cursor_apply:
  "cursor_of (apply_blocks now c n tr s) c n = (if tr = [] then cursor_of s c n else fst (last tr))"
  by (induction now c n tr s rule: apply_blocks.induct) auto

lemma cursor_apply_other:
  "(c', n') \<noteq> (c, n) \<Longrightarrow> cursor_of (apply_blocks now c n tr s) c' n' = cursor_of s c' n'"
  by (induction now c n tr s rule: apply_blocks.induct) auto

text \<open>
  What the loop over the blocks has done when it ends: it stored a trace of consecutive blocks, all of
  them scanned; all up to the end block if it ends without an error.
\<close>

definition poll_effect :: "'s Loop \<Rightarrow> u64 \<Rightarrow> u64 \<Rightarrow> u64 \<Rightarrow> 's loop_state \<Rightarrow> poll_end \<Rightarrow> 's loop_state \<Rightarrow> bool" where
  "poll_effect L latest endBlock block st r st' \<longleftrightarrow>
    (\<exists>tr. trace_ok L latest endBlock block tr
      \<and> same_tables (apply_blocks (clock (bpool st)) (loop_chainID L) (Name (strategy L)) tr (store (bpool st))) (store (bpool st'))
      \<and> (r = Done None \<longrightarrow> (\<forall>b. block \<le> b \<and> b \<le> endBlock \<longrightarrow> b \<in> fst ` set tr)))"

lemma poll_effect_stop:
  assumes "same_tables (store (bpool st)) (store (bpool st'))" and "r = Done None \<longrightarrow> \<not> block \<le> endBlock"
  shows "poll_effect L latest endBlock block st r st'"
  unfolding poll_effect_def using assms by (intro exI [of _ "[]"]) auto

lemma poll_effect_next:
  assumes "poll_effect L latest endBlock (block + 1) st1 r st'" and "block \<le> endBlock"
    and "scan_result L latest block ds"
    and "store (bpool st1) = saved (clock (bpool st)) (loop_chainID L) (Name (strategy L)) block ds (store (bpool st))"
    and "clock (bpool st1) = clock (bpool st)"
  shows "poll_effect L latest endBlock block st r st'"
proof -
  obtain tr where tr: "trace_ok L latest endBlock (block + 1) tr"
      "same_tables (apply_blocks (clock (bpool st1)) (loop_chainID L) (Name (strategy L)) tr (store (bpool st1))) (store (bpool st'))"
      "r = Done None \<longrightarrow> (\<forall>b. block + 1 \<le> b \<and> b \<le> endBlock \<longrightarrow> b \<in> fst ` set tr)"
    using assms(1) by (auto simp: poll_effect_def)
  have "b = block \<or> block + 1 \<le> b" if "block \<le> b" for b :: u64
    using that by (metis inc_le order_le_less)
  with tr assms show ?thesis
    unfolding poll_effect_def by (intro exI [of _ "(block, ds) # tr"]) (auto intro: trace_ok_Cons)
qed

lemma poll_effect_lost:
  assumes "block \<le> endBlock" and "scan_result L latest block ds" and "r \<noteq> Done None"
    and "same_tables (saved (clock (bpool st)) (loop_chainID L) (Name (strategy L)) block ds (store (bpool st))) (store (bpool st'))"
  shows "poll_effect L latest endBlock block st r st'"
  unfolding poll_effect_def using assms by (intro exI [of _ "[(block, ds)]"]) (auto intro: trace_ok_Cons)

lemma count_error_bpool [simp]: "bpool (count_error st) = bpool st"
  by (simp add: count_error_def)

lemma poll_block_cases:
  assumes "poll_block L latest endBlock block st = (r, st')"
  shows "r \<noteq> Some (Done None)
    \<and> (r \<noteq> None \<and> same_tables (store (bpool st)) (store (bpool st'))
     \<or> clock (bpool st') = clock (bpool st) \<and> (\<exists>ds. scan_result L latest block ds \<and>
         store (bpool st') = saved (clock (bpool st)) (loop_chainID L) (Name (strategy L)) block ds (store (bpool st))))"
proof (cases "fst (ScanBlock (strategy L) block (to_i64 (latest - block)) (node st))")
  case (Inl e)
  with assms show ?thesis by (auto simp: poll_block_def split: prod.splits)
next
  case (Inr events)
  then obtain s1 where scan: "ScanBlock (strategy L) block (to_i64 (latest - block)) (node st) = (Inr events, s1)"
    by (metis prod.collapse)
  show ?thesis
  proof (cases "convertEvents (now_op L s1) events (MinConfirmations (loop_cfg L))")
    case None
    with assms scan show ?thesis by (auto simp: poll_block_def)
  next
    case (Some ds)
    obtain e p1 where sv: "SaveAndAdvance (loop_chainID L) (Name (strategy L)) block ds (bpool st) = (e, p1)" by fastforce
    have "bpool st' = p1 \<and> r \<noteq> Some (Done None) \<and> (e \<noteq> None \<longrightarrow> r \<noteq> None)"
      using assms scan Some sv by (auto simp: poll_block_def Let_def split: option.splits prod.splits if_splits)
    moreover have "scan_result L latest block ds"
      using scan Some by (auto simp: scan_result_def)
    ultimately show ?thesis
      using SaveAndAdvance_cases [OF sv] by auto
  qed
qed

lemma poll_blocks_effect:
  assumes "poll_blocks L latest endBlock block st = Some (r, st')"
  shows "poll_effect L latest endBlock block st r st'"
  using assms
proof (induction L latest endBlock block st "(r, st')" arbitrary: r st' rule: poll_blocks.raw_induct [rotated, consumes 1, case_names step])
  case (step f L latest endBlock block st r st')
  show ?case
  proof (cases "block \<le> endBlock")
    case False
    with step(2) show ?thesis by (intro poll_effect_stop) auto
  next
    case le: True
    obtain r1 st1 where b: "poll_block L latest endBlock block st = (r1, st1)" by fastforce
    note c = poll_block_cases [OF b]
    show ?thesis
    proof (cases r1)
      case (Some x)
      then have "x = r" "st1 = st'" using step(2) le b by auto
      with c Some le show ?thesis
        by (auto intro: poll_effect_stop poll_effect_lost)
    next
      case None
      then have "f L latest endBlock (block + 1) st1 = Some (r, st')" using step(2) le b by simp
      from step(1) [OF this] show ?thesis
        using c None le by (auto intro: poll_effect_next)
    qed
  qed
qed

lemma trace_nth:
  assumes "trace_ok L latest e b tr" and "i < length tr"
  shows "fst (tr ! i) = b + of_nat i"
proof -
  have "fst (tr ! i) = map fst tr ! i" using assms(2) by simp
  also have "\<dots> = b + of_nat i" using assms by (simp add: trace_ok_def blocks_from_def)
  finally show ?thesis .
qed

lemma unat_add_offset: "unat (b::u64) + i < 2 ^ 64 \<Longrightarrow> unat (b + of_nat i) = unat b + i"
  by (simp add: unat_word_ariths unat_of_nat)

lemma trace_length:
  assumes "trace_ok L latest e b tr" and "e \<noteq> - 1" and "b \<le> e"
  shows "unat b + length tr \<le> Suc (unat e)"
proof (rule ccontr)
  assume long: "\<not> unat b + length tr \<le> Suc (unat e)"
  define i where "i = Suc (unat e) - unat b"
  have "unat b \<le> unat e" using assms(3) by (simp add: word_le_nat_alt)
  then have i: "i < length tr" "unat b + i = Suc (unat e)"
    using long by (simp_all add: i_def)
  have "Suc (unat e) < 2 ^ 64"
    using assms(2) by (rule unat_u64_not_max)
  then have "unat (fst (tr ! i)) = Suc (unat e)"
    using trace_nth [OF assms(1) i(1)] i(2) unat_add_offset [of b i] by simp
  moreover have "fst (tr ! i) \<le> e"
    using assms(1) nth_mem [OF i(1)] by (auto simp: trace_ok_def)
  ultimately show False by (simp add: word_le_nat_alt)
qed

text \<open>The blocks of a trace are exactly those from the first to the last.\<close>

lemma trace_covers:
  assumes "trace_ok L latest e b tr" and "e \<noteq> - 1" and "b \<le> e" and "tr \<noteq> []"
  shows "unat (fst (last tr)) = unat b + length tr - 1" and "b \<le> fst (last tr)" and "fst (last tr) \<le> e"
    and "b \<le> x \<Longrightarrow> x \<le> fst (last tr) \<Longrightarrow> \<exists>ds. (x, ds) \<in> set tr"
proof -
  have len: "unat b + length tr \<le> Suc (unat e)" by (rule trace_length [OF assms(1-3)])
  have e: "Suc (unat e) < 2 ^ 64"
    using assms(2) by (rule unat_u64_not_max)
  have at: "unat (fst (tr ! i)) = unat b + i" if "i < length tr" for i
    using trace_nth [OF assms(1) that] unat_add_offset [of b i] len e that by simp
  have l: "last tr = tr ! (length tr - 1)" using assms(4) by (rule last_conv_nth)
  show last: "unat (fst (last tr)) = unat b + length tr - 1"
    using at [of "length tr - 1"] assms(4) l by (cases tr) auto
  show "b \<le> fst (last tr)" using last assms(4) by (cases tr) (auto simp: word_le_nat_alt)
  show "fst (last tr) \<le> e" using assms(1) last_in_set [OF assms(4)] by (auto simp: trace_ok_def)
  assume x: "b \<le> x" "x \<le> fst (last tr)"
  define i where "i = unat x - unat b"
  have i: "i < length tr" "unat b + i = unat x"
    using x last assms(4) by (cases tr; auto simp: i_def word_le_nat_alt)+
  then have "fst (tr ! i) = x" using at [OF i(1)] by (simp add: word_unat_eq_iff)
  then show "\<exists>ds. (x, ds) \<in> set tr" using nth_mem [OF i(1)] by (metis prod.collapse)
qed

lemma word_range_bound:
  assumes "(b::u64) \<le> e" and "e \<le> b + of_nat n - 1" and "n < 2 ^ 63" and "b \<noteq> 0"
  shows "unat e < unat b + n"
proof (cases n)
  case 0
  then have "b \<le> b - 1" using assms(1,2) by simp
  then have "unat b \<le> unat b - 1"
    using assms(4) unat_minus_one [of b] by (simp add: word_le_nat_alt)
  moreover have "0 < unat b" using assms(4) by (simp add: unat_gt_0)
  ultimately show ?thesis by simp
next
  case (Suc k)
  have b: "unat b < 2 ^ 64" by (rule unat_u64_less)
  have "b + of_nat n - 1 = b + of_nat k" by (simp add: Suc)
  then have e: "unat e \<le> (unat b + k) mod 2 ^ 64"
    using assms(2) by (simp only: word_le_nat_alt) (simp add: unat_word_ariths unat_of_nat mod_simps)
  show ?thesis
  proof (cases "unat b + k < 2 ^ 64")
    case True
    then show ?thesis using e Suc by simp
  next
    case False
    then have "(unat b + k) mod 2 ^ 64 = unat b + k - 2 ^ 64"
      using b Suc assms(3) by (simp add: le_mod_geq)
    then have "unat e < unat b" using e b Suc assms(3) False by auto
    then show ?thesis using assms(1) by (simp add: word_le_nat_alt)
  qed
qed

lemma end_block_bound:
  assumes "0 \<le> MaxBlocksPerPoll (loop_cfg L)" and "MaxBlocksPerPoll (loop_cfg L) < 2 ^ 63"
    and "b \<le> end_block L m b" and "b \<noteq> 0"
  shows "int (unat (end_block L m b)) < int (unat b) + MaxBlocksPerPoll (loop_cfg L)"
proof -
  define n where "n = nat (MaxBlocksPerPoll (loop_cfg L))"
  have n: "to_u64 (MaxBlocksPerPoll (loop_cfg L)) = of_nat n" "n < 2 ^ 63" "int n = MaxBlocksPerPoll (loop_cfg L)"
    using assms(1,2) by (simp_all add: n_def to_u64_def nat_less_iff)
  have "end_block L m b \<le> b + of_nat n - 1"
    unfolding end_block_def Let_def n by (simp add: less_imp_le)
  from word_range_bound [OF assms(3) this n(2) assms(4)] show ?thesis using n(3) by linarith
qed

lemma end_block_le: "end_block L m b \<le> m"
  by (simp add: end_block_def Let_def not_less)

lemma poll_effect_cong:
  "poll_effect L latest e b st2 r st' \<Longrightarrow> store (bpool st2) = store (bpool st) \<Longrightarrow> clock (bpool st2) = clock (bpool st)
    \<Longrightarrow> poll_effect L latest e b st r st'"
  by (simp add: poll_effect_def)

abbreviation loop_cursor :: "'s Loop \<Rightarrow> 's loop_state \<Rightarrow> u64" where
  "loop_cursor L st \<equiv> cursor_of (store (bpool st)) (loop_chainID L) (Name (strategy L))"

abbreviation head_read :: "'s Loop \<Rightarrow> 's loop_state \<Rightarrow> (goerror + u64) \<times> 's" where
  "head_read L st \<equiv> Do (wait_op L) (RetryOptions (loop_cfg L)) 0 (BlockNumber L) (node st)"

abbreviation confs :: "'s Loop \<Rightarrow> u64" where
  "confs L \<equiv> to_u64 (MinConfirmations (loop_cfg L))"

lemma pollOnce_cases:
  assumes "pollOnce L st = Some (r, st')" and "head_read L st = (Inr latest, s1)"
  shows "same_tables (store (bpool st)) (store (bpool st'))
    \<or> confs L \<le> latest \<and> loop_cursor L st = 0 \<and>
       store (bpool st') = saved (clock (bpool st)) (loop_chainID L) (Name (strategy L)) (latest - confs L) [] (store (bpool st))
    \<or> confs L \<le> latest \<and> loop_cursor L st \<noteq> 0 \<and> loop_cursor L st + 1 \<le> latest - confs L \<and>
       (\<exists>st2. store (bpool st2) = store (bpool st) \<and> clock (bpool st2) = clock (bpool st) \<and>
         poll_blocks L latest (end_block L (latest - confs L) (loop_cursor L st + 1)) (loop_cursor L st + 1) st2 = Some (r, st'))"
proof (cases "confs L \<le> latest")
  case False
  with assms show ?thesis by (auto simp: pollOnce_def Let_def)
next
  case conf: True
  obtain cr p1 where c: "Cursor (loop_chainID L) (Name (strategy L)) (bpool st) = (cr, p1)" by fastforce
  note cc = Cursor_cases [OF c]
  show ?thesis
  proof (cases cr)
    case (Inl e)
    with assms conf c cc show ?thesis by (auto simp: pollOnce_def Let_def)
  next
    case (Inr cur)
    then have cur: "cur = loop_cursor L st" using cc by simp
    show ?thesis
    proof (cases "cur = 0")
      case True
      obtain e p2 where sv: "SaveAndAdvance (loop_chainID L) (Name (strategy L)) (latest - confs L) [] p1 = (e, p2)" by fastforce
      have "bpool st' = p2"
        using assms conf c Inr True sv by (cases e) (auto simp: pollOnce_def Let_def)
      then show ?thesis
        using SaveAndAdvance_cases [OF sv] cc cur True conf by auto
    next
      case False
      define st2 where "st2 = st\<lparr>node := s1, lmet := lmet st\<lparr>ScannerLatestBlock := latest\<rparr>, bpool := p1\<rparr>"
      have st2: "store (bpool st2) = store (bpool st)" "clock (bpool st2) = clock (bpool st)"
        using cc by (simp_all add: st2_def)
      show ?thesis
      proof (cases "cur + 1 > latest - confs L")
        case True
        with assms conf c Inr False cc show ?thesis by (auto simp: pollOnce_def Let_def)
      next
        case go: False
        then have "poll_blocks L latest (end_block L (latest - confs L) (cur + 1)) (cur + 1) st2 = Some (r, st')"
          using assms conf c Inr False by (simp add: pollOnce_def Let_def st2_def)
        then show ?thesis
          using conf cur False go st2 by auto
      qed
    qed
  qed
qed

lemma u64_less_next: "(c::u64) \<noteq> - 1 \<Longrightarrow> c < b \<longleftrightarrow> c + 1 \<le> b"
  using unat_Suc_u64 [of c] by (simp add: word_le_nat_alt word_less_nat_alt Suc_le_eq)

text \<open>The effect of the loop over the blocks on cursor and buffer.\<close>

definition cursor_advances :: "'s Loop \<Rightarrow> u64 \<Rightarrow> 's loop_state \<Rightarrow> 's loop_state \<Rightarrow> bool" where
  "cursor_advances L latest st st' \<longleftrightarrow>
    loop_cursor L st < loop_cursor L st' \<and> buffer_keys (store (bpool st)) \<subseteq> buffer_keys (store (bpool st'))
    \<and> (\<forall>b. loop_cursor L st < b \<and> b \<le> loop_cursor L st' \<longrightarrow>
         (\<exists>ds. scan_result L latest b ds \<and> deposit_key ` set ds \<subseteq> buffer_keys (store (bpool st'))))"

lemma poll_effect_advances:
  assumes "poll_effect L latest e (loop_cursor L st + 1) st r st'" and "e \<noteq> - 1" and "loop_cursor L st \<noteq> - 1"
  shows "same_tables (store (bpool st)) (store (bpool st'))
    \<or> loop_cursor L st + 1 \<le> e \<and> loop_cursor L st' \<le> e \<and> cursor_advances L latest st st'"
proof -
  let ?c = "loop_cursor L st"
  obtain tr where tr: "trace_ok L latest e (?c + 1) tr"
    and same: "same_tables (apply_blocks (clock (bpool st)) (loop_chainID L) (Name (strategy L)) tr (store (bpool st))) (store (bpool st'))"
    using assms(1) by (auto simp: poll_effect_def)
  show ?thesis
  proof (cases "tr = []")
    case True
    with same show ?thesis by simp
  next
    case False
    have le: "?c + 1 \<le> e"
      using trace_nth [OF tr, of 0] tr False by (cases tr) (auto simp: trace_ok_def)
    note cov = trace_covers [OF tr assms(2) le False]
    have cur: "loop_cursor L st' = fst (last tr)"
      using same_tables_cursor [OF same] cursor_apply [of _ _ _ tr] False by simp
    have keys: "buffer_keys (store (bpool st')) = buffer_keys (store (bpool st)) \<union> (\<Union>(b, ds) \<in> set tr. deposit_key ` set ds)"
      using same_tables_keys [OF same] buffer_keys_apply by simp
    have "\<exists>ds. scan_result L latest b ds \<and> deposit_key ` set ds \<subseteq> buffer_keys (store (bpool st'))"
      if b: "?c < b" "b \<le> loop_cursor L st'" for b
    proof -
      obtain ds where ds: "(b, ds) \<in> set tr"
        using cov(4) [of b] b cur u64_less_next [OF assms(3)] by auto
      then have "scan_result L latest b ds" using tr by (auto simp: trace_ok_def)
      moreover have "deposit_key ` set ds \<subseteq> buffer_keys (store (bpool st'))" using ds keys by auto
      ultimately show ?thesis by blast
    qed
    then show ?thesis
      using cov(2,3) cur keys le u64_less_next [OF assms(3)] by (auto simp: cursor_advances_def)
  qed
qed

text \<open>The loop over the blocks ends, unless its last block is the largest \<^verbatim>\<open>uint64\<close>.\<close>

lemma poll_blocks_returns:
  assumes "e \<noteq> - 1"
  shows "\<exists>r st'. poll_blocks L latest e b st = Some (r, st')"
proof (induction "Suc (unat e) - unat b" arbitrary: b st rule: less_induct)
  case less
  show ?case
  proof (cases "b \<le> e")
    case False
    then show ?thesis by (simp add: poll_blocks.simps)
  next
    case True
    then have "b \<noteq> - 1" using assms by (metis word_order.extremum_uniqueI)
    then have "Suc (unat e) - unat (b + 1) < Suc (unat e) - unat b"
      using True unat_Suc_u64 [of b] by (simp add: word_le_nat_alt)
    from less [OF this] have ih: "\<exists>r st'. poll_blocks L latest e (b + 1) st1 = Some (r, st')" for st1 .
    obtain r1 st1 where "poll_block L latest e b st = (r1, st1)" by fastforce
    then show ?thesis using ih [of st1] True by (cases r1) (simp_all add: poll_blocks.simps)
  qed
qed

lemma end_block_not_max:
  assumes "(latest::u64) \<noteq> - 1" and "c \<le> latest"
  shows "end_block L (latest - c) b \<noteq> - 1"
proof -
  have "end_block L (latest - c) b \<le> latest"
    using end_block_le word_sub_le [OF assms(2)] by (rule order_trans)
  then show ?thesis using assms(1) by (metis word_order.extremum_uniqueI)
qed

lemma pollOnce_some:
  assumes "fst (head_read L st) \<noteq> Inr (- 1)"
  shows "\<exists>r st'. pollOnce L st = Some (r, st')"
  using assms
  by (auto simp: pollOnce_def Let_def end_block_not_max intro!: poll_blocks_returns
      split: prod.splits sum.splits option.splits if_splits)

text \<open>A node, a strategy and timers that answer: every block scans and converts, and no wait is cut short.\<close>

definition quiet :: "'s Loop \<Rightarrow> bool" where
  "quiet L \<longleftrightarrow> (\<forall>s d. fst (wait_op L s d) = None) \<and>
    (\<forall>b k s. \<exists>events s' ds. ScanBlock (strategy L) b k s = (Inr events, s')
       \<and> convertEvents (now_op L s') events (MinConfirmations (loop_cfg L)) = Some ds
       \<and> list_all (in_i32 \<circ> LogIndex) ds)"

lemma poll_block_quiet:
  assumes "quiet L" and "outcomes (bpool st) = []"
  shows "\<exists>st1. poll_block L latest e b st = (None, st1) \<and> outcomes (bpool st1) = []"
proof -
  obtain events s' ds where "ScanBlock (strategy L) b (to_i64 (latest - b)) (node st) = (Inr events, s')"
      "convertEvents (now_op L s') events (MinConfirmations (loop_cfg L)) = Some ds" "list_all (in_i32 \<circ> LogIndex) ds"
    using assms(1) unfolding quiet_def by meson
  moreover obtain s'' where "wait_op L s' (wrap64 (BlockDelayMs (loop_cfg L) * Millisecond)) = (None, s'')"
    using assms(1) by (metis quiet_def prod.collapse)
  ultimately show ?thesis
    using SaveAndAdvance_served [OF assms(2), of ds] by (auto simp: poll_block_def Let_def assms(2))
qed

lemma poll_blocks_quiet:
  assumes "quiet L" and "outcomes (bpool st) = []" and "poll_blocks L latest e b st = Some (r, st')"
  shows "r = Done None \<and> outcomes (bpool st') = []"
  using assms(3,1,2)
proof (induction L latest e b st "(r, st')" arbitrary: r st' rule: poll_blocks.raw_induct [rotated, consumes 1, case_names step])
  case (step f L latest e b st r st')
  obtain st1 where "poll_block L latest e b st = (None, st1)" "outcomes (bpool st1) = []"
    using poll_block_quiet [OF step(3,4)] by blast
  with step show ?case by (cases "b \<le> e") auto
qed

lemma poll_effect_done:
  assumes "poll_effect L latest e b st (Done None) st'" and "e \<noteq> - 1" and "b \<le> e"
  shows "loop_cursor L st' = e"
proof -
  obtain tr where tr: "trace_ok L latest e b tr" and all: "\<forall>x. b \<le> x \<and> x \<le> e \<longrightarrow> x \<in> fst ` set tr"
    and same: "same_tables (apply_blocks (clock (bpool st)) (loop_chainID L) (Name (strategy L)) tr (store (bpool st))) (store (bpool st'))"
    using assms(1) by (auto simp: poll_effect_def)
  have "e \<in> fst ` set tr" using all assms(3) by simp
  then obtain i where i: "i < length tr" "fst (tr ! i) = e"
    by (auto simp: in_set_conv_nth)
  then have ne: "tr \<noteq> []" by auto
  note cov = trace_covers [OF tr assms(2,3) ne]
  have "unat b + length tr \<le> Suc (unat e)" by (rule trace_length [OF tr assms(2,3)])
  then have "unat e = unat b + i"
    using trace_nth [OF tr i(1)] i unat_add_offset [of b i] unat_u64_not_max [OF assms(2)] by simp
  then have "unat e \<le> unat (fst (last tr))" using cov(1) i(1) by simp
  then have "fst (last tr) = e" using cov(3) by (simp add: word_le_nat_alt word_unat_eq_iff)
  then show ?thesis
    using same_tables_cursor [OF same] cursor_apply [of _ _ _ tr] ne by simp
qed

lemma end_block_exact:
  assumes "1 \<le> MaxBlocksPerPoll (loop_cfg L)" and "int (unat c) + MaxBlocksPerPoll (loop_cfg L) < 2 ^ 63"
  shows "int (unat (end_block L m (c + 1))) = min (int (unat m)) (int (unat c) + MaxBlocksPerPoll (loop_cfg L))"
proof -
  define n where "n = nat (MaxBlocksPerPoll (loop_cfg L))"
  have n: "to_u64 (MaxBlocksPerPoll (loop_cfg L)) = of_nat n" "int n = MaxBlocksPerPoll (loop_cfg L)"
    using assms(1) by (simp_all add: n_def to_u64_def)
  have "int (unat c + n) < 2 ^ 63" using assms(2) n(2) by (simp only: of_nat_add)
  then have "int (unat c + n) < 2 ^ 64" by (rule less_trans) simp
  then have "unat c + n < 2 ^ 64"
    by (simp only: of_nat_less_iff [where 'a = int, symmetric] of_nat_power of_nat_numeral)
  then have d: "int (unat (c + of_nat n)) = int (unat c) + MaxBlocksPerPoll (loop_cfg L)"
    using unat_add_offset [of c n] n(2) by linarith
  have "end_block L m (c + 1) = (if m < c + of_nat n then m else c + of_nat n)"
    by (simp add: end_block_def n(1) algebra_simps)
  then show ?thesis
    unfolding d [symmetric] word_less_nat_alt by (simp only: min_def split: if_split) linarith
qed

section \<open>Conversion keeps the ranges\<close>

lemma ToDeposit_wf:
  "ToDeposit now e m = Converted d \<Longrightarrow> typed_event e \<Longrightarrow> wf_deposit d"
  by (auto simp: ToDeposit_def typed_event_def wf_deposit_def Let_def split: option.splits)

lemma convert_from_wf:
  "convert_from now m i es = Some ds \<Longrightarrow> list_all typed_event es \<Longrightarrow> list_all wf_deposit ds"
  by (induction es arbitrary: i ds) (auto split: to_result.splits intro: ToDeposit_wf)

section \<open>A poll as a sequence of saves\<close>

text \<open>All a poll does to the database: saves of well-formed deposits, and reads that may fail.\<close>

definition pool_step :: "pool \<Rightarrow> pool \<Rightarrow> bool" where
  "pool_step p p' \<longleftrightarrow> (\<exists>c n b ds r. list_all wf_deposit ds \<and> SaveAndAdvance c n b ds p = (r, p'))
     \<or> (\<exists>os t. p' = p\<lparr>outcomes := os, clock := t\<rparr>)"

lemma pool_step_frame: "store p' = store p \<Longrightarrow> pool_step p p'"
  unfolding pool_step_def by (intro disjI2 exI [of _ "outcomes p'"] exI [of _ "clock p'"]) (cases p; cases p'; simp)

context typed_scanner
begin

lemma poll_block_step:
  assumes "poll_block L latest e b st = (r, st')" and "strategy L = S"
  shows "pool_step (bpool st) (bpool st')"
proof (cases "store (bpool st') = store (bpool st)")
  case True
  then show ?thesis by (rule pool_step_frame)
next
  case False
  obtain events s1 where scan: "ScanBlock S b (to_i64 (latest - b)) (node st) = (Inr events, s1)"
    using assms False by (auto simp: poll_block_def split: prod.splits sum.splits)
  then obtain ds where ds: "convertEvents (now_op L s1) events (MinConfirmations (loop_cfg L)) = Some ds"
    using assms False by (auto simp: poll_block_def split: option.splits)
  obtain x p1 where sv: "SaveAndAdvance (loop_chainID L) (Name S) b ds (bpool st) = (x, p1)" by fastforce
  have "bpool st' = p1"
    using assms scan ds sv by (auto simp: poll_block_def Let_def split: option.splits prod.splits if_splits)
  moreover have "list_all wf_deposit ds"
    using ds events_typed [OF scan] by (auto simp: convertEvents_def intro: convert_from_wf)
  ultimately show ?thesis using sv unfolding pool_step_def by blast
qed

lemma poll_blocks_steps:
  assumes "poll_blocks L latest e b st = Some (r, st')" and "strategy L = S"
  shows "pool_step\<^sup>*\<^sup>* (bpool st) (bpool st')"
  using assms
proof (induction L latest e b st "(r, st')" arbitrary: r st' rule: poll_blocks.raw_induct [rotated, consumes 1, case_names step])
  case (step f L latest e b st r st')
  obtain r1 st1 where b1: "poll_block L latest e b st = (r1, st1)" by fastforce
  note s1 = poll_block_step [OF b1 step(3)]
  show ?case
  proof (cases "b \<le> e")
    case False
    with step(2) show ?thesis by simp
  next
    case True
    with step(1,2,3) b1 s1 show ?thesis
      by (cases r1) (auto intro: converse_rtranclp_into_rtranclp)
  qed
qed

lemma pollOnce_steps:
  assumes "pollOnce L st = Some (r, st')" and "strategy L = S"
  shows "pool_step\<^sup>*\<^sup>* (bpool st) (bpool st')"
proof -
  obtain h s1 where h: "head_read L st = (h, s1)" by fastforce
  obtain cr p1 where c: "Cursor (loop_chainID L) (Name (strategy L)) (bpool st) = (cr, p1)" by fastforce
  have p1: "pool_step (bpool st) p1" using Cursor_cases [OF c] by (intro pool_step_frame) simp
  show ?thesis
  proof (cases h)
    case (Inl e)
    with assms h show ?thesis by (auto simp: pollOnce_def)
  next
    case latest: (Inr latest)
    show ?thesis
    proof (cases cr)
      case (Inl e)
      with assms h latest c p1 show ?thesis by (auto simp: pollOnce_def Let_def split: if_splits)
    next
      case (Inr cur)
      obtain x p2 where sv: "SaveAndAdvance (loop_chainID L) (Name (strategy L)) (latest - confs L) [] p1 = (x, p2)" by fastforce
      then have p2: "pool_step p1 p2" unfolding pool_step_def by fastforce
      define st2 where "st2 = st\<lparr>node := s1, lmet := lmet st\<lparr>ScannerLatestBlock := latest\<rparr>, bpool := p1\<rparr>"
      from assms(1) h latest c Inr sv consider "bpool st' = bpool st" | "bpool st' = p1" | "bpool st' = p2"
        | "poll_blocks L latest (end_block L (latest - confs L) (cur + 1)) (cur + 1) st2 = Some (r, st')"
        unfolding pollOnce_def st2_def by (auto simp: Let_def split: if_splits option.splits)
      then show ?thesis
      proof cases
        case 4
        from poll_blocks_steps [OF this assms(2)] p1 show ?thesis
          by (simp add: st2_def converse_rtranclp_into_rtranclp)
      qed (use p1 p2 in \<open>auto intro: converse_rtranclp_into_rtranclp\<close>)
    qed
  qed
qed

end

lemma pollOnce_quiet:
  assumes "quiet L" and "outcomes (bpool st) = []" and "head_read L st = (Inr latest, s1)"
    and "latest \<noteq> - 1" and "confs L \<le> latest"
    and "loop_cursor L st \<noteq> 0" and "loop_cursor L st < latest - confs L"
    and "1 \<le> MaxBlocksPerPoll (loop_cfg L)" and "int (unat (loop_cursor L st)) + MaxBlocksPerPoll (loop_cfg L) < 2 ^ 63"
  shows "\<exists>st'. pollOnce L st = Some (Done None, st') \<and> outcomes (bpool st') = [] \<and> cursor_advances L latest st st' \<and>
    int (unat (loop_cursor L st')) = min (int (unat (latest - confs L))) (int (unat (loop_cursor L st)) + MaxBlocksPerPoll (loop_cfg L))"
proof -
  let ?c = "loop_cursor L st" and ?m = "latest - confs L"
  let ?e = "end_block L ?m (?c + 1)"
  define st2 where "st2 = st\<lparr>node := s1, lmet := lmet st\<lparr>ScannerLatestBlock := latest\<rparr>\<rparr>"
  have c1: "?c \<noteq> - 1" using assms(7) by (metis word_order.extremum_strict)
  then have start: "?c + 1 \<le> ?m" using assms(7) u64_less_next by blast
  have "pollOnce L st = poll_blocks L latest ?e (?c + 1) st2"
    using assms(2,3,5,6) leD [OF start] Cursor_served [OF assms(2)] by (simp add: pollOnce_def Let_def st2_def)
  moreover obtain r st' where run: "poll_blocks L latest ?e (?c + 1) st2 = Some (r, st')"
    using poll_blocks_returns [OF end_block_not_max [OF assms(4,5)]] by blast
  moreover have r: "r = Done None" "outcomes (bpool st') = []"
    using poll_blocks_quiet [OF assms(1) _ run] assms(2) by (simp_all add: st2_def)
  moreover have e: "int (unat ?e) = min (int (unat ?m)) (int (unat ?c) + MaxBlocksPerPoll (loop_cfg L))"
    using assms(8,9) by (rule end_block_exact)
  moreover have "?c + 1 \<le> ?e"
    using e start assms(8) unat_Suc_u64 [OF c1] unfolding word_le_nat_alt by linarith
  then have end': "loop_cursor L st' = ?e"
    by (intro poll_effect_done [OF poll_blocks_effect [OF run [unfolded r(1)]]] end_block_not_max [OF assms(4,5)])
  moreover have "poll_effect L latest ?e (?c + 1) st r st'"
    by (rule poll_effect_cong [OF poll_blocks_effect [OF run]]) (simp_all add: st2_def)
  from poll_effect_advances [OF this end_block_not_max [OF assms(4,5)] c1] have "cursor_advances L latest st st'"
  proof (elim disjE conjE)
    assume "same_tables (store (bpool st)) (store (bpool st'))"
    then have "?e = ?c" by (simp add: same_tables_cursor end' [symmetric])
    with \<open>?c + 1 \<le> ?e\<close> u64_less_next [OF c1, of ?c] show ?thesis by simp
  qed
  ultimately show ?thesis by simp
qed

lemma pool_step_inv: "pool_step p p' \<Longrightarrow> db_inv (store p) \<Longrightarrow> db_inv (store p')"
  unfolding pool_step_def
proof (elim disjE exE conjE)
  fix c n b ds r assume "db_inv (store p)" "list_all wf_deposit ds" "SaveAndAdvance c n b ds p = (r, p')"
  then show "db_inv (store p')" using SaveAndAdvance_cases db_inv_saved db_inv_same_tables by metis
qed simp

lemma pool_steps_inv: "pool_step\<^sup>*\<^sup>* p p' \<Longrightarrow> db_inv (store p) \<Longrightarrow> db_inv (store p')"
  by (induction rule: rtranclp_induct) (auto intro: pool_step_inv)

section \<open>A block that no scan gets through\<close>

lemma cursor_stays_below:
  assumes "\<forall>k s. \<exists>e s'. ScanBlock (strategy L) b k s = (Inl e, s')"
    and "pollOnce L st = Some (r, st')" and "head_read L st = (h, s1)" and "h \<noteq> Inr (- 1)"
    and "loop_cursor L st \<noteq> 0" and "loop_cursor L st < b"
  shows "loop_cursor L st' \<noteq> 0 \<and> loop_cursor L st' < b"
proof (cases h)
  case (Inl e)
  with assms show ?thesis by (auto simp: pollOnce_def)
next
  case (Inr latest)
  let ?c = "loop_cursor L st" and ?m = "latest - confs L"
  let ?e = "end_block L ?m (?c + 1)"
  have c: "?c \<noteq> - 1" using assms(6) by (metis word_n1_ge leD)
  have no: "\<not> scan_result L latest b ds" for ds
    using assms(1) unfolding scan_result_def by (metis Inl_Inr_False fst_conv)
  from pollOnce_cases [OF assms(2)] assms(3,5) Inr poll_effect_cong [OF poll_blocks_effect]
  consider "same_tables (store (bpool st)) (store (bpool st'))"
    | "confs L \<le> latest" "poll_effect L latest ?e (?c + 1) st r st'" by metis
  then consider "same_tables (store (bpool st)) (store (bpool st'))" | "cursor_advances L latest st st'"
  proof cases
    case 2
    have "?e \<noteq> - 1" using assms(4) Inr 2(1) by (intro end_block_not_max) simp_all
    from poll_effect_advances [OF 2(2) this c] that show ?thesis by blast
  qed
  then show ?thesis
  proof cases
    case 1
    with assms(5,6) show ?thesis by (simp add: same_tables_cursor)
  next
    case 2
    then have "?c < loop_cursor L st'" and "\<not> b \<le> loop_cursor L st'"
      using assms(6) no unfolding cursor_advances_def by blast+
    then show ?thesis by auto
  qed
qed

section \<open>Properties\<close>

text \<open>
  C3. No block is missed and none is taken too early. Whatever the node, the strategy and the database do, after a
  poll that saw the head \<open>latest\<close> either the cursor and the buffer are as before; or the loop had no cursor and starts at the
  confirmed head with the buffer unchanged; or the cursor moved forward, by at most \<^verbatim>\<open>MaxBlocksPerPoll\<close>, not beyond
  \<^verbatim>\<open>latest - MinConfirmations\<close>, and for every block it passed \<^verbatim>\<open>ScanBlock\<close> succeeded and all deposits of that block are
  in the buffer. Rows that were in the buffer stay.
\<close>

theorem pollOnce_misses_no_block:
  assumes "pollOnce L st = Some (r, st')" and "head_read L st = (Inr latest, s1)"
    and "latest \<noteq> - 1" and "loop_cursor L st \<noteq> - 1"
    and "0 \<le> MaxBlocksPerPoll (loop_cfg L)" and "MaxBlocksPerPoll (loop_cfg L) < 2 ^ 63"
  shows "loop_cursor L st' = loop_cursor L st \<and> buffer_keys (store (bpool st')) = buffer_keys (store (bpool st))
    \<or> loop_cursor L st = 0 \<and> confs L \<le> latest \<and> loop_cursor L st' = latest - confs L
        \<and> buffer_keys (store (bpool st')) = buffer_keys (store (bpool st))
    \<or> cursor_advances L latest st st' \<and> confs L \<le> latest \<and> loop_cursor L st' \<le> latest - confs L
        \<and> int (unat (loop_cursor L st')) \<le> int (unat (loop_cursor L st)) + MaxBlocksPerPoll (loop_cfg L)"
proof -
  let ?s = "store (bpool st)" and ?s' = "store (bpool st')" and ?c = "loop_cursor L st" and ?m = "latest - confs L"
  consider "same_tables ?s ?s'"
    | "confs L \<le> latest" "?c = 0" "?s' = saved (clock (bpool st)) (loop_chainID L) (Name (strategy L)) ?m [] ?s"
    | "confs L \<le> latest" "poll_effect L latest (end_block L ?m (?c + 1)) (?c + 1) st r st'"
    using pollOnce_cases [OF assms(1,2)] poll_effect_cong [OF poll_blocks_effect] by metis
  then show ?thesis
  proof cases
    case 1
    then show ?thesis by (simp add: same_tables_cursor same_tables_keys)
  next
    case 2
    then show ?thesis by simp
  next
    case 3
    let ?e = "end_block L ?m (?c + 1)"
    have "?e \<noteq> - 1" using assms(3) 3(1) by (rule end_block_not_max)
    from poll_effect_advances [OF 3(2) this assms(4)] consider "same_tables ?s ?s'"
      | "?c + 1 \<le> ?e" "loop_cursor L st' \<le> ?e" "cursor_advances L latest st st'" by blast
    then show ?thesis
    proof cases
      case 1
      then show ?thesis by (simp add: same_tables_cursor same_tables_keys)
    next
      case 2
      have "?c + 1 \<noteq> 0" using assms(4) by (metis add_eq_0_iff2)
      from end_block_bound [OF assms(5,6) 2(1) this] 2(2) unat_Suc_u64 [OF assms(4)]
      have "int (unat (loop_cursor L st')) \<le> int (unat ?c) + MaxBlocksPerPoll (loop_cfg L)"
        unfolding word_le_nat_alt by linarith
      with 2 3(1) end_block_le [of L ?m "?c + 1"] show ?thesis by auto
    qed
  qed
qed

text \<open>A node at a given head whose blocks hold no deposits, with a cursor at block 5.\<close>

definition sample_loop :: "u64 Loop" where
  "sample_loop = \<lparr>loop_chainID = 1, BlockNumber = (\<lambda>s. (Inr s, s)),
     strategy = \<lparr>Name = ''log'', ScanBlock = (\<lambda>b k s. (Inr [], s))\<rparr>,
     loop_cfg = \<lparr>MinConfirmations = 2, MaxBlocksPerPoll = 4, BlockDelayMs = 0, PollingIntervalMs = 1000,
       RetryOptions = \<lparr>MaxRetries = 3, BaseDelay = 1000\<rparr>\<rparr>,
     wait_op = (\<lambda>s d. (None, s)), now_op = (\<lambda>s i. \<lparr>Unix = 0, Nanosecond = 0\<rparr>)\<rparr>"

definition at_block_5 :: "u64 \<Rightarrow> u64 loop_state" where
  "at_block_5 head = \<lparr>node = head, bpool = \<lparr>store = saved 0 1 ''log'' 5 [] empty_db, outcomes = [], clock = 1\<rparr>,
     lmet = \<lparr>ScannerErrors = 0, ScannerLatestBlock = 0, ScannerCursorBlock = 0, ScannerLagBlocks = 0,
       ScannerBlocksProcessed = 0, ScannerDepositsFound = 0\<rparr>\<rparr>"

lemma sample_loop_sel [simp]:
  "loop_chainID sample_loop = 1" "Name (strategy sample_loop) = ''log''" "confs sample_loop = 2"
  "MaxBlocksPerPoll (loop_cfg sample_loop) = 4" "node (at_block_5 h) = h" "outcomes (bpool (at_block_5 h)) = []"
  "cursor_of (store (bpool (at_block_5 h))) 1 ''log'' = 5"
  by (simp_all add: sample_loop_def at_block_5_def to_u64_def)

lemma sample_head [simp]:
  "Do (wait_op sample_loop) (RetryOptions (loop_cfg sample_loop)) 0 (BlockNumber sample_loop) h = (Inr h, h)"
  by (rule Do_first_attempt) (simp_all add: sample_loop_def)

theorem pollOnce_misses_no_block_witness:
  "\<exists>r st'. pollOnce sample_loop (at_block_5 12) = Some (r, st') \<and>
    (cursor_of (store (bpool st')) 1 ''log'' = 5 \<or> cursor_advances sample_loop 12 (at_block_5 12) st')"
proof -
  obtain r st' where p: "pollOnce sample_loop (at_block_5 12) = Some (r, st')"
    using pollOnce_some [of sample_loop "at_block_5 12"] by auto
  have "head_read sample_loop (at_block_5 12) = (Inr 12, 12)" by simp
  from pollOnce_misses_no_block [OF p this] p show ?thesis by auto
qed

text \<open>
  C15. A poll always comes back: for every behaviour of node, strategy and database that reports a head other than the
  largest \<^verbatim>\<open>uint64\<close> (or fails to report one), \<^verbatim>\<open>pollOnce\<close> returns.
\<close>

theorem pollOnce_returns:
  assumes "fst (head_read L st) \<noteq> Inr (- 1)"
  shows "\<exists>r st'. pollOnce L st = Some (r, st')"
  using assms by (rule pollOnce_some)

theorem pollOnce_returns_witness: "\<exists>r st'. pollOnce sample_loop (at_block_5 12) = Some (r, st')"
  by (rule pollOnce_returns) simp

text \<open>
  A scanner catches up: when node, strategy, timers and database answer and the stored cursor is behind the
  confirmed head, a poll returns without an error and the cursor has moved by \<^verbatim>\<open>MaxBlocksPerPoll\<close> blocks or up to the
  confirmed head, whichever comes first.
\<close>

theorem pollOnce_catches_up:
  assumes "quiet L" and "outcomes (bpool st) = []" and "head_read L st = (Inr latest, s1)"
    and "latest \<noteq> - 1" and "confs L \<le> latest"
    and "loop_cursor L st \<noteq> 0" and "loop_cursor L st < latest - confs L"
    and "1 \<le> MaxBlocksPerPoll (loop_cfg L)" and "int (unat (loop_cursor L st)) + MaxBlocksPerPoll (loop_cfg L) < 2 ^ 63"
  shows "\<exists>st'. pollOnce L st = Some (Done None, st') \<and>
    int (unat (loop_cursor L st')) = min (int (unat (latest - confs L))) (int (unat (loop_cursor L st)) + MaxBlocksPerPoll (loop_cfg L))"
  using pollOnce_quiet [OF assms] by blast

lemma quiet_sample [simp]: "quiet sample_loop"
  by (simp add: quiet_def sample_loop_def convertEvents_def)

theorem pollOnce_catches_up_witness:
  "\<exists>st'. pollOnce sample_loop (at_block_5 12) = Some (Done None, st') \<and> uint (cursor_of (store (bpool st')) 1 ''log'') = 9"
  using pollOnce_catches_up [of sample_loop "at_block_5 12" 12 12] by simp

text \<open>
  The first poll of a chain starts at the confirmed head. The stored cursor 0 counts as no cursor: also when the
  table holds a row that says block 0 was the last one scanned, the next poll jumps to the confirmed head without
  scanning the blocks in between.
\<close>

theorem cursor_zero_restarts:
  assumes "outcomes (bpool st) = []" and "head_read L st = (Inr latest, s1)" and "confs L \<le> latest"
    and "scan_cursor (store (bpool st)) (loop_chainID L, Name (strategy L)) \<in> {None, Some \<lparr>last_block = 0, updated_at = t\<rparr>}"
  shows "\<exists>st'. pollOnce L st = Some (Done None, st') \<and> loop_cursor L st' = latest - confs L
    \<and> deposit_buffer (store (bpool st')) = deposit_buffer (store (bpool st)) \<and> node st' = s1"
proof -
  have "loop_cursor L st = 0" using assms(4) by (auto simp: cursor_of_def to_u64_def)
  moreover have "deposit_buffer (saved now c n b [] s) = deposit_buffer s" for now c n b s
    by (simp add: deposit_buffer_saved)
  ultimately show ?thesis
    using assms(1-3) Cursor_served [OF assms(1)] SaveAndAdvance_served [OF assms(1), of "[]"]
    by (simp add: pollOnce_def Let_def)
qed

theorem cursor_zero_restarts_witness:
  "\<exists>st'. pollOnce sample_loop (at_block_5 12\<lparr>bpool := \<lparr>store = saved 0 1 ''log'' 0 [] empty_db, outcomes = [], clock = 1\<rparr>\<rparr>)
     = Some (Done None, st') \<and> cursor_of (store (bpool st')) 1 ''log'' = 10"
  using cursor_zero_restarts [of "at_block_5 12\<lparr>bpool := \<lparr>store = saved 0 1 ''log'' 0 [] empty_db, outcomes = [], clock = 1\<rparr>\<rparr>"
      sample_loop 12 12 0]
  by (simp add: scan_cursor_saved to_i64_def) blast

text \<open>
  Errors of a poll never end a scanner: \<^verbatim>\<open>Run\<close> returns only the error of an ended context; every other end is a panic, of a
  poll or of the ticker for an interval that is not positive.
\<close>

theorem Loop_Run_ends:
  assumes "Loop_Run L ts st = Some (end', st')"
  shows "case end' of Running \<Rightarrow> True | Returned e \<Rightarrow> CtxEnds e \<in> set ts
    | Crashed \<Rightarrow> (\<exists>st1. pollOnce L st1 = Some (Panicked, st')) \<or> \<not> ticker_ok (wrap64 (PollingIntervalMs (loop_cfg L) * Millisecond))"
proof -
  have "case end' of Running \<Rightarrow> True | Returned e \<Rightarrow> CtxEnds e \<in> set ts
      | Crashed \<Rightarrow> (\<exists>st1. pollOnce L st1 = Some (Panicked, st'))" if "run_ticks L ts st = Some (end', st')" for ts st
    using that
    by (induction L ts st rule: run_ticks.induct) (auto split: option.splits prod.splits poll_end.splits run_end.splits)
  from this [of ts] show ?thesis
    using assms by (fastforce simp: Loop_Run_def split: run_end.splits option.splits poll_end.splits if_splits)
qed

theorem Loop_Run_ends_witness:
  "\<exists>st'. Loop_Run sample_loop [Tick (\<lambda>s. s), CtxEnds Canceled] (at_block_5 1) = Some (Returned Canceled, st')
     \<and> CtxEnds Canceled \<in> set [Tick (\<lambda>s. s), CtxEnds Canceled :: u64 tick]"
proof -
  have "pollOnce sample_loop st = Some (Done None, st\<lparr>lmet := lmet st\<lparr>ScannerLatestBlock := 1\<rparr>\<rparr>)" if "node st = 1" for st
  proof -
    have "\<not> (2::u64) \<le> 1" by (simp add: word_le_nat_alt)
    then show ?thesis using that by (simp add: pollOnce_def Let_def)
  qed
  then obtain st' where "Loop_Run sample_loop [Tick (\<lambda>s. s), CtxEnds Canceled] (at_block_5 1) = Some (Returned Canceled, st')"
    by (simp add: Loop_Run_def ticker_ok_def wrap64_id Millisecond_def) (simp add: sample_loop_def wrap64_id)
  from Loop_Run_ends [OF this] this show ?thesis by auto
qed

end
