(* ===== verification/System.thy ===== *)
theory System
  imports Delivery Loop
begin

text \<open>
  The parts together: scanners store blocks, the publisher sends what is stored over connections that
  come and go, the Adapter receives and acknowledges. One step is one \<^verbatim>\<open>SaveAndAdvance\<close> of some
  scanner, one event of the publisher's ACK-mode loop, a new connection, a message that reaches the
  Adapter, or a change of the database's fault schedule. The Adapter is not part of the repository:
  all that is assumed of it is that it acknowledges only messages it received.
\<close>

section \<open>Steps\<close>

record 'c sys =
  sys_pub :: "(pool, 'c) pub"   \<comment> \<open>the publisher and, as its buffer, the shared database\<close>
  received :: "json set"        \<comment> \<open>the messages the Adapter has received\<close>
  stored :: "dep_key set"       \<comment> \<open>every key that was ever in the buffer\<close>

definition sys_db :: "'c sys \<Rightarrow> db" where
  "sys_db x = store (buf (sys_pub x))"

definition msg_id :: "json \<Rightarrow> string option" where
  "msg_id j = (case unmarshal_envelope j of Inl e \<Rightarrow> None | Inr env \<Rightarrow> Some (env_ID env))"

inductive sys_step ::
  "PubConfig \<Rightarrow> (frame \<Rightarrow> 'c \<Rightarrow> goerror option \<times> 'c) \<Rightarrow> ('c \<Rightarrow> frame set) \<Rightarrow> 'c sys \<Rightarrow> 'c sys \<Rightarrow> bool"
  for cfg wr sent where
  step_save: "list_all wf_deposit ds \<Longrightarrow> SaveAndAdvance c n b ds (buf (sys_pub x)) = (r, p') \<Longrightarrow>
    sys_step cfg wr sent x (x\<lparr>sys_pub := (sys_pub x)\<lparr>buf := p'\<rparr>, stored := stored x \<union> buffer_keys (store p')\<rparr>)"
| step_publish: "drainACK_step buffer_repo wr cfg now ev (sys_pub x) = (r, pub') \<Longrightarrow>
    \<forall>mid \<in> acks_in ev. \<exists>j \<in> received x. msg_id j = Some mid \<Longrightarrow>
    sys_step cfg wr sent x (x\<lparr>sys_pub := pub'\<rparr>)"
| step_connect: "sent c' = {} \<Longrightarrow>
    sys_step cfg wr sent x (x\<lparr>sys_pub := (sys_pub x)\<lparr>conn := c', out := []\<rparr>\<rparr>)"
| step_receive: "TextMessage j \<in> sent (conn (sys_pub x)) \<Longrightarrow>
    sys_step cfg wr sent x (x\<lparr>received := insert j (received x)\<rparr>)"
| step_faults: "sys_step cfg wr sent x
    (x\<lparr>sys_pub := (sys_pub x)\<lparr>buf := (buf (sys_pub x))\<lparr>outcomes := os, clock := t\<rparr>\<rparr>\<rparr>)"

inductive_cases sys_stepE: "sys_step cfg wr sent x y"

text \<open>The socket carries nothing but what was written to it.\<close>

definition carries_only_written :: "(frame \<Rightarrow> 'c \<Rightarrow> goerror option \<times> 'c) \<Rightarrow> ('c \<Rightarrow> frame set) \<Rightarrow> bool" where
  "carries_only_written wr sent \<longleftrightarrow> (\<forall>f c. sent (snd (wr f c)) \<subseteq> insert f (sent c))"

section \<open>What is on the wire\<close>

definition encodings :: "json set" where
  "encodings = range (\<lambda>d. fst (encodeDeposit d))"

definition wire_ok :: "frame set \<Rightarrow> bool" where
  "wire_ok fs \<longleftrightarrow> (\<forall>j. TextMessage j \<in> fs \<longrightarrow> j \<in> encodings)"

lemma wire_ok_write:
  assumes "carries_only_written wr sent" and "wire_ok (sent c)" and "f = PingMessage \<or> (\<exists>j \<in> encodings. f = TextMessage j)"
  shows "wire_ok (sent (snd (wr f c)))"
  using assms unfolding carries_only_written_def wire_ok_def by blast

lemma topUp_loop_wire:
  assumes "topUp_loop wr now av ds st = (r, st')" and "carries_only_written wr sent" and "wire_ok (sent (conn st))"
  shows "wire_ok (sent (conn st'))"
  using assms(1,3)
proof (induction ds arbitrary: av st)
  case Nil
  then show ?case by simp
next
  case (Cons d ds)
  define j where "j = fst (encodeDeposit d)"
  have e: "encodeDeposit d = (j, key_id (deposit_key d))"
    by (metis encodeDeposit_id j_def prod.collapse)
  obtain w c' where w: "wr (TextMessage j) (conn st) = (w, c')" by fastforce
  have "wire_ok (sent c')"
    using wire_ok_write [OF assms(2) Cons.prems(2), of "TextMessage j"] w by (auto simp: j_def encodings_def)
  with Cons e w show ?case
    by (cases w) (auto split: if_splits)
qed

lemma topUp_wire:
  assumes "topUp buffer_repo wr cfg now st = (r, st')" and "carries_only_written wr sent" and "wire_ok (sent (conn st))"
  shows "wire_ok (sent (conn st'))"
  using assms topUp_loop_wire [OF _ assms(2)]
  by (fastforce simp: topUp_def Let_def split: if_splits prod.splits sum.splits option.splits)

lemma handleAck_conn: "conn (snd (handleAck B mid st)) = conn st"
  by (auto simp: handleAck_def Let_def split: prod.splits option.splits)

lemma gracefulACK_loop_conn: "conn (gracefulACK_loop B dl turns st) = conn st"
  by (induction turns arbitrary: st) (auto simp: handleAck_conn split: option.splits)

lemma drainACK_step_wire:
  assumes "drainACK_step buffer_repo wr cfg now ev st = (r, st')" and "carries_only_written wr sent" and "wire_ok (sent (conn st))"
  shows "wire_ok (sent (conn st'))"
proof (cases ev)
  case (CtxDone turns)
  with assms show ?thesis by (auto simp: drainACK_step_def gracefulACK_def gracefulACK_loop_conn)
next
  case PingTick
  have "wire_ok (sent (snd (wr PingMessage (conn st))))" using assms(2,3) by (rule wire_ok_write) simp
  with PingTick assms(1) show ?thesis
    by (auto simp: drainACK_step_def writePing_def split: prod.splits option.splits)
next
  case (AckIn mid)
  then have "topUp buffer_repo wr cfg now (snd (handleAck buffer_repo mid st)) = (r, st')"
    using assms(1) by (simp add: drainACK_step_def)
  from topUp_wire [OF this assms(2)] assms(3) show ?thesis by (simp add: handleAck_conn)
qed (use assms topUp_wire in \<open>auto simp: drainACK_step_def split: if_splits\<close>)

lemma unmarshal_encoded:
  "unmarshal_envelope (fst (encodeDeposit d)) =
    Inr \<lparr>env_Type = msgTypeDeposit, env_ID = key_id (deposit_key d), env_Payload = Some (marshal_deposit d)\<rparr>"
proof -
  have "key_id (deposit_key d) \<noteq> ''''" by (simp add: key_id_def deposit_key_def ackID_def)
  then show ?thesis
    using encodeDeposit_id [of d]
    by (simp add: encodeDeposit_def Let_def marshal_envelope_def unmarshal_envelope_def split: if_splits)
qed

lemma msg_id_encoded [simp]: "msg_id (fst (encodeDeposit d)) = Some (key_id (deposit_key d))"
  by (simp add: msg_id_def unmarshal_encoded)

section \<open>The invariant\<close>

definition delivered :: "json set \<Rightarrow> dep_key set" where
  "delivered R = {deposit_key d | d. fst (encodeDeposit d) \<in> R}"

definition sys_inv :: "PubConfig \<Rightarrow> ('c \<Rightarrow> frame set) \<Rightarrow> 'c sys \<Rightarrow> bool" where
  "sys_inv cfg sent x \<longleftrightarrow> db_inv (sys_db x)
     \<and> window_ok cfg (pending (sys_db x)) (out (sys_pub x))
     \<and> wire_ok (sent (conn (sys_pub x))) \<and> received x \<subseteq> encodings
     \<and> stored x \<subseteq> buffer_keys (sys_db x) \<union> delivered (received x)"

lemma pending_key_set: "db_inv s \<Longrightarrow> deposit_key ` set (pending s) = buffer_keys s"
  unfolding buffer_keys_def by (metis pending_keys list.set_map)

lemma window_ok_more: "window_ok cfg rs o1 \<Longrightarrow> deposit_key ` set rs \<subseteq> deposit_key ` set rs' \<Longrightarrow> window_ok cfg rs' o1"
  by (auto simp: window_ok_def)

text \<open>A row leaves the buffer only for an ACK, and the Adapter acknowledges what it received.\<close>

lemma publish_keeps:
  assumes "drainACK_step buffer_repo wr cfg now ev (sys_pub x) = (r, pub')" and "sys_inv cfg sent x"
    and "\<forall>mid \<in> acks_in ev. \<exists>j \<in> received x. msg_id j = Some mid"
  shows "buffer_keys (sys_db x) \<subseteq> buffer_keys (store (buf pub')) \<union> delivered (received x)"
proof
  fix k assume k: "k \<in> buffer_keys (sys_db x)"
  have inv: "db_inv (sys_db x)" "window_ok cfg (pending (sys_db x)) (out (sys_pub x))"
    and R: "received x \<subseteq> encodings"
    using assms(2) by (auto simp: sys_inv_def)
  from k obtain d where d: "d \<in> set (pending (sys_db x))" "deposit_key d = k"
    unfolding pending_key_set [OF inv(1), symmetric] by blast
  note f = repo_drainACK_step_frame [OF assms(1) inv [unfolded sys_db_def]]
  show "k \<in> buffer_keys (store (buf pub')) \<union> delivered (received x)"
  proof (cases "key_id k \<in> acks_in ev")
    case True
    then obtain d' where "fst (encodeDeposit d') \<in> received x" "key_id (deposit_key d') = key_id k"
      using assms(3) R unfolding encodings_def by fastforce
    then show ?thesis by (auto simp: delivered_def)
  next
    case False
    then have "d \<in> set (pending (store (buf pub')))"
      using f d removes_keeps by (fastforce simp: sys_db_def)
    then show ?thesis using f d(2) pending_key_set [of "store (buf pub')"] by blast
  qed
qed

lemma sys_step_inv:
  assumes "sys_step cfg wr sent x y" and "sys_inv cfg sent x" and "carries_only_written wr sent" and "0 < MaxInFlight cfg"
  shows "sys_inv cfg sent y"
  using assms(1)
proof (cases rule: sys_step.cases)
  case (step_save ds c n b r p')
  have keys: "buffer_keys (sys_db x) \<subseteq> buffer_keys (store p')" and inv: "db_inv (store p')"
    using SaveAndAdvance_cases [OF step_save(3)] step_save(2) assms(2) db_inv_saved db_inv_same_tables
    by (auto simp: sys_inv_def sys_db_def same_tables_keys)
  then have "window_ok cfg (pending (store p')) (out (sys_pub x))"
    using assms(2) pending_key_set window_ok_more by (metis sys_inv_def)
  with keys inv assms(2) show ?thesis by (auto simp: step_save(1) sys_inv_def sys_db_def)
next
  case (step_publish now ev r pub')
  have "db_inv (store (buf pub')) \<and> window_ok cfg (pending (store (buf pub'))) (out pub')"
    using repo_drainACK_step_frame [OF step_publish(2)] assms(2) by (auto simp: sys_inv_def sys_db_def)
  moreover have "wire_ok (sent (conn pub'))"
    using drainACK_step_wire [OF step_publish(2) assms(3)] assms(2) by (simp add: sys_inv_def)
  ultimately show ?thesis
    using publish_keeps [OF step_publish(2) assms(2) step_publish(3)] assms(2)
    by (auto simp: step_publish(1) sys_inv_def sys_db_def)
next
  case (step_connect c')
  with assms(2,4) show ?thesis
    by (auto simp: sys_inv_def sys_db_def window_ok_def out_len_def wire_ok_def)
next
  case (step_receive j)
  with assms(2) show ?thesis by (auto simp: sys_inv_def sys_db_def wire_ok_def delivered_def)
next
  case (step_faults os t)
  with assms(2) show ?thesis by (auto simp: sys_inv_def sys_db_def)
qed

definition sys_init :: "PubConfig \<Rightarrow> ('c \<Rightarrow> frame set) \<Rightarrow> 'c sys \<Rightarrow> bool" where
  "sys_init cfg sent x \<longleftrightarrow> db_inv (sys_db x) \<and> out (sys_pub x) = [] \<and> sent (conn (sys_pub x)) = {}
     \<and> received x = {} \<and> stored x = buffer_keys (sys_db x)"

lemma sys_reach_inv:
  assumes "(sys_step cfg wr sent)\<^sup>*\<^sup>* x y" and "sys_init cfg sent x" and "carries_only_written wr sent" and "0 < MaxInFlight cfg"
  shows "sys_inv cfg sent y"
  using assms(1)
proof (induction rule: rtranclp_induct)
  case base
  show ?case using assms(2,4) by (auto simp: sys_init_def sys_inv_def window_ok_def out_len_def wire_ok_def)
next
  case (step y z)
  then show ?case using sys_step_inv assms(3,4) by blast
qed

text \<open>What a poll does to the database is a sequence of steps.\<close>

lemma pool_steps_system:
  assumes "pool_step\<^sup>*\<^sup>* p p'" and "buf (sys_pub x) = p"
  shows "\<exists>y. (sys_step cfg wr sent)\<^sup>*\<^sup>* x y \<and> buf (sys_pub y) = p' \<and> received y = received x
    \<and> conn (sys_pub y) = conn (sys_pub x) \<and> out (sys_pub y) = out (sys_pub x)"
  using assms(1)
proof (induction rule: rtranclp_induct)
  case base
  with assms(2) show ?case by blast
next
  case (step p1 p2)
  then obtain y where y: "(sys_step cfg wr sent)\<^sup>*\<^sup>* x y" "buf (sys_pub y) = p1" "received y = received x"
      "conn (sys_pub y) = conn (sys_pub x)" "out (sys_pub y) = out (sys_pub x)" by blast
  have "\<exists>z. sys_step cfg wr sent y z \<and> buf (sys_pub z) = p2 \<and> received z = received y
    \<and> conn (sys_pub z) = conn (sys_pub y) \<and> out (sys_pub z) = out (sys_pub y)"
    using step(2) unfolding pool_step_def
  proof (elim disjE exE conjE)
    fix c n b ds r assume "list_all wf_deposit ds" "SaveAndAdvance c n b ds p1 = (r, p2)"
    then show ?thesis using step_save [of ds c n b y r p2 cfg wr sent] y(2) by fastforce
  next
    fix os t assume "p2 = p1\<lparr>outcomes := os, clock := t\<rparr>"
    then show ?thesis using step_faults [where x = y and os = os and t = t] y(2) by fastforce
  qed
  with y show ?case by (metis rtranclp.rtrancl_into_rtrancl)
qed

section \<open>Properties\<close>


definition start_sys :: "frame list sys" where
  "start_sys = \<lparr>sys_pub = \<lparr>buf = \<lparr>store = insert_row 5 100 sample_deposit empty_db, outcomes = [], clock = 6\<rparr>,
     conn = [], out = [], met = no_metrics\<rparr>, received = {}, stored = {deposit_key sample_deposit}\<rparr>"

definition append_frame :: "frame \<Rightarrow> frame list \<Rightarrow> goerror option \<times> frame list" where
  "append_frame f c = (None, c @ [f])"

lemma append_frame_carries: "carries_only_written append_frame set"
  by (simp add: carries_only_written_def append_frame_def)

lemma start_sys_init: "sys_init sample_cfg set start_sys"
  by (simp add: sys_init_def start_sys_def sys_db_def) (simp add: buffer_keys_def empty_db_def)


end
