(* ===== verification/Account_Repo.thy ===== *)
theory Account_Repo
  imports Buffer_Repo
begin

text \<open>
  \<^verbatim>\<open>internal/database/account_repo.go\<close>: which addresses are watched. The \<^verbatim>\<open>accounts\<close> table belongs to the
  Adapter and is only read here; it is a list of (chain, address) rows. As for the buffer, the
  outcome of each query is taken from a list in the pool.
\<close>

record acc_pool =
  accounts :: "(int \<times> string) list"
  acc_outcomes :: "outcome list"

definition acc_outcome :: "acc_pool \<Rightarrow> goerror option \<times> acc_pool" where
  "acc_outcome p = (case acc_outcomes p of [] \<Rightarrow> (None, p) | x # xs \<Rightarrow> (outcome_error x, p\<lparr>acc_outcomes := xs\<rparr>))"

text \<open>The row a query matches: same chain, same address up to case.\<close>

definition registered :: "acc_pool \<Rightarrow> int \<Rightarrow> string \<Rightarrow> bool" where
  "registered p chainID la \<longleftrightarrow> (\<exists>(c, a) \<in> set (accounts p). c = chainID \<and> to_lower a = la)"

definition Has :: "int \<Rightarrow> string \<Rightarrow> acc_pool \<Rightarrow> (goerror + bool) \<times> acc_pool" where
  "Has chainID address p =
    (case acc_outcome p of
       (Some e, p') \<Rightarrow> (Inl (Wrap (''query account ('' @ show_int chainID @ '', '' @ address @ '')'') e), p')
     | (None, p') \<Rightarrow> (Inr (registered p' chainID (to_lower address)), p'))"

text \<open>The input lower-cased and without duplicates, in order of first occurrence.\<close>

fun lower_unique :: "string list \<Rightarrow> string list \<Rightarrow> string list \<Rightarrow> string list" where
  "lower_unique seen lowered [] = lowered"
| "lower_unique seen lowered (a # as) =
    (let la = to_lower a in
     if la \<in> set seen then lower_unique seen lowered as
     else lower_unique (la # seen) (lowered @ [la]) as)"

text \<open>The answer rows of \<^verbatim>\<open>lower(address) = ANY($2)\<close>, one per matching account.\<close>

definition matching_rows :: "int \<Rightarrow> string list \<Rightarrow> acc_pool \<Rightarrow> string list" where
  "matching_rows chainID lowered p =
    map (\<lambda>(c, a). to_lower a) (filter (\<lambda>(c, a). c = chainID \<and> to_lower a \<in> set lowered) (accounts p))"

definition HasMany :: "int \<Rightarrow> string list \<Rightarrow> acc_pool \<Rightarrow> (goerror + (string \<times> bool) list) \<times> acc_pool" where
  "HasMany chainID addresses p =
    (if addresses = [] then (Inr [], p)
     else let lowered = lower_unique [] [] addresses in
       (case acc_outcome p of
          (Some e, p') \<Rightarrow> (Inl (Wrap ''query accounts'' e), p')
        | (None, p') \<Rightarrow>
            let out = foldl (\<lambda>m a. AList.update a True m)
                        (foldl (\<lambda>m la. AList.update la False m) [] lowered)
                        (matching_rows chainID lowered p')
            in (case acc_outcome p' of
                  (Some e, p'') \<Rightarrow> (Inl e, p'')
                | (None, p'') \<Rightarrow> (Inr out, p''))))"

text \<open>\<^verbatim>\<open>matched[k]\<close>: the zero value for a missing key.\<close>

definition at_key :: "(string \<times> bool) list \<Rightarrow> string \<Rightarrow> bool" where
  "at_key m k \<longleftrightarrow> map_of m k = Some True"

section \<open>Lemmas\<close>

lemma lower_char_idem [simp]: "lower_char (lower_char c) = lower_char c"
  by (cases c) (auto simp: lower_char_def)

lemma to_lower_idem [simp]: "to_lower (to_lower s) = to_lower s"
  by (simp add: to_lower_def)

lemma acc_outcome_frame: "acc_outcome p = (r, p') \<Longrightarrow> accounts p' = accounts p"
  by (auto simp: acc_outcome_def split: list.splits)

lemma registered_iff: "registered p c la \<longleftrightarrow> (\<exists>a. (c, a) \<in> set (accounts p) \<and> to_lower a = la)"
  by (force simp: registered_def)

lemma registered_cong: "accounts p' = accounts p \<Longrightarrow> registered p' c a = registered p c a"
  by (simp add: registered_def)

lemma Has_cases:
  assumes "Has c a p = (r, p')"
  shows "accounts p' = accounts p \<and> (\<forall>v. r = Inr v \<longrightarrow> v = registered p c (to_lower a))"
  using assms acc_outcome_frame [of p]
  by (auto simp: Has_def registered_def split: prod.splits option.splits)

lemma lower_unique_set: "set lowered \<subseteq> set seen \<Longrightarrow> set seen \<subseteq> set lowered \<Longrightarrow>
    set (lower_unique seen lowered as) = set lowered \<union> to_lower ` set as"
  by (induction seen lowered as rule: lower_unique.induct) (auto simp: Let_def)

lemma map_of_foldl_update:
  "map_of (foldl (\<lambda>m a. AList.update a v m) m0 xs) k = (if k \<in> set xs then Some v else map_of m0 k)"
  by (induction xs arbitrary: m0) (auto simp: update_conv')

lemma HasMany_cases:
  assumes "HasMany c addrs p = (r, p')"
  shows "accounts p' = accounts p \<and>
    (\<forall>m. r = Inr m \<longrightarrow> (\<forall>a \<in> set addrs. map_of m (to_lower a) = Some (registered p c (to_lower a))))"
proof (cases "addrs = []")
  case True
  with assms show ?thesis by (auto simp: HasMany_def)
next
  case False
  obtain e1 p1 where o1: "acc_outcome p = (e1, p1)" by fastforce
  obtain e2 p2 where o2: "acc_outcome p1 = (e2, p2)" by fastforce
  have acc: "accounts p1 = accounts p" "accounts p2 = accounts p"
    using acc_outcome_frame [OF o1] acc_outcome_frame [OF o2] by simp_all
  have rows: "la \<in> set (matching_rows c (lower_unique [] [] addrs) p1) \<longleftrightarrow> registered p c la"
    if "la \<in> to_lower ` set addrs" for la
    using that acc(1) unfolding matching_rows_def registered_def by (force simp: lower_unique_set image_iff)
  show ?thesis
    using assms False o1 o2 acc rows
    by (auto simp: HasMany_def Let_def map_of_foldl_update lower_unique_set split: option.splits)
qed

section \<open>Properties\<close>

text \<open>
  C26. The batch query agrees with the single one: whenever \<^verbatim>\<open>HasMany\<close> returns a map and \<^verbatim>\<open>Has\<close> returns an answer, they
  say the same of every queried address, in any spelling, and both are scoped to the chain.
\<close>

theorem HasMany_agrees_with_Has:
  assumes "HasMany chainID addrs p = (Inr m, p')" and "Has chainID a p'' = (Inr v, p3)" and "accounts p'' = accounts p"
    and "a \<in> set addrs"
  shows "map_of m (to_lower a) = Some v \<and> (v \<longleftrightarrow> (\<exists>x. (chainID, x) \<in> set (accounts p) \<and> to_lower x = to_lower a))"
  using HasMany_cases [OF assms(1)] Has_cases [OF assms(2)] assms(3,4) by (auto simp: registered_def)

theorem HasMany_agrees_with_Has_witness:
  "map_of [(''0xab'', True), (''0xcd'', False)] (to_lower ''0xAB'') = Some True"
proof -
  let ?p = "\<lparr>accounts = [(1, ''0xaB''), (2, ''0xcd'')], acc_outcomes = []\<rparr>"
  have "HasMany 1 [''0xAB'', ''0xcd'', ''0xab''] ?p = (Inr [(''0xab'', True), (''0xcd'', False)], ?p)"
    by code_simp
  moreover have "Has 1 ''0xAB'' ?p = (Inr True, ?p)" by code_simp
  ultimately show ?thesis
    using HasMany_agrees_with_Has [of 1 "[''0xAB'', ''0xcd'', ''0xab'']" ?p _ ?p "''0xAB''" ?p True ?p] by auto
qed

end
