(* ===== verification/Decryption.thy ===== *)
theory Decryption
  imports Go_Errors
begin

text \<open>
  Package \<^verbatim>\<open>internal/decryption\<close>: the auditor key of eERC tokens and the decryptors. The decryption itself is not
  implemented in the sources; both decryptors return \<^verbatim>\<open>ErrNotImplemented\<close>. A \<^verbatim>\<open>[7]*big.Int\<close> is a list of seven optional
  integers; strings are ASCII.
\<close>

section \<open>Hexadecimal keys\<close>

definition hex_val :: "char \<Rightarrow> nat option" where
  "hex_val c =
    (let n = of_char c :: nat in
     if 48 \<le> n \<and> n \<le> 57 then Some (n - 48)
     else if 97 \<le> n \<and> n \<le> 102 then Some (n - 87)
     else if 65 \<le> n \<and> n \<le> 70 then Some (n - 55)
     else None)"

text \<open>\<^verbatim>\<open>hex.DecodeString\<close>\<close>

fun DecodeString :: "string \<Rightarrow> goerror + byte list" where
  "DecodeString [] = Inr []"
| "DecodeString [c] =
    Inl (Opaque (if hex_val c = None then ''encoding/hex: invalid byte'' else ''encoding/hex: odd length hex string''))"
| "DecodeString (c # d # s) =
    (case (hex_val c, hex_val d) of
       (Some a, Some b) \<Rightarrow>
         (case DecodeString s of Inl e \<Rightarrow> Inl e | Inr bs \<Rightarrow> Inr (of_nat (16 * a + b) # bs))
     | _ \<Rightarrow> Inl (Opaque ''encoding/hex: invalid byte''))"

text \<open>\<^verbatim>\<open>new(big.Int).SetBytes\<close>: big-endian.\<close>

definition SetBytes :: "byte list \<Rightarrow> int" where
  "SetBytes bs = foldl (\<lambda>n b. 256 * n + uint b) 0 bs"

definition is_space :: "char \<Rightarrow> bool" where
  "is_space c \<longleftrightarrow> (of_char c :: nat) \<in> {9, 10, 11, 12, 13, 32}"

definition TrimSpace :: "string \<Rightarrow> string" where
  "TrimSpace s = rev (dropWhile is_space (rev (dropWhile is_space s)))"

definition TrimPrefix :: "string \<Rightarrow> string \<Rightarrow> string" where
  "TrimPrefix s prefix = (if take (length prefix) s = prefix then drop (length prefix) s else s)"

section \<open>Decryptors\<close>

record EnvDecryptor =
  privKey :: int

datatype Decryptor = NoopDecryptor | Env EnvDecryptor

text \<open>\<^verbatim>\<open>(nil, nil)\<close> is \<^term>\<open>Inr None\<close>.\<close>

definition NewEnvDecryptor :: "string \<Rightarrow> goerror + EnvDecryptor option" where
  "NewEnvDecryptor hexKey0 =
    (let hexKey = TrimSpace hexKey0 in
     if hexKey = '''' then Inr None
     else (case DecodeString (TrimPrefix hexKey ''0x'') of
        Inl e \<Rightarrow> Inl (Wrap ''invalid hex key'' e)
      | Inr raw \<Rightarrow>
          if length raw = 0 then Inl (Opaque ''empty private key'')
          else let pk = SetBytes raw in
            if pk = 0 then Inl (Opaque ''private key cannot be zero'')
            else Inr (Some \<lparr>privKey = pk\<rparr>)))"

fun validate_from :: "nat \<Rightarrow> int option list \<Rightarrow> goerror option" where
  "validate_from i [] = None"
| "validate_from i (v # vs) =
    (case v of
       None \<Rightarrow> Some (Opaque (''auditorPCT['' @ show_nat i @ ''] is nil''))
     | Some n \<Rightarrow> if n < 0 then Some (Opaque (''auditorPCT['' @ show_nat i @ ''] cannot be negative''))
                 else validate_from (Suc i) vs)"

definition validatePCT :: "int option list \<Rightarrow> goerror option" where
  "validatePCT pct = validate_from 0 pct"

definition noop_DecryptAmount :: "int option list \<Rightarrow> goerror + int" where
  "noop_DecryptAmount pct = Inl ErrNotImplemented"

definition env_DecryptAmount :: "EnvDecryptor \<Rightarrow> int option list \<Rightarrow> goerror + int" where
  "env_DecryptAmount d pct =
    (case validatePCT pct of Some e \<Rightarrow> Inl e | None \<Rightarrow> Inl ErrNotImplemented)"

fun DecryptAmount :: "Decryptor \<Rightarrow> int option list \<Rightarrow> goerror + int" where
  "DecryptAmount NoopDecryptor = noop_DecryptAmount"
| "DecryptAmount (Env d) = env_DecryptAmount d"

lemmas DecryptAmount_defs = noop_DecryptAmount_def env_DecryptAmount_def

section \<open>Lemmas\<close>

lemma DecryptAmount_error: "\<exists>e. DecryptAmount d pct = Inl e"
  by (cases d) (simp_all add: DecryptAmount_defs split: option.split)

lemma validate_from_ok: "validate_from i vs = None \<longleftrightarrow> (\<forall>v \<in> set vs. \<exists>n \<ge> 0. v = Some n)"
  by (induction i vs rule: validate_from.induct) (auto split: option.splits)

lemma DecodeString_ok:
  "(\<exists>bs. DecodeString s = Inr bs) \<longleftrightarrow> even (length s) \<and> list_all (\<lambda>c. hex_val c \<noteq> None) s"
  by (induction s rule: DecodeString.induct) (auto split: option.splits sum.splits)

text \<open>The number a string of hexadecimal digits denotes.\<close>

definition read_hex :: "string \<Rightarrow> nat" where
  "read_hex s = foldl (\<lambda>n c. 16 * n + the (hex_val c)) 0 s"

lemma hex_val_less: "hex_val c = Some n \<Longrightarrow> n < 16"
  by (auto simp: hex_val_def Let_def split: if_splits)

lemma uint_byte: "n < 256 \<Longrightarrow> uint (of_nat n :: byte) = int n"
  by (simp add: unsigned_of_nat take_bit_eq_mod)

lemma DecodeString_value:
  "DecodeString s = Inr bs \<Longrightarrow>
    foldl (\<lambda>n b. 256 * n + uint b) (int m) bs = int (foldl (\<lambda>n c. 16 * n + the (hex_val c)) m s)"
proof (induction s arbitrary: bs m rule: DecodeString.induct)
  case (3 c d s)
  from 3(2) obtain a b bs' where hv: "hex_val c = Some a" "hex_val d = Some b" and ds: "DecodeString s = Inr bs'"
    and bs: "bs = of_nat (16 * a + b) # bs'"
    by (auto split: option.splits sum.splits)
  have "uint (of_nat (16 * a + b) :: byte) = int (16 * a + b)"
    using hex_val_less [OF hv(1)] hex_val_less [OF hv(2)] by (intro uint_byte) simp
  then have "256 * int m + uint (of_nat (16 * a + b) :: byte) = int (16 * (16 * m + a) + b)" by simp
  then show ?case
    using 3(1) [OF refl hv ds, of "16 * (16 * m + a) + b"] hv bs by (simp only: foldl.simps option.sel)
qed auto

section \<open>Properties\<close>

text \<open>
  \<^verbatim>\<open>NewEnvDecryptor\<close> on a key that is not blank accepts exactly the hexadecimal strings (with or without \<^verbatim>\<open>0x\<close>, of either
  case, surrounding spaces ignored) of even length that denote a number other than zero, and keeps that number as the
  key; everything else is an error.
\<close>

theorem NewEnvDecryptor_accepts:
  assumes "TrimSpace hexKey \<noteq> ''''" and "body = TrimPrefix (TrimSpace hexKey) ''0x''"
  shows "NewEnvDecryptor hexKey \<noteq> Inr None \<and> (NewEnvDecryptor hexKey = Inr (Some \<lparr>privKey = k\<rparr>) \<longleftrightarrow>
      even (length body) \<and> list_all (\<lambda>c. hex_val c \<noteq> None) body \<and> k = int (read_hex body) \<and> k \<noteq> 0)"
proof
  show "NewEnvDecryptor hexKey \<noteq> Inr None"
    using assms(1) by (auto simp: NewEnvDecryptor_def Let_def split: sum.splits)
  show "NewEnvDecryptor hexKey = Inr (Some \<lparr>privKey = k\<rparr>) \<longleftrightarrow>
      even (length body) \<and> list_all (\<lambda>c. hex_val c \<noteq> None) body \<and> k = int (read_hex body) \<and> k \<noteq> 0"
  proof (cases "DecodeString body")
    case (Inl e)
    then show ?thesis
      using assms DecodeString_ok [of body] by (auto simp: NewEnvDecryptor_def Let_def)
  next
    case (Inr bs)
    have v: "SetBytes bs = int (read_hex body)"
      using DecodeString_value [OF Inr, of 0] by (simp add: SetBytes_def read_hex_def)
    moreover have "bs = [] \<Longrightarrow> int (read_hex body) = 0" using v by (simp add: SetBytes_def)
    ultimately show ?thesis
      using assms Inr DecodeString_ok [of body] by (auto simp: NewEnvDecryptor_def Let_def)
  qed
qed

theorem NewEnvDecryptor_accepts_witness:
  "NewEnvDecryptor '' 0xABcd  '' = Inr (Some \<lparr>privKey = 43981\<rparr>)"
proof -
  have b: "TrimPrefix (TrimSpace '' 0xABcd  '') ''0x'' = ''ABcd''" "TrimSpace '' 0xABcd  '' \<noteq> ''''" by code_simp+
  have "even (length ''ABcd'') \<and> list_all (\<lambda>c. hex_val c \<noteq> None) ''ABcd'' \<and> 43981 = int (read_hex ''ABcd'') \<and> (43981::int) \<noteq> 0"
    by code_simp
  with NewEnvDecryptor_accepts [OF b(2) b(1) [symmetric], of 43981] show ?thesis by simp
qed

end
