(* ===== verification/Eth.thy ===== *)
theory Eth
  imports Account_Repo Retry Decryption
begin

text \<open>
  The chain as the scanners see it: the go-ethereum types they read, the client interface of
  \<^verbatim>\<open>scanner/client.go\<close> and the configuration types of \<^verbatim>\<open>database/database.go\<close>. The functions of go-ethereum
  (checksummed printing, parsing and hashing) are a record of parameters; the node is a state of type \<^typ>\<open>'n\<close>
  on which the client's calls run.
\<close>

type_synonym address = "160 word"
type_synonym hash = "256 word"

text \<open>An \<^verbatim>\<open>int64\<close> kept at its width; \<^const>\<open>to_i64\<close> reads it.\<close>

type_synonym i64 = "64 word"


section \<open>go-ethereum\<close>

record eth_lib =
  addr_Hex :: "address \<Rightarrow> string"
  hash_Hex :: "hash \<Rightarrow> string"
  BytesToAddress :: "hash \<Rightarrow> address"
  HexToAddress :: "string \<Rightarrow> address"
  Keccak256Hash :: "string \<Rightarrow> hash"

text \<open>What the code relies on: printed hashes and lower-cased printed addresses identify their values.\<close>

definition lib_ok :: "eth_lib \<Rightarrow> bool" where
  "lib_ok lib \<longleftrightarrow> inj (hash_Hex lib) \<and> inj (\<lambda>a. to_lower (addr_Hex lib a))"

record Transaction =
  tx_To :: "address option"
  tx_Data :: "byte list"
  tx_Value :: int
  tx_Hash :: hash

record Block =
  block_Time :: u64
  block_Hash :: hash
  Transactions :: "Transaction list"

record Log =
  log_Address :: address
  log_Topics :: "hash list"
  log_Data :: "byte list"
  log_TxHash :: hash
  log_Index :: u64 \<comment> \<open>\<^verbatim>\<open>uint\<close>\<close>

record FilterQuery =
  FromBlock :: u64
  ToBlock :: u64
  q_Addresses :: "address list"
  q_Topics :: "hash list list"

record 'n ETHClient =
  cl_BlockNumber :: "'n \<Rightarrow> (goerror + u64) \<times> 'n"
  BlockByNumber :: "u64 \<Rightarrow> 'n \<Rightarrow> (goerror + Block option) \<times> 'n"
  FilterLogs :: "FilterQuery \<Rightarrow> 'n \<Rightarrow> (goerror + Log list) \<times> 'n"
  CodeAt :: "address \<Rightarrow> 'n \<Rightarrow> (goerror + byte list) \<times> 'n"
  TransactionSender :: "Transaction \<Rightarrow> hash \<Rightarrow> nat \<Rightarrow> 'n \<Rightarrow> (goerror + address) \<times> 'n"
  ctx_wait :: "'n \<Rightarrow> int \<Rightarrow> goerror option \<times> 'n" \<comment> \<open>the wait of \<^verbatim>\<open>retry.Do\<close>\<close>

section \<open>Configuration of a chain\<close>

record ContractInfo =
  ci_Symbol :: string
  ci_Decimals :: int

record ChainInfo =
  info_ChainID :: i64
  info_RPCURL :: string
  TokenConfigHash :: string

record ChainConfig =
  cc_ChainID :: i64
  cc_RPCURL :: string
  cc_Native :: string
  cc_Decimals :: int
  cc_BlockTimeMs :: int
  cc_PollingIntervalMs :: int
  cc_MinConfirmations :: int
  cc_ChainType :: string
  cc_Contracts :: "(string \<times> ContractInfo) list" \<comment> \<open>a map with lower-case addresses as keys\<close>

definition chain_id :: "ChainConfig \<Rightarrow> int" where
  "chain_id c = to_i64 (cc_ChainID c)"

section \<open>The world of a scanner\<close>

record 'n world =
  eth_node :: 'n
  acc :: acc_pool

text \<open>\<^verbatim>\<open>retry.Do\<close> around one client call; \<open>zero\<close> is the variable the closure assigns to.\<close>

definition rpc_do ::
  "'n ETHClient \<Rightarrow> Options \<Rightarrow> 'a \<Rightarrow> ('n \<Rightarrow> (goerror + 'a) \<times> 'n) \<Rightarrow> ('n, 'z) world_scheme \<Rightarrow> (goerror + 'a) \<times> ('n, 'z) world_scheme" where
  "rpc_do cl opt zero call w =
    (case Do (ctx_wait cl) opt zero call (eth_node w) of (r, n') \<Rightarrow> (r, w\<lparr>eth_node := n'\<rparr>))"

definition has_many :: "int \<Rightarrow> string list \<Rightarrow> ('n, 'z) world_scheme \<Rightarrow> (goerror + (string \<times> bool) list) \<times> ('n, 'z) world_scheme" where
  "has_many chainID addrs w = (case HasMany chainID addrs (acc w) of (r, a') \<Rightarrow> (r, w\<lparr>acc := a'\<rparr>))"

definition has_one :: "int \<Rightarrow> string \<Rightarrow> ('n, 'z) world_scheme \<Rightarrow> (goerror + bool) \<times> ('n, 'z) world_scheme" where
  "has_one chainID a w = (case Has chainID a (acc w) of (r, a') \<Rightarrow> (r, w\<lparr>acc := a'\<rparr>))"

definition watched :: "('n, 'z) world_scheme \<Rightarrow> int \<Rightarrow> string \<Rightarrow> bool" where
  "watched w chainID a \<longleftrightarrow> registered (acc w) chainID (to_lower a)"

text \<open>\<^verbatim>\<open>time.Unix(int64(block.Time()), 0).UTC().Format(time.RFC3339)\<close>\<close>

definition block_time :: "Block \<Rightarrow> string" where
  "block_time b = Format_RFC3339_UTC \<lparr>Unix = to_i64 (block_Time b), Nanosecond = 0\<rparr>"

section \<open>Lemmas\<close>


lemma in_i64_chain_id [simp]: "in_i64 (chain_id c)"
  by (simp add: chain_id_def)

lemma rpc_do_acc: "rpc_do cl opt zero call w = (r, w') \<Longrightarrow> acc w' = acc w"
  by (auto simp: rpc_do_def split: prod.splits)

lemma rpc_do_success:
  assumes "rpc_do cl opt zero call w = (Inr v, w')"
  shows "v = zero \<and> MaxRetries opt < 0 \<or> (\<exists>n n'. call n = (Inr v, n'))"
proof -
  obtain n' where "Do_loop (ctx_wait cl) opt call (nat (MaxRetries opt + 1)) 0 (Inr zero) (eth_node w) = (Inr v, n')"
    using assms by (auto simp: rpc_do_def Do_def split: prod.splits)
  from Do_loop_success [OF this] show ?thesis by auto
qed

lemma has_many_cases:
  assumes "has_many c addrs w = (r, w')"
  shows "accounts (acc w') = accounts (acc w) \<and>
    (\<forall>m. r = Inr m \<longrightarrow> (\<forall>a \<in> set addrs. at_key m (to_lower a) \<longleftrightarrow> watched w c a))"
proof -
  obtain a' where h: "HasMany c addrs (acc w) = (r, a')" "w' = w\<lparr>acc := a'\<rparr>"
    using assms by (auto simp: has_many_def split: prod.splits)
  show ?thesis using HasMany_cases [OF h(1)] h(2) by (auto simp: at_key_def watched_def)
qed

lemma has_one_cases:
  assumes "has_one c a w = (r, w')"
  shows "accounts (acc w') = accounts (acc w) \<and> (\<forall>v. r = Inr v \<longrightarrow> v = watched w c a)"
proof -
  obtain a' where h: "Has c a (acc w) = (r, a')" "w' = w\<lparr>acc := a'\<rparr>"
    using assms by (auto simp: has_one_def split: prod.splits)
  show ?thesis using Has_cases [OF h(1)] h(2) by (auto simp: watched_def)
qed

lemma watched_cong: "accounts (acc w') = accounts (acc w) \<Longrightarrow> watched w' c a = watched w c a"
  by (simp add: watched_def registered_def)

end
