(* ===== verification/Chain_Source.thy ===== *)
theory Chain_Source
  imports Eth
begin

text \<open>
  The interface \<^verbatim>\<open>ChainSource\<close> that \<^verbatim>\<open>internal/supervisor\<close> and \<^verbatim>\<open>internal/audit\<close> declare alike: which chains are active,
  and the configuration of one chain. Its contract is the locale \<open>chain_source\<close>; \<open>Config_Repo\<close> and the wrapper of
  \<^verbatim>\<open>main.go\<close> interpret it.
\<close>

record 'c ChainSource =
  ActiveChains_op :: "'c \<Rightarrow> (goerror + ChainInfo list) \<times> 'c"
  ChainConfig_op :: "i64 \<Rightarrow> 'c \<Rightarrow> (goerror + ChainConfig) \<times> 'c"

text \<open>\<open>chains\<close> lists the active chains of a state with their fingerprints; the calls only read.\<close>

locale chain_source =
  fixes Src :: "'c ChainSource" and chains :: "'c \<Rightarrow> (i64 \<times> string) list" and inv :: "'c \<Rightarrow> bool"
  assumes chains_distinct: "inv c \<Longrightarrow> distinct (map fst (chains c))"
    and active_frame: "inv c \<Longrightarrow> ActiveChains_op Src c = (r, c') \<Longrightarrow> inv c' \<and> chains c' = chains c"
    and active_result: "inv c \<Longrightarrow> ActiveChains_op Src c = (Inr infos, c') \<Longrightarrow>
        map (\<lambda>i. (info_ChainID i, TokenConfigHash i)) infos = chains c"
    and config_frame: "inv c \<Longrightarrow> ChainConfig_op Src k c = (q, c') \<Longrightarrow> inv c' \<and> chains c' = chains c"
    and config_result: "inv c \<Longrightarrow> ChainConfig_op Src k c = (Inr cfg, c') \<Longrightarrow>
        cc_ChainID cfg = k \<and> k \<in> fst ` set (chains c)"
begin

lemma active_ids:
  assumes "inv c" and "ActiveChains_op Src c = (Inr infos, c')"
  shows "map info_ChainID infos = map fst (chains c)"
proof -
  have "map fst (map (\<lambda>i. (info_ChainID i, TokenConfigHash i)) infos) = map fst (chains c)"
    using active_result [OF assms] by simp
  then show ?thesis by (simp add: comp_def)
qed

lemma config_of_inactive:
  assumes "inv c" and "k \<notin> fst ` set (chains c)"
  obtains e c' where "ChainConfig_op Src k c = (Inl e, c')"
  using config_result [OF assms(1), of k] assms(2) by (cases "ChainConfig_op Src k c"; cases "fst (ChainConfig_op Src k c)") auto

end

end
