(* ===== verification/Supervisor.thy ===== *)
theory Supervisor
  imports Chain_Source "HOL-Library.Multiset" "HOL-Library.Monad_Syntax"
begin

text \<open>
  \<^verbatim>\<open>internal/supervisor/supervisor.go\<close>: one log loop and one trace loop per active chain. A handle of the Go map
  \<^verbatim>\<open>running\<close> is an index into the list of all runners ever started, so that goroutines which outlive their entry stay
  visible. A reconcile runs under the mutex and is one step; between reconciles loops end on their own. The only
  blocking operation is the receive from \<^verbatim>\<open>done\<close>: its result is \<^const>\<open>None\<close> when a loop ignores the cancellation.
\<close>

section \<open>Goroutines\<close>

datatype loop_exit = Returns "goerror option" | Panics

text \<open>A \<^verbatim>\<open>LoopRunner\<close>, by the way it ends once its context is cancelled.\<close>

record LoopRunner =
  on_cancel :: "loop_exit option"

datatype goroutine = Live LoopRunner | Ended

datatype loop_name = LogLoop | TraceLoop

record chainRunner =
  cr_chain :: i64
  tokenConfigHash :: string
  cr_cancelled :: bool \<comment> \<open>the context of the chain\<close>
  cr_log :: goroutine
  cr_trace :: goroutine
  cr_done :: bool \<comment> \<open>\<^verbatim>\<open>done\<close> is closed\<close>

record sup_metrics =
  ReconcilesSuccess :: nat
  ReconcilesError :: nat
  ChainsRunning :: nat
  SupervisorPanics :: "(i64 \<times> loop_name) list"

record 'c sup_state =
  src_st :: 'c
  runners :: "chainRunner list"
  running :: "(i64 \<times> nat) list"
  sup_m :: sup_metrics

text \<open>\<open>map_order\<close> is the order in which Go ranges over the map \<^verbatim>\<open>active\<close>.\<close>

record 'c Supervisor =
  sup_source :: "'c ChainSource"
  sup_builder :: "ChainConfig \<Rightarrow> 'c \<Rightarrow> (goerror + LoopRunner \<times> LoopRunner) \<times> 'c"
  map_order :: "(i64 \<times> string) list \<Rightarrow> (i64 \<times> string) list"
  sup_PollIntervalMs :: int

definition new_supervisor :: "'c \<Rightarrow> 'c sup_state" where
  "new_supervisor c = \<lparr>src_st = c, runners = [], running = [],
     sup_m = \<lparr>ReconcilesSuccess = 0, ReconcilesError = 0, ChainsRunning = 0, SupervisorPanics = []\<rparr>\<rparr>"

section \<open>runLoop\<close>

definition on_runner :: "nat \<Rightarrow> (chainRunner \<Rightarrow> chainRunner) \<Rightarrow> 'c sup_state \<Rightarrow> 'c sup_state" where
  "on_runner i f st = st\<lparr>runners := (runners st)[i := f (runners st ! i)]\<rparr>"

definition cancel :: "chainRunner \<Rightarrow> chainRunner" where
  "cancel r = r\<lparr>cr_cancelled := True\<rparr>"

fun end_goroutine :: "loop_name \<Rightarrow> chainRunner \<Rightarrow> chainRunner" where
  "end_goroutine LogLoop r = r\<lparr>cr_log := Ended\<rparr>"
| "end_goroutine TraceLoop r = r\<lparr>cr_trace := Ended\<rparr>"

fun goroutine_of :: "loop_name \<Rightarrow> chainRunner \<Rightarrow> goroutine" where
  "goroutine_of LogLoop r = cr_log r"
| "goroutine_of TraceLoop r = cr_trace r"

definition count_panic :: "i64 \<Rightarrow> loop_name \<Rightarrow> 'c sup_state \<Rightarrow> 'c sup_state" where
  "count_panic k name st = st\<lparr>sup_m := (sup_m st)\<lparr>SupervisorPanics := SupervisorPanics (sup_m st) @ [(k, name)]\<rparr>\<rparr>"

text \<open>The goroutine \<open>name\<close> of runner \<open>i\<close> ends: a panic is recovered and counted, then the deferred \<^verbatim>\<open>cancel\<close> and \<^verbatim>\<open>wg.Done\<close> run.\<close>

definition runLoop :: "loop_name \<Rightarrow> nat \<Rightarrow> loop_exit \<Rightarrow> 'c sup_state \<Rightarrow> 'c sup_state" where
  "runLoop name i x st =
    on_runner i (\<lambda>r. end_goroutine name (cancel r))
      (case x of Panics \<Rightarrow> count_panic (cr_chain (runners st ! i)) name st | Returns e \<Rightarrow> st)"

text \<open>The goroutine that waits for the pair and closes \<^verbatim>\<open>done\<close>.\<close>

definition close_done :: "nat \<Rightarrow> 'c sup_state \<Rightarrow> 'c sup_state" where
  "close_done i st = on_runner i (\<lambda>r. r\<lparr>cr_done := True\<rparr>) st"

definition pair_ended :: "chainRunner \<Rightarrow> bool" where
  "pair_ended r \<longleftrightarrow> cr_log r = Ended \<and> cr_trace r = Ended"

section \<open>Waiting for a cancelled runner\<close>

definition await_loop :: "loop_name \<Rightarrow> nat \<Rightarrow> 'c sup_state \<Rightarrow> 'c sup_state option" where
  "await_loop name i st =
    (case goroutine_of name (runners st ! i) of
       Ended \<Rightarrow> Some st
     | Live l \<Rightarrow> (case on_cancel l of None \<Rightarrow> None | Some x \<Rightarrow> Some (runLoop name i x st)))"

definition await_done :: "nat \<Rightarrow> 'c sup_state \<Rightarrow> 'c sup_state option" where
  "await_done i st =
    (if cr_done (runners st ! i) then Some st
     else do {
       st1 \<leftarrow> await_loop LogLoop i st;
       st2 \<leftarrow> await_loop TraceLoop i st1;
       Some (close_done i st2)
     })"

section \<open>startChain\<close>

definition startChain :: "'c Supervisor \<Rightarrow> i64 \<Rightarrow> string \<Rightarrow> 'c sup_state \<Rightarrow> goerror option \<times> 'c sup_state" where
  "startChain S chainID fp st =
    (case ChainConfig_op (sup_source S) chainID (src_st st) of
       (Inl e, c) \<Rightarrow> (Some (Wrap ''ChainConfig'' e), st\<lparr>src_st := c\<rparr>)
     | (Inr chainCfg, c) \<Rightarrow>
         (case sup_builder S chainCfg c of
            (Inl e, c') \<Rightarrow> (Some (Wrap ''build loops'' e), st\<lparr>src_st := c'\<rparr>)
          | (Inr (logRun, traceRun), c') \<Rightarrow>
              (None, st\<lparr>src_st := c',
                 runners := runners st @ [\<lparr>cr_chain = chainID, tokenConfigHash = fp, cr_cancelled = False,
                   cr_log = Live logRun, cr_trace = Live traceRun, cr_done = False\<rparr>],
                 running := AList.update chainID (length (runners st)) (running st)\<rparr>)))"

section \<open>reconcile\<close>

definition stop_inactive :: "(i64 \<times> string) list \<Rightarrow> 'c sup_state \<Rightarrow> 'c sup_state" where
  "stop_inactive active st =
    st\<lparr>runners := fold (\<lambda>(k, i) rs. rs[i := cancel (rs ! i)]) (filter (\<lambda>(k, i). k \<notin> fst ` set active) (running st)) (runners st),
       running := filter (\<lambda>(k, i). k \<in> fst ` set active) (running st)\<rparr>"

definition remove :: "i64 \<Rightarrow> 'c sup_state \<Rightarrow> 'c sup_state" where
  "remove k st = st\<lparr>running := AList.delete k (running st)\<rparr>"

text \<open>A failed start is logged and the chain is left for the next reconcile.\<close>

definition reconcile_chain :: "'c Supervisor \<Rightarrow> i64 \<times> string \<Rightarrow> 'c sup_state \<Rightarrow> 'c sup_state option" where
  "reconcile_chain S entry st =
    (case entry of (chainID, fp) \<Rightarrow>
     (case map_of (running st) chainID of
        None \<Rightarrow> Some (snd (startChain S chainID fp st))
      | Some i \<Rightarrow>
          if cr_done (runners st ! i) then Some (snd (startChain S chainID fp (remove chainID st)))
          else if tokenConfigHash (runners st ! i) = fp then Some st
          else do {
            st1 \<leftarrow> await_done i (on_runner i cancel st);
            Some (snd (startChain S chainID fp (remove chainID st1)))
          }))"

fun reconcile_chains :: "'c Supervisor \<Rightarrow> (i64 \<times> string) list \<Rightarrow> 'c sup_state \<Rightarrow> 'c sup_state option" where
  "reconcile_chains S [] st = Some st"
| "reconcile_chains S (x # xs) st = do { st1 \<leftarrow> reconcile_chain S x st; reconcile_chains S xs st1 }"

definition active_map :: "ChainInfo list \<Rightarrow> (i64 \<times> string) list" where
  "active_map infos = fold (\<lambda>i. AList.update (info_ChainID i) (TokenConfigHash i)) infos []"

definition reconcile :: "'c Supervisor \<Rightarrow> 'c sup_state \<Rightarrow> (goerror option \<times> 'c sup_state) option" where
  "reconcile S st =
    (case ActiveChains_op (sup_source S) (src_st st) of
       (Inl e, c) \<Rightarrow> Some (Some (Wrap ''ActiveChains'' e), st\<lparr>src_st := c\<rparr>)
     | (Inr infos, c) \<Rightarrow> do {
         st1 \<leftarrow> reconcile_chains S (map_order S (active_map infos)) (stop_inactive (active_map infos) (st\<lparr>src_st := c\<rparr>));
         Some (None, st1\<lparr>sup_m := (sup_m st1)\<lparr>ChainsRunning := length (running st1)\<rparr>\<rparr>)
       })"

section \<open>stopAll and Run\<close>

fun await_all :: "nat list \<Rightarrow> 'c sup_state \<Rightarrow> 'c sup_state option" where
  "await_all [] st = Some st"
| "await_all (i # is) st = do { st1 \<leftarrow> await_done i st; await_all is st1 }"

definition stopAll :: "'c sup_state \<Rightarrow> 'c sup_state option" where
  "stopAll st =
    await_all (map snd (running st))
      (st\<lparr>runners := fold (\<lambda>(k, i) rs. rs[i := cancel (rs ! i)]) (running st) (runners st), running := []\<rparr>)"

text \<open>
  What \<^verbatim>\<open>Run\<close> and the goroutines do, in the order it happens: a tick of the timer, the end of a loop, the closing of a
  \<^verbatim>\<open>done\<close> channel, a change of the outside world (the tables), or the end of the context, which cancels the
  contexts derived from it too.
\<close>

datatype 'c sup_event = Tick_E | Loop_E loop_name nat loop_exit | Done_E nat | World_E "'c \<Rightarrow> 'c" | Ctx_E goerror

datatype sup_end = Sup_Running | Sup_Returned goerror | Sup_Panicked

definition count_reconcile :: "goerror option \<Rightarrow> 'c sup_state \<Rightarrow> 'c sup_state" where
  "count_reconcile e st = st\<lparr>sup_m := (case e of
     Some err \<Rightarrow> (sup_m st)\<lparr>ReconcilesError := Suc (ReconcilesError (sup_m st))\<rparr>
   | None \<Rightarrow> (sup_m st)\<lparr>ReconcilesSuccess := Suc (ReconcilesSuccess (sup_m st))\<rparr>)\<rparr>"

definition loop_ends :: "loop_name \<Rightarrow> nat \<Rightarrow> loop_exit \<Rightarrow> 'c sup_state \<Rightarrow> 'c sup_state" where
  "loop_ends name i x st =
    (if i < length (runners st) \<and> goroutine_of name (runners st ! i) \<noteq> Ended then runLoop name i x st else st)"

definition done_closes :: "nat \<Rightarrow> 'c sup_state \<Rightarrow> 'c sup_state" where
  "done_closes i st = (if i < length (runners st) \<and> pair_ended (runners st ! i) then close_done i st else st)"

fun run_events :: "'c Supervisor \<Rightarrow> 'c sup_event list \<Rightarrow> 'c sup_state \<Rightarrow> (sup_end \<times> 'c sup_state) option" where
  "run_events S [] st = Some (Sup_Running, st)"
| "run_events S (Tick_E # es) st = do { (e, st1) \<leftarrow> reconcile S st; run_events S es (count_reconcile e st1) }"
| "run_events S (Loop_E name i x # es) st = run_events S es (loop_ends name i x st)"
| "run_events S (Done_E i # es) st = run_events S es (done_closes i st)"
| "run_events S (World_E f # es) st = run_events S es (st\<lparr>src_st := f (src_st st)\<rparr>)"
| "run_events S (Ctx_E err # es) st = do {
     st1 \<leftarrow> stopAll (st\<lparr>runners := map cancel (runners st)\<rparr>);
     Some (Sup_Returned err, st1)
   }"

definition Supervisor_Run :: "'c Supervisor \<Rightarrow> 'c sup_event list \<Rightarrow> 'c sup_state \<Rightarrow> (sup_end \<times> 'c sup_state) option" where
  "Supervisor_Run S es st = do {
     (e, st1) \<leftarrow> reconcile S st;
     if ticker_ok (wrap64 (sup_PollIntervalMs S * Millisecond)) then run_events S es st1 else Some (Sup_Panicked, st1)
   }"

section \<open>The invariant\<close>

text \<open>
  Keys of \<^verbatim>\<open>running\<close> are unique and name their own runner; a runner whose context is alive is registered; a loop that
  ended has cancelled its pair; \<^verbatim>\<open>done\<close> is closed only after both.
\<close>

definition runner_ok :: "chainRunner \<Rightarrow> bool" where
  "runner_ok r \<longleftrightarrow> (cr_log r = Ended \<or> cr_trace r = Ended \<longrightarrow> cr_cancelled r) \<and> (cr_done r \<longrightarrow> pair_ended r)"

definition handle :: "'c sup_state \<Rightarrow> i64 \<Rightarrow> nat option" where
  "handle st k = map_of (running st) k"

definition sup_inv :: "'c sup_state \<Rightarrow> bool" where
  "sup_inv st \<longleftrightarrow> distinct (map fst (running st))
    \<and> (\<forall>k i. handle st k = Some i \<longrightarrow> i < length (runners st) \<and> cr_chain (runners st ! i) = k)
    \<and> (\<forall>i < length (runners st). \<not> cr_cancelled (runners st ! i) \<longrightarrow> handle st (cr_chain (runners st ! i)) = Some i)
    \<and> (\<forall>i < length (runners st). runner_ok (runners st ! i))"

lemma sup_invD:
  assumes "sup_inv st"
  shows "distinct (map fst (running st))"
    and "handle st k = Some i \<Longrightarrow> i < length (runners st)"
    and "handle st k = Some i \<Longrightarrow> cr_chain (runners st ! i) = k"
    and "i < length (runners st) \<Longrightarrow> \<not> cr_cancelled (runners st ! i) \<Longrightarrow> handle st (cr_chain (runners st ! i)) = Some i"
    and "i < length (runners st) \<Longrightarrow> runner_ok (runners st ! i)"
  using assms by (auto simp: sup_inv_def)

text \<open>How a runner may change: it keeps its chain and fingerprint and stays cancelled.\<close>

definition aged :: "chainRunner \<Rightarrow> chainRunner \<Rightarrow> bool" where
  "aged r r' \<longleftrightarrow> cr_chain r' = cr_chain r \<and> tokenConfigHash r' = tokenConfigHash r
    \<and> (cr_cancelled r \<longrightarrow> cr_cancelled r') \<and> (runner_ok r \<longrightarrow> runner_ok r')"

named_theorems runner_defs \<open>the parts of a runner and how they change\<close>

declare runner_ok_def [runner_defs] aged_def [runner_defs] cancel_def [runner_defs] pair_ended_def [runner_defs]

lemma aged_refl [simp]: "aged r r"
  by (simp add: aged_def)

lemma aged_trans: "aged r s \<Longrightarrow> aged s t \<Longrightarrow> aged r t"
  by (auto simp: aged_def)

lemma aged_cancel [simp]: "aged r (cancel r)"
  by (simp add: runner_defs)

lemma aged_end [simp]: "aged r (end_goroutine name (cancel r))"
  by (cases name) (auto simp: runner_defs)

lemma sup_inv_aged:
  assumes "sup_inv st" and "list_all2 aged (runners st) rs" and "runners st' = rs" and "running st' = running st"
  shows "sup_inv st'"
proof -
  have len: "length rs = length (runners st)" using assms(2) by (simp add: list_all2_lengthD)
  have a: "aged (runners st ! i) (rs ! i)" if "i < length (runners st)" for i
    using assms(2) that by (rule list_all2_nthD)
  have h: "handle st' = handle st" using assms(4) by (simp add: fun_eq_iff handle_def)
  show ?thesis
    unfolding sup_inv_def h assms(3,4) len
  proof (intro conjI allI impI)
    fix i assume i: "i < length (runners st)"
    show "runner_ok (rs ! i)" using sup_invD(5) [OF assms(1) i] a [OF i] by (simp add: aged_def)
    assume "\<not> cr_cancelled (rs ! i)"
    then show "handle st (cr_chain (rs ! i)) = Some i" using sup_invD(4) [OF assms(1) i] a [OF i] by (auto simp: aged_def)
  next
    fix k i assume "handle st k = Some i"
    note sup_invD(2,3) [OF assms(1) this]
    then show "i < length (runners st)" "cr_chain (rs ! i) = k" using a [of i] by (auto simp: aged_def)
  qed (rule sup_invD(1) [OF assms(1)])
qed

lemma list_all2_aged_update: "i < length rs \<Longrightarrow> aged (rs ! i) r \<Longrightarrow> list_all2 aged rs (rs[i := r])"
  by (auto simp: list_all2_conv_all_nth nth_list_update)

lemma sup_inv_update:
  "sup_inv st \<Longrightarrow> i < length (runners st) \<Longrightarrow> aged (runners st ! i) r \<Longrightarrow> runners st' = (runners st)[i := r] \<Longrightarrow>
    running st' = running st \<Longrightarrow> sup_inv st'"
  by (rule sup_inv_aged [OF _ list_all2_aged_update])

lemma sup_inv_cong: "sup_inv st \<Longrightarrow> runners st' = runners st \<Longrightarrow> running st' = running st \<Longrightarrow> sup_inv st'"
  unfolding sup_inv_def handle_def by simp

section \<open>Lemmas: waiting\<close>

lemma runLoop_effect:
  "runners (runLoop name i x st) = (runners st)[i := end_goroutine name (cancel (runners st ! i))]"
  "running (runLoop name i x st) = running st" "src_st (runLoop name i x st) = src_st st"
  by (simp_all add: runLoop_def on_runner_def count_panic_def split: loop_exit.split)

lemma await_loop_effect:
  assumes "await_loop name i st = Some st'" and "i < length (runners st)" and "runner_ok (runners st ! i)"
  shows "running st' = running st \<and> src_st st' = src_st st \<and>
    runners st' = (runners st)[i := end_goroutine name (cancel (runners st ! i))]"
proof (cases "goroutine_of name (runners st ! i)")
  case Ended
  then have "end_goroutine name (cancel (runners st ! i)) = runners st ! i"
    using assms(3) by (cases name) (auto simp: runner_defs)
  then show ?thesis using Ended assms(1) by (auto simp: await_loop_def)
next
  case (Live l)
  then show ?thesis
    using assms(1) runLoop_effect by (auto simp: await_loop_def split: option.splits)
qed

lemma await_done_effect:
  assumes "await_done i st = Some st'" and "i < length (runners st)" and "runner_ok (runners st ! i)"
  obtains r where "runners st' = (runners st)[i := r]" and "aged (runners st ! i) r" and "cr_done r" and "cr_cancelled r"
    and "running st' = running st" and "src_st st' = src_st st"
proof (cases "cr_done (runners st ! i)")
  case True
  then have "st' = st" using assms(1) by (simp add: await_done_def)
  moreover have "cr_cancelled (runners st ! i)" using assms(3) True by (simp add: runner_defs)
  ultimately show thesis using that [of "runners st ! i"] True by simp
next
  case False
  then obtain st1 st2 where s: "await_loop LogLoop i st = Some st1" "await_loop TraceLoop i st1 = Some st2" "st' = close_done i st2"
    using assms(1) by (auto simp: await_done_def split: Option.bind_splits)
  let ?r1 = "end_goroutine LogLoop (cancel (runners st ! i))"
  let ?r2 = "end_goroutine TraceLoop (cancel ?r1)"
  note e1 = await_loop_effect [OF s(1) assms(2,3)]
  have "runner_ok ?r1" using assms(3) aged_end [of "runners st ! i" LogLoop] by (simp add: aged_def)
  then have e2: "running st2 = running st \<and> src_st st2 = src_st st \<and> runners st2 = (runners st)[i := ?r2]"
    using await_loop_effect [OF s(2)] e1 assms(2) by simp
  show thesis
  proof (rule that)
    show "runners st' = (runners st)[i := ?r2\<lparr>cr_done := True\<rparr>]"
      using e2 s(3) assms(2) by (simp add: close_done_def on_runner_def)
    show "running st' = running st" "src_st st' = src_st st"
      using e2 s(3) by (simp_all add: close_done_def on_runner_def)
  qed (auto simp: runner_defs)
qed

text \<open>A runner whose loops obey the cancellation is always waited for successfully.\<close>

fun goroutine_obeys :: "goroutine \<Rightarrow> bool" where
  "goroutine_obeys Ended \<longleftrightarrow> True"
| "goroutine_obeys (Live l) \<longleftrightarrow> on_cancel l \<noteq> None"

definition obeys :: "chainRunner \<Rightarrow> bool" where
  "obeys r \<longleftrightarrow> goroutine_obeys (cr_log r) \<and> goroutine_obeys (cr_trace r)"

lemma obeys_simps [simp]: "obeys (cancel r) = obeys r"
  by (simp add: obeys_def cancel_def)

lemma obeys_end: "obeys r \<Longrightarrow> obeys (end_goroutine name r)"
  by (cases name) (auto simp: obeys_def)

lemma await_loop_returns: "obeys (runners st ! i) \<Longrightarrow> await_loop name i st \<noteq> None"
  by (cases name; cases "goroutine_of name (runners st ! i)") (auto simp: await_loop_def obeys_def split: option.splits)

lemma await_done_returns:
  assumes "obeys (runners st ! i)" and "i < length (runners st)" and "runner_ok (runners st ! i)"
  shows "await_done i st \<noteq> None"
proof -
  obtain st1 where s: "await_loop LogLoop i st = Some st1" using await_loop_returns assms(1) by blast
  from await_loop_effect [OF this assms(2,3)] have "obeys (runners st1 ! i)"
    using assms(1,2) obeys_end [of "cancel (runners st ! i)" LogLoop] by simp
  then obtain st2 where "await_loop TraceLoop i st1 = Some st2" using await_loop_returns by blast
  with s show ?thesis by (simp add: await_done_def)
qed

section \<open>Lemmas: the steps of a reconcile\<close>

lemma handle_remove: "distinct (map fst (running st)) \<Longrightarrow> handle (remove k st) j = (if j = k then None else handle st j)"
  by (simp add: handle_def remove_def delete_conv)

lemma runners_remove [simp]: "runners (remove k st) = runners st" "src_st (remove k st) = src_st st"
  by (simp_all add: remove_def)

lemma sup_inv_remove:
  assumes "sup_inv st" and "\<And>i. handle st k = Some i \<Longrightarrow> cr_cancelled (runners st ! i)"
  shows "sup_inv (remove k st)"
proof -
  have d: "distinct (map fst (running (remove k st)))"
    using sup_invD(1) [OF assms(1)] by (simp add: remove_def distinct_delete)
  note h = handle_remove [OF sup_invD(1) [OF assms(1)], of k]
  show ?thesis
    unfolding sup_inv_def runners_remove h
    using d sup_invD(2-5) [OF assms(1)] assms(2) by (auto split: if_splits) blast
qed

definition can_start :: "'c Supervisor \<Rightarrow> i64 \<Rightarrow> bool" where
  "can_start S k \<longleftrightarrow> (\<forall>c. \<exists>cfg c1 l t c2. ChainConfig_op (sup_source S) k c = (Inr cfg, c1) \<and> sup_builder S cfg c1 = (Inr (l, t), c2))"

lemma startChain_cases:
  obtains (failed) c where "snd (startChain S k fp st) = st\<lparr>src_st := c\<rparr>" and "\<not> can_start S k"
  | (started) c l t where "snd (startChain S k fp st) = st\<lparr>src_st := c,
       runners := runners st @ [\<lparr>cr_chain = k, tokenConfigHash = fp, cr_cancelled = False,
         cr_log = Live l, cr_trace = Live t, cr_done = False\<rparr>], running := AList.update k (length (runners st)) (running st)\<rparr>"
proof -
  obtain x c1 where x: "ChainConfig_op (sup_source S) k (src_st st) = (x, c1)" by fastforce
  show thesis
  proof (cases x)
    case (Inl e)
    with x have "\<not> can_start S k" by (auto simp: can_start_def intro!: exI [of _ "src_st st"])
    with Inl x show thesis using failed [of c1] by (simp add: startChain_def)
  next
    case (Inr cfg)
    obtain y c2 where y: "sup_builder S cfg c1 = (y, c2)" by fastforce
    show thesis
    proof (cases y)
      case (Inl e)
      with x y Inr have "\<not> can_start S k" by (auto simp: can_start_def intro!: exI [of _ "src_st st"])
      with Inl x y Inr show thesis using failed [of c2] by (simp add: startChain_def)
    next
      case (Inr lt)
      with x y \<open>x = Inr cfg\<close> show thesis using started [where c = c2 and l = "fst lt" and t = "snd lt"] by (cases lt) (simp add: startChain_def)
    qed
  qed
qed

text \<open>
  What a start of a chain without an entry does: nothing to other chains; afterwards the chain has no entry, or a
  fresh runner with the wanted fingerprint.
\<close>

definition fresh :: "'c sup_state \<Rightarrow> i64 \<Rightarrow> string \<Rightarrow> nat \<Rightarrow> 'c sup_state \<Rightarrow> bool" where
  "fresh st k fp i st' \<longleftrightarrow> length (runners st) \<le> i \<and> i < length (runners st') \<and> tokenConfigHash (runners st' ! i) = fp
    \<and> \<not> cr_cancelled (runners st' ! i) \<and> (\<exists>l. cr_log (runners st' ! i) = Live l) \<and> (\<exists>t. cr_trace (runners st' ! i) = Live t)"

lemma startChain_effect:
  assumes "sup_inv st" and "handle st k = None" and st': "st' = snd (startChain S k fp st)"
  shows "sup_inv st'" and "j \<noteq> k \<Longrightarrow> handle st' j = handle st j" and "i < length (runners st) \<Longrightarrow> runners st' ! i = runners st ! i"
    and "length (runners st) \<le> length (runners st')"
    and "handle st' k = None \<and> \<not> can_start S k \<or> (\<exists>i. handle st' k = Some i \<and> fresh st k fp i st')"
proof -
  have "sup_inv st' \<and> (\<forall>j. j \<noteq> k \<longrightarrow> handle st' j = handle st j) \<and> (\<forall>i < length (runners st). runners st' ! i = runners st ! i)
    \<and> length (runners st) \<le> length (runners st') \<and> (handle st' k = None \<and> \<not> can_start S k \<or> (\<exists>i. handle st' k = Some i \<and> fresh st k fp i st'))"
  proof (cases rule: startChain_cases [of S k fp st])
    case (failed c)
    then have "st' = st\<lparr>src_st := c\<rparr>" by (simp add: st')
    then show ?thesis using assms(1,2) failed(2) sup_inv_cong [OF assms(1), of st'] by (simp add: handle_def)
  next
    case (started c l t)
    let ?r = "\<lparr>cr_chain = k, tokenConfigHash = fp, cr_cancelled = False, cr_log = Live l, cr_trace = Live t, cr_done = False\<rparr>"
    have r: "runners st' = runners st @ [?r]" using started by (simp add: st')
    have h: "handle st' j = (if j = k then Some (length (runners st)) else handle st j)" for j
      using started by (simp add: st' handle_def update_conv)
    have d: "distinct (map fst (running st'))"
      using started sup_invD(1) [OF assms(1)] by (simp add: st' distinct_update)
    have "sup_inv st'"
      unfolding sup_inv_def r h
    proof (intro conjI allI impI d)
      fix j i
      assume "(if j = k then Some (length (runners st)) else handle st j) = Some i"
      then show "i < length (runners st @ [?r])" "cr_chain ((runners st @ [?r]) ! i) = j"
        using sup_invD(2,3) [OF assms(1), of j i] by (auto split: if_splits simp: nth_append)
    next
      fix i
      assume i: "i < length (runners st @ [?r])"
      show "runner_ok ((runners st @ [?r]) ! i)"
        using i sup_invD(5) [OF assms(1), of i] by (auto simp: nth_append runner_ok_def)
      assume "\<not> cr_cancelled ((runners st @ [?r]) ! i)"
      then show "(if cr_chain ((runners st @ [?r]) ! i) = k then Some (length (runners st))
          else handle st (cr_chain ((runners st @ [?r]) ! i))) = Some i"
        using i sup_invD(4) [OF assms(1), of i] assms(2) by (auto simp: nth_append split: if_splits)
    qed
    moreover have "fresh st k fp (length (runners st)) st'" by (simp add: fresh_def r)
    ultimately show ?thesis using h r by (simp add: nth_append)
  qed
  then show "sup_inv st'" and "j \<noteq> k \<Longrightarrow> handle st' j = handle st j" and "i < length (runners st) \<Longrightarrow> runners st' ! i = runners st ! i"
    and "length (runners st) \<le> length (runners st')"
    and "handle st' k = None \<and> \<not> can_start S k \<or> (\<exists>i. handle st' k = Some i \<and> fresh st k fp i st')"
    by blast+
qed

lemma cancel_fold:
  "length (fold (\<lambda>(k, i) rs. rs[i := cancel (rs ! i)]) xs rs) = length rs"
  "j < length rs \<Longrightarrow> fold (\<lambda>(k, i) rs. rs[i := cancel (rs ! i)]) xs rs ! j = (if j \<in> snd ` set xs then cancel (rs ! j) else rs ! j)"
proof (induction xs arbitrary: rs)
  case (Cons x xs)
  obtain k i where x: "x = (k, i)" by (cases x)
  {
    case 1
    then show ?case using Cons.IH(1) x by simp
  next
    case 2
    have "cancel (cancel r) = cancel r" for r by (simp add: cancel_def)
    moreover have "rs[i := cancel (rs ! i)] ! j = (if j = i then cancel (rs ! j) else rs ! j)" using 2 by simp
    ultimately show ?case using 2 Cons.IH(2) [of "rs[i := cancel (rs ! i)]"] x by (cases "j = i") simp_all
  }
qed simp_all

lemma handle_stop: "handle (stop_inactive active st) k = (if k \<in> fst ` set active then handle st k else None)"
proof -
  have "map_of (filter (\<lambda>(k, i). k \<in> A) xs) k = (if k \<in> A then map_of xs k else None)" for A and xs :: "(i64 \<times> nat) list"
    by (induction xs) auto
  then show ?thesis by (simp add: handle_def stop_inactive_def)
qed

lemma handle_iff_mem: "sup_inv st \<Longrightarrow> handle st k = Some i \<longleftrightarrow> (k, i) \<in> set (running st)"
  using sup_invD(1) [of st] by (simp add: handle_def map_of_eq_Some_iff)

lemma handle_inj: "sup_inv st \<Longrightarrow> handle st k = Some i \<Longrightarrow> handle st j = Some i \<Longrightarrow> k = j"
  using sup_invD(3) by metis

lemma stopped_runner:
  assumes "sup_inv st" and "i < length (runners st)"
  shows "runners (stop_inactive active st) ! i =
    (if \<exists>k. handle st k = Some i \<and> k \<notin> fst ` set active then cancel (runners st ! i) else runners st ! i)"
proof -
  let ?gone = "filter (\<lambda>(k, i). k \<notin> fst ` set active) (running st)"
  have iff: "i \<in> snd ` set ?gone \<longleftrightarrow> (\<exists>k. handle st k = Some i \<and> k \<notin> fst ` set active)"
    unfolding handle_iff_mem [OF assms(1)] by (auto simp: image_iff)
  have "runners (stop_inactive active st) = fold (\<lambda>(k, i) rs. rs[i := cancel (rs ! i)]) ?gone (runners st)"
    by (simp add: stop_inactive_def)
  then show ?thesis using cancel_fold(2) [OF assms(2), of ?gone] by (simp only: iff)
qed

lemma stop_inactive_effect:
  assumes "sup_inv st"
  shows "sup_inv (stop_inactive active st)" and "length (runners (stop_inactive active st)) = length (runners st)"
    and "handle st k = Some i \<Longrightarrow> k \<in> fst ` set active \<Longrightarrow> runners (stop_inactive active st) ! i = runners st ! i"
proof -
  show len: "length (runners (stop_inactive active st)) = length (runners st)"
    by (simp add: stop_inactive_def cancel_fold(1))
  have a: "aged (runners st ! i) (runners (stop_inactive active st) ! i)" if "i < length (runners st)" for i
    using stopped_runner [OF assms that] by simp
  show "sup_inv (stop_inactive active st)"
    unfolding sup_inv_def len handle_stop
  proof (intro conjI allI impI)
    show "distinct (map fst (running (stop_inactive active st)))"
      using sup_invD(1) [OF assms] by (simp add: stop_inactive_def distinct_map_filter)
  next
    fix k i assume "(if k \<in> fst ` set active then handle st k else None) = Some i"
    then have h: "handle st k = Some i" by (simp split: if_splits)
    note sup_invD(2,3) [OF assms h]
    then show "i < length (runners st)" "cr_chain (runners (stop_inactive active st) ! i) = k"
      using a [of i] by (auto simp: aged_def)
  next
    fix i assume i: "i < length (runners st)"
    show "runner_ok (runners (stop_inactive active st) ! i)" using a [OF i] sup_invD(5) [OF assms i] by (simp add: aged_def)
    assume c: "\<not> cr_cancelled (runners (stop_inactive active st) ! i)"
    then have h: "handle st (cr_chain (runners st ! i)) = Some i"
      using a [OF i] sup_invD(4) [OF assms i] by (auto simp: aged_def)
    moreover have "cr_chain (runners st ! i) \<in> fst ` set active"
      using c stopped_runner [OF assms i, of active] h by (auto simp: cancel_def split: if_splits)
    ultimately show "(if cr_chain (runners (stop_inactive active st) ! i) \<in> fst ` set active
        then handle st (cr_chain (runners (stop_inactive active st) ! i)) else None) = Some i"
      using a [OF i] by (simp add: aged_def)
  qed
  show "runners (stop_inactive active st) ! i = runners st ! i" if "handle st k = Some i" "k \<in> fst ` set active"
  proof -
    have "\<not> (\<exists>k'. handle st k' = Some i \<and> k' \<notin> fst ` set active)" using handle_inj [OF assms that(1)] that(2) by blast
    then show ?thesis using stopped_runner [OF assms sup_invD(2) [OF assms that(1)]] by (simp only: if_False)
  qed
qed

text \<open>What handling one active chain does.\<close>

definition key_settled :: "'c Supervisor \<Rightarrow> i64 \<Rightarrow> string \<Rightarrow> 'c sup_state \<Rightarrow> 'c sup_state \<Rightarrow> bool" where
  "key_settled S k fp st st' \<longleftrightarrow>
     (handle st' k = None \<and> \<not> can_start S k
      \<or> (\<exists>i. handle st' k = Some i \<and> fresh st k fp i st')
      \<or> (\<exists>i. handle st k = Some i \<and> handle st' k = Some i \<and> tokenConfigHash (runners st ! i) = fp
            \<and> \<not> cr_done (runners st ! i) \<and> runners st' ! i = runners st ! i))
     \<and> (\<forall>i. handle st k = Some i \<and> \<not> cr_done (runners st ! i) \<and> tokenConfigHash (runners st ! i) = fp \<longrightarrow> handle st' k = Some i)"

definition others_kept :: "i64 set \<Rightarrow> 'c sup_state \<Rightarrow> 'c sup_state \<Rightarrow> bool" where
  "others_kept ks st st' \<longleftrightarrow> length (runners st) \<le> length (runners st')
     \<and> (\<forall>j. j \<notin> ks \<longrightarrow> handle st' j = handle st j \<and> (\<forall>i. handle st j = Some i \<longrightarrow> runners st' ! i = runners st ! i))"

definition chain_settled :: "'c Supervisor \<Rightarrow> i64 \<Rightarrow> string \<Rightarrow> 'c sup_state \<Rightarrow> 'c sup_state \<Rightarrow> bool" where
  "chain_settled S k fp st st' \<longleftrightarrow> others_kept {k} st st' \<and> key_settled S k fp st st'"

lemma settled_by_start:
  assumes "sup_inv st1" and "handle st1 k = None" and "st' = snd (startChain S k fp st1)"
    and "\<forall>j. j \<noteq> k \<longrightarrow> handle st1 j = handle st j \<and> (\<forall>i. handle st j = Some i \<longrightarrow> i < length (runners st) \<and> runners st1 ! i = runners st ! i)"
    and "length (runners st1) = length (runners st)"
    and "\<forall>i. handle st k = Some i \<longrightarrow> cr_done (runners st ! i) \<or> tokenConfigHash (runners st ! i) \<noteq> fp"
  shows "sup_inv st' \<and> chain_settled S k fp st st'"
proof -
  note e = startChain_effect [OF assms(1-3)]
  have "fresh st1 k fp i st' = fresh st k fp i st'" for i by (simp add: fresh_def assms(5))
  then have f: "handle st' k = None \<and> \<not> can_start S k \<or> (\<exists>i. handle st' k = Some i \<and> fresh st k fp i st')"
    using e(5) by simp
  show ?thesis
    unfolding chain_settled_def others_kept_def key_settled_def
  proof (intro conjI allI impI)
    fix j assume "j \<notin> {k}"
    then have j: "j \<noteq> k" by simp
    show "handle st' j = handle st j" using e(2) [OF j] assms(4) j by simp
    fix i assume "handle st j = Some i"
    then show "runners st' ! i = runners st ! i" using assms(4,5) j e(3) [of i] by simp
  qed (use e(1,4) f assms(5,6) in auto)
qed

lemma reconcile_chain_settles:
  assumes "sup_inv st" and "reconcile_chain S (k, fp) st = Some st'"
  shows "sup_inv st' \<and> chain_settled S k fp st st'"
proof (cases "handle st k")
  case None
  then have s: "st' = snd (startChain S k fp st)" using assms(2) by (simp add: reconcile_chain_def handle_def)
  show ?thesis
    by (rule settled_by_start [OF assms(1) None s]) (use None sup_invD(2) [OF assms(1)] in auto)
next
  case (Some i)
  note i = sup_invD(2) [OF assms(1) Some] and ok = sup_invD(5) [OF assms(1) sup_invD(2) [OF assms(1) Some]]
  have other: "handle st j = Some n \<Longrightarrow> j \<noteq> k \<Longrightarrow> n \<noteq> i" for j n
    using handle_inj [OF assms(1) Some] by blast
  have m: "map_of (running st) k = Some i" using Some by (simp add: handle_def)
  note rm = handle_remove [OF sup_invD(1)]
  consider (dead) "cr_done (runners st ! i)" | (same) "\<not> cr_done (runners st ! i)" "tokenConfigHash (runners st ! i) = fp"
    | (changed) "\<not> cr_done (runners st ! i)" "tokenConfigHash (runners st ! i) \<noteq> fp" by blast
  then show ?thesis
  proof cases
    case dead
    then have s: "st' = snd (startChain S k fp (remove k st))" using assms(2) m by (simp add: reconcile_chain_def)
    have "cr_cancelled (runners st ! i)" using ok dead by (simp add: runner_defs)
    then have "sup_inv (remove k st)" using Some by (intro sup_inv_remove [OF assms(1)]) simp
    from this _ s show ?thesis
      by (rule settled_by_start) (use rm [OF assms(1)] dead Some sup_invD(2) [OF assms(1)] in auto)
  next
    case same
    then have "st' = st" using assms(2) m by (simp add: reconcile_chain_def)
    then show ?thesis using assms(1) same Some by (auto simp: chain_settled_def others_kept_def key_settled_def)
  next
    case changed
    let ?st0 = "on_runner i cancel st"
    obtain st1 where w: "await_done i ?st0 = Some st1" and s: "st' = snd (startChain S k fp (remove k st1))"
      using assms(2) m changed by (auto simp: reconcile_chain_def split: Option.bind_splits)
    have r0: "runners ?st0 = (runners st)[i := cancel (runners st ! i)]" "running ?st0 = running st"
      by (simp_all add: on_runner_def)
    have "runner_ok (cancel (runners st ! i))" using aged_cancel [of "runners st ! i"] ok by (simp add: aged_def)
    then obtain r where r: "runners st1 = (runners st)[i := r]" "aged (cancel (runners st ! i)) r" "cr_done r" "cr_cancelled r" "running st1 = running st"
      using await_done_effect [OF w] i r0 by (auto simp: nth_list_update)
    have inv1: "sup_inv st1"
      using sup_inv_update [OF assms(1) i _ r(1,5)] aged_trans [OF aged_cancel r(2)] by simp
    have h1: "handle st1 = handle st" using r(5) by (simp add: fun_eq_iff handle_def)
    have "sup_inv (remove k st1)" using h1 Some r(1,4) i by (intro sup_inv_remove [OF inv1]) simp
    from this _ s show ?thesis
      by (rule settled_by_start) (use rm [OF inv1] h1 r(1) other changed Some sup_invD(2) [OF assms(1)] in \<open>auto simp: nth_list_update\<close>)
  qed
qed

lemma key_settled_transfer:
  assumes "key_settled S k fp a a'" and "handle b k = handle a k" and "handle b' k = handle a' k"
    and ra: "\<And>i. handle a k = Some i \<Longrightarrow> runners b ! i = runners a ! i"
    and ra': "\<And>i. handle a' k = Some i \<Longrightarrow> runners b' ! i = runners a' ! i"
    and "length (runners b) \<le> length (runners a)" and "length (runners a') \<le> length (runners b')"
  shows "key_settled S k fp b b'"
proof -
  have keep: "\<forall>i. handle b k = Some i \<and> \<not> cr_done (runners b ! i) \<and> tokenConfigHash (runners b ! i) = fp \<longrightarrow> handle b' k = Some i"
    using assms(1-3) ra unfolding key_settled_def by metis
  show ?thesis
    using assms(1) [unfolded key_settled_def, THEN conjunct1]
  proof (elim disjE exE conjE)
    assume "handle a' k = None" "\<not> can_start S k"
    then show ?thesis unfolding key_settled_def using assms(3) by (intro conjI keep) simp
  next
    fix i
    assume i: "handle a' k = Some i" "fresh a k fp i a'"
    then have "fresh b k fp i b'" using ra' [of i] assms(6,7) unfolding fresh_def by simp
    then show ?thesis unfolding key_settled_def using i assms(3) by (intro conjI keep) simp
  next
    fix i
    assume "handle a k = Some i" "handle a' k = Some i" "tokenConfigHash (runners a ! i) = fp" "\<not> cr_done (runners a ! i)"
      "runners a' ! i = runners a ! i"
    then show ?thesis unfolding key_settled_def using ra [of i] ra' [of i] assms(2,3) by (intro conjI keep) simp
  qed
qed

lemma others_keptD:
  assumes "others_kept ks st st'"
  shows "length (runners st) \<le> length (runners st')" and "j \<notin> ks \<Longrightarrow> handle st' j = handle st j"
    and "j \<notin> ks \<Longrightarrow> handle st j = Some i \<Longrightarrow> runners st' ! i = runners st ! i"
  using assms unfolding others_kept_def by blast+

lemma key_settled_later:
  assumes "key_settled S k fp st st1" and "others_kept ks st1 st'" and "k \<notin> ks"
  shows "key_settled S k fp st st'"
  by (rule key_settled_transfer [OF assms(1)]) (use others_keptD [OF assms(2)] assms(3) in simp_all)

lemma key_settled_earlier:
  assumes "others_kept ks st st1" and "k \<notin> ks" and "key_settled S k fp st1 st'"
  shows "key_settled S k fp st st'"
  by (rule key_settled_transfer [OF assms(3)]) (use others_keptD [OF assms(1)] assms(2) in simp_all)

lemma others_kept_trans: "others_kept A st st1 \<Longrightarrow> others_kept B st1 st' \<Longrightarrow> others_kept (A \<union> B) st st'"
  by (auto simp: others_kept_def)

lemma reconcile_chains_settles:
  assumes "sup_inv st" and "reconcile_chains S xs st = Some st'" and "distinct (map fst xs)"
  shows "sup_inv st' \<and> others_kept (fst ` set xs) st st' \<and> (\<forall>(k, fp) \<in> set xs. key_settled S k fp st st')"
  using assms
proof (induction xs arbitrary: st)
  case Nil
  then show ?case by (simp add: others_kept_def)
next
  case (Cons x xs)
  obtain k fp where x: "x = (k, fp)" by (cases x)
  obtain st1 where s: "reconcile_chain S (k, fp) st = Some st1" "reconcile_chains S xs st1 = Some st'"
    using Cons.prems(2) x by (auto split: Option.bind_splits)
  have one: "sup_inv st1" "others_kept {k} st st1" "key_settled S k fp st st1"
    using reconcile_chain_settles [OF Cons.prems(1) s(1)] by (simp_all add: chain_settled_def)
  have k: "k \<notin> fst ` set xs" using Cons.prems(3) x by simp
  have rest: "sup_inv st'" "others_kept (fst ` set xs) st1 st'" "\<forall>(k, fp) \<in> set xs. key_settled S k fp st1 st'"
    using Cons.IH [OF one(1) s(2)] Cons.prems(3) by simp_all
  have "key_settled S j fj st st'" if "(j, fj) \<in> set xs" for j fj
  proof (rule key_settled_earlier [OF one(2)])
    show "j \<notin> {k}" using k that by (auto simp: image_iff)
    show "key_settled S j fj st1 st'" using rest(3) that by blast
  qed
  moreover have "key_settled S k fp st st'" using key_settled_later [OF one(3) rest(2) k] .
  moreover have "others_kept (fst ` set (x # xs)) st st'" using others_kept_trans [OF one(2) rest(2)] x by simp
  ultimately show ?case using rest(1) x by auto
qed

lemma active_map_keys: "distinct (map fst (active_map infos))" "fst ` set (active_map infos) = info_ChainID ` set infos"
proof -
  have "distinct (map fst (fold (\<lambda>i. AList.update (info_ChainID i) (TokenConfigHash i)) xs m)) \<and>
      fst ` set (fold (\<lambda>i. AList.update (info_ChainID i) (TokenConfigHash i)) xs m) = info_ChainID ` set xs \<union> fst ` set m"
    if "distinct (map fst m)" for m :: "(i64 \<times> string) list" and xs :: "ChainInfo list"
    using that by (induction xs arbitrary: m) (auto simp: distinct_update dom_update)
  from this [of "[]" infos] show "distinct (map fst (active_map infos))" "fst ` set (active_map infos) = info_ChainID ` set infos"
    by (auto simp: active_map_def)
qed

text \<open>The whole reconcile, for any order in which the map is ranged over.\<close>

lemma reconcile_effect:
  assumes "sup_inv st" and "reconcile S st = Some (e, st')" and "\<forall>xs. mset (map_order S xs) = mset xs"
  shows "sup_inv st'" and "length (runners st) \<le> length (runners st')"
    and "e = None \<Longrightarrow> \<exists>infos. ActiveChains_op (sup_source S) (src_st st) = (Inr infos, snd (ActiveChains_op (sup_source S) (src_st st)))
      \<and> (\<forall>k. k \<notin> info_ChainID ` set infos \<longrightarrow> handle st' k = None)
      \<and> (\<forall>(k, fp) \<in> set (active_map infos). key_settled S k fp st st')"
proof -
  obtain x c where x: "ActiveChains_op (sup_source S) (src_st st) = (x, c)" by fastforce
  have "sup_inv st' \<and> length (runners st) \<le> length (runners st') \<and> (e = None \<longrightarrow> (\<exists>infos. x = Inr infos
      \<and> (\<forall>k. k \<notin> info_ChainID ` set infos \<longrightarrow> handle st' k = None)
      \<and> (\<forall>(k, fp) \<in> set (active_map infos). key_settled S k fp st st')))"
  proof (cases x)
    case (Inl err)
    then have "st' = st\<lparr>src_st := c\<rparr>" "e = Some (Wrap ''ActiveChains'' err)" using assms(2) x by (auto simp: reconcile_def)
    then show ?thesis using sup_inv_cong [OF assms(1), of st'] by simp
  next
    case (Inr infos)
    let ?a = "active_map infos" and ?st0 = "st\<lparr>src_st := c\<rparr>"
    obtain st1 where s: "reconcile_chains S (map_order S ?a) (stop_inactive ?a ?st0) = Some st1"
        "st' = st1\<lparr>sup_m := (sup_m st1)\<lparr>ChainsRunning := length (running st1)\<rparr>\<rparr>"
      using assms(2) x Inr by (auto simp: reconcile_def split: Option.bind_splits)
    have i0: "sup_inv ?st0" using sup_inv_cong [OF assms(1), of ?st0] by simp
    have perm: "mset (map_order S ?a) = mset ?a" using assms(3) by blast
    have "mset (map fst (map_order S ?a)) = mset (map fst ?a)" using perm by simp
    then have d: "distinct (map fst (map_order S ?a))" using active_map_keys(1) by (metis mset_eq_imp_distinct_iff)
    have set: "set (map_order S ?a) = set ?a" using perm by (rule mset_eq_setD)
    note e1 = stop_inactive_effect [OF i0, where active = ?a]
    have r: "sup_inv st1" "others_kept (fst ` set ?a) (stop_inactive ?a ?st0) st1"
        "\<forall>(k, fp) \<in> set ?a. key_settled S k fp (stop_inactive ?a ?st0) st1"
      using reconcile_chains_settles [OF e1(1) s(1) d] set by simp_all
    have h': "handle st' = handle st1" "runners st' = runners st1" using s(2) by (simp_all add: fun_eq_iff handle_def)
    have h0: "handle ?st0 = handle st" by (simp add: fun_eq_iff handle_def)
    have "key_settled S k fp st st'" if kf: "(k, fp) \<in> set ?a" for k fp
    proof (rule key_settled_transfer)
      show "key_settled S k fp (stop_inactive ?a ?st0) st1" using r(3) kf by blast
      have k: "k \<in> fst ` set ?a" using kf by (metis fst_conv image_eqI)
      then show hk: "handle st k = handle (stop_inactive ?a ?st0) k" by (simp add: handle_stop h0)
      show "runners st ! i = runners (stop_inactive ?a ?st0) ! i" if "handle (stop_inactive ?a ?st0) k = Some i" for i
        using e1(3) [of k i] that k hk h0 by simp
    qed (simp_all add: e1(2) h')
    moreover have "handle st' k = None" if "k \<notin> info_ChainID ` set infos" for k
      using r(2) that active_map_keys(2) [of infos] handle_stop [of ?a ?st0 k] h' by (auto simp: others_kept_def)
    moreover have "length (runners st) \<le> length (runners st')"
      using r(2) e1(2) h'(2) by (simp add: others_kept_def)
    moreover have "sup_inv st'" using sup_inv_cong [OF r(1), of st'] s(2) by simp
    ultimately show ?thesis using Inr by blast
  qed
  then show "sup_inv st'" "length (runners st) \<le> length (runners st')"
    and "e = None \<Longrightarrow> \<exists>infos. ActiveChains_op (sup_source S) (src_st st) = (Inr infos, snd (ActiveChains_op (sup_source S) (src_st st)))
      \<and> (\<forall>k. k \<notin> info_ChainID ` set infos \<longrightarrow> handle st' k = None)
      \<and> (\<forall>(k, fp) \<in> set (active_map infos). key_settled S k fp st st')"
    using x by auto
qed

section \<open>Lemmas: a reconcile returns\<close>

lemma reconcile_chain_returns:
  assumes "sup_inv st" and "\<And>i. handle st k = Some i \<Longrightarrow> obeys (runners st ! i)"
  shows "reconcile_chain S (k, fp) st \<noteq> None"
proof (cases "handle st k")
  case None
  then show ?thesis by (simp add: reconcile_chain_def handle_def)
next
  case (Some i)
  note i = sup_invD(2) [OF assms(1) Some]
  have "runner_ok (cancel (runners st ! i))"
    using aged_cancel [of "runners st ! i"] sup_invD(5) [OF assms(1) i] by (simp add: aged_def)
  then have "await_done i (on_runner i cancel st) \<noteq> None"
    using assms(2) [OF Some] i by (intro await_done_returns) (simp_all add: on_runner_def)
  moreover have "map_of (running st) k = Some i" using Some by (simp add: handle_def)
  ultimately show ?thesis by (auto simp: reconcile_chain_def)
qed

lemma reconcile_chains_returns:
  assumes "sup_inv st" and "distinct (map fst xs)" and "\<forall>k i. k \<in> fst ` set xs \<and> handle st k = Some i \<longrightarrow> obeys (runners st ! i)"
  shows "reconcile_chains S xs st \<noteq> None"
  using assms
proof (induction xs arbitrary: st)
  case (Cons x xs)
  obtain k fp where x: "x = (k, fp)" by (cases x)
  have "reconcile_chain S (k, fp) st \<noteq> None"
    using Cons.prems(3) x by (intro reconcile_chain_returns [OF Cons.prems(1)]) auto
  then obtain st1 where s: "reconcile_chain S (k, fp) st = Some st1" by blast
  note one = reconcile_chain_settles [OF Cons.prems(1) s]
  have "others_kept {k} st st1" using one by (simp add: chain_settled_def)
  note o = others_keptD [OF this]
  have "obeys (runners st1 ! i)" if "j \<in> fst ` set xs" "handle st1 j = Some i" for j i
  proof -
    have "j \<notin> {k}" using that(1) Cons.prems(2) x by auto
    then have "handle st j = Some i" "runners st1 ! i = runners st ! i" using o(2,3) [of j] that(2) by simp_all
    moreover have "j \<in> fst ` set (x # xs)" using that(1) by simp
    ultimately show ?thesis using Cons.prems(3) by metis
  qed
  then have "reconcile_chains S xs st1 \<noteq> None" using one Cons.prems(2) by (intro Cons.IH) auto
  then show ?case using s x by simp
qed simp

lemma await_all_effect:
  assumes "sup_inv st" and "\<forall>i \<in> set is. i < length (runners st) \<and> obeys (runners st ! i)"
  shows "\<exists>st'. await_all is st = Some st' \<and> sup_inv st' \<and> running st' = running st \<and> list_all2 aged (runners st) (runners st')
    \<and> (\<forall>i \<in> set is. cr_done (runners st' ! i)) \<and> (\<forall>i < length (runners st). cr_done (runners st ! i) \<longrightarrow> cr_done (runners st' ! i))"
  using assms
proof (induction "is" arbitrary: st)
  case Nil
  then show ?case by (simp add: list_all2_refl)
next
  case (Cons i "is")
  have i: "i < length (runners st)" "obeys (runners st ! i)" using Cons.prems(2) by simp_all
  note ok = sup_invD(5) [OF Cons.prems(1) i(1)]
  obtain st1 where s: "await_done i st = Some st1" using await_done_returns [OF i(2,1) ok] by blast
  obtain r where r: "runners st1 = (runners st)[i := r]" "aged (runners st ! i) r" "cr_done r" "running st1 = running st"
    by (rule await_done_effect [OF s i(1) ok])
  have inv1: "sup_inv st1" using sup_inv_update [OF Cons.prems(1) i(1) r(2,1,4)] .
  have "runner_ok r" using r(2) ok by (simp add: aged_def)
  then have "obeys r" using r(3) by (simp add: runner_defs obeys_def)
  then have "\<forall>j \<in> set is. j < length (runners st1) \<and> obeys (runners st1 ! j)"
    using Cons.prems(2) r(1) by (auto simp: nth_list_update)
  from Cons.IH [OF inv1 this] obtain st' where st': "await_all is st1 = Some st'" "sup_inv st'" "running st' = running st1"
      "list_all2 aged (runners st1) (runners st')" "\<forall>j \<in> set is. cr_done (runners st' ! j)"
      "\<forall>j < length (runners st1). cr_done (runners st1 ! j) \<longrightarrow> cr_done (runners st' ! j)"
    by blast
  have a1: "list_all2 aged (runners st) (runners st1)" using list_all2_aged_update [OF i(1) r(2)] r(1) by simp
  have "list_all2 aged (runners st) (runners st')" by (rule list_all2_trans [OF _ a1 st'(4)]) (rule aged_trans)
  moreover have "\<forall>j \<in> set (i # is). cr_done (runners st' ! j)" using st'(5,6) r(1,3) i(1) by simp
  moreover have "\<forall>j < length (runners st). cr_done (runners st ! j) \<longrightarrow> cr_done (runners st' ! j)"
  proof (intro allI impI)
    fix j assume "j < length (runners st)" "cr_done (runners st ! j)"
    then show "cr_done (runners st' ! j)" using st'(6) [rule_format, of j] r(1,3) by (cases "j = i") simp_all
  qed
  ultimately show ?case using s st'(1,2,3) r(4) by simp
qed

lemma stopAll_effect:
  assumes "sup_inv st" and "\<forall>k i. handle st k = Some i \<longrightarrow> obeys (runners st ! i)"
  shows "\<exists>st'. stopAll st = Some st' \<and> running st' = [] \<and> length (runners st') = length (runners st)
    \<and> (\<forall>i < length (runners st). cr_cancelled (runners st' ! i))
    \<and> (\<forall>k i. handle st k = Some i \<longrightarrow> cr_done (runners st' ! i) \<and> pair_ended (runners st' ! i))"
proof -
  define rs where "rs = fold (\<lambda>(k, i) rs. rs[i := cancel (rs ! i)]) (running st) (runners st)"
  define st0 where "st0 = st\<lparr>runners := rs, running := []\<rparr>"
  have len: "length rs = length (runners st)" by (simp add: rs_def cancel_fold)
  have mem: "i \<in> snd ` set (running st) \<longleftrightarrow> (\<exists>k. handle st k = Some i)" for i
    unfolding handle_iff_mem [OF assms(1)] by force
  have rs: "rs ! i = (if \<exists>k. handle st k = Some i then cancel (runners st ! i) else runners st ! i)" if "i < length rs" for i
    using cancel_fold(2) [of i "runners st" "running st"] that len unfolding rs_def [symmetric] mem by simp
  have can: "cr_cancelled (rs ! i)" if "i < length rs" for i
    using rs [OF that] sup_invD(4) [OF assms(1), of i] that len by (auto simp: cancel_def)
  have ok: "runner_ok (rs ! i)" if "i < length rs" for i
    using rs [OF that] sup_invD(5) [OF assms(1), of i] aged_cancel [of "runners st ! i"] that len by (auto simp: aged_def)
  have inv0: "sup_inv st0" using can ok by (simp add: sup_inv_def st0_def handle_def)
  have "\<forall>i \<in> set (map snd (running st)). i < length (runners st0) \<and> obeys (runners st0 ! i)"
  proof
    fix i assume "i \<in> set (map snd (running st))"
    then obtain k where "handle st k = Some i" using mem by auto
    then show "i < length (runners st0) \<and> obeys (runners st0 ! i)"
      using sup_invD(2) [OF assms(1)] assms(2) rs [of i] len by (auto simp: st0_def)
  qed
  from await_all_effect [OF inv0 this] obtain st' where st': "stopAll st = Some st'" "sup_inv st'" "running st' = []"
      "list_all2 aged rs (runners st')" "\<forall>i \<in> set (map snd (running st)). cr_done (runners st' ! i)"
    by (auto simp: stopAll_def st0_def rs_def)
  have len': "length (runners st') = length (runners st)" using list_all2_lengthD [OF st'(4)] len by simp
  moreover have "cr_cancelled (runners st' ! i)" if "i < length (runners st)" for i
    using list_all2_nthD [OF st'(4), of i] can [of i] that len by (simp add: aged_def)
  moreover have "cr_done (runners st' ! i) \<and> pair_ended (runners st' ! i)" if "handle st k = Some i" for k i
  proof -
    have "cr_done (runners st' ! i)" using st'(5) mem [of i] that by (simp add: image_iff) blast
    then show ?thesis using sup_invD(5) [OF st'(2), of i] sup_invD(2) [OF assms(1) that] len' by (simp add: runner_ok_def)
  qed
  ultimately show ?thesis using st'(1,3) by blast
qed

section \<open>The supervisor as a state machine\<close>

inductive sup_step :: "'c Supervisor \<Rightarrow> 'c sup_state \<Rightarrow> 'c sup_state \<Rightarrow> bool" for S where
  step_reconcile: "reconcile S st = Some (e, st') \<Longrightarrow> sup_step S st st'"
| step_count: "sup_step S st (count_reconcile e st)"
| step_loop: "sup_step S st (loop_ends name i x st)"
| step_done: "sup_step S st (done_closes i st)"
| step_world: "sup_step S st (st\<lparr>src_st := f (src_st st)\<rparr>)"


lemma loop_ends_inv: "sup_inv st \<Longrightarrow> sup_inv (loop_ends name i x st)"
  using sup_inv_update [of st i "end_goroutine name (cancel (runners st ! i))" "runLoop name i x st"]
  by (simp add: loop_ends_def runLoop_effect)

lemma done_closes_inv:
  assumes "sup_inv st"
  shows "sup_inv (done_closes i st)"
proof (cases "i < length (runners st) \<and> pair_ended (runners st ! i)")
  case True
  then have "aged (runners st ! i) ((runners st ! i)\<lparr>cr_done := True\<rparr>)" by (simp add: runner_defs)
  with True show ?thesis
    by (intro sup_inv_update [OF assms, of i]) (simp_all add: done_closes_def close_done_def on_runner_def)
qed (use assms in \<open>auto simp: done_closes_def\<close>)

lemma sup_step_inv:
  assumes "sup_step S st st'" and "sup_inv st" and "\<forall>xs. mset (map_order S xs) = mset xs"
  shows "sup_inv st'"
  using assms(1)
proof (cases rule: sup_step.cases)
  case (step_reconcile e)
  then show ?thesis using reconcile_effect(1) assms(2,3) by blast
next
  case (step_count e)
  then show ?thesis using sup_inv_cong [OF assms(2), of st'] by (simp add: count_reconcile_def)
next
  case (step_world f)
  then show ?thesis using sup_inv_cong [OF assms(2), of st'] by simp
qed (simp_all add: loop_ends_inv done_closes_inv assms(2))

lemma new_supervisor_inv: "sup_inv (new_supervisor c)"
  by (simp add: sup_inv_def new_supervisor_def handle_def)

lemma sup_reach_inv:
  "(sup_step S)\<^sup>*\<^sup>* st st' \<Longrightarrow> sup_inv st \<Longrightarrow> \<forall>xs. mset (map_order S xs) = mset xs \<Longrightarrow> sup_inv st'"
  by (induction rule: rtranclp_induct) (auto intro: sup_step_inv)

text \<open>The executable run takes only steps of the machine.\<close>

lemma run_events_steps:
  "run_events S es st = Some (Sup_Running, st') \<Longrightarrow> (sup_step S)\<^sup>*\<^sup>* st st'"
proof (induction es arbitrary: st)
  case Nil
  then show ?case by simp
next
  case (Cons x es)
  show ?case
  proof (cases x)
    case Tick_E
    then obtain e st1 where s: "reconcile S st = Some (e, st1)" "run_events S es (count_reconcile e st1) = Some (Sup_Running, st')"
      using Cons.prems by (auto split: Option.bind_splits)
    have "sup_step S st st1" "sup_step S st1 (count_reconcile e st1)" using s(1) by (auto intro: sup_step.intros)
    with Cons.IH [OF s(2)] show ?thesis by (meson converse_rtranclp_into_rtranclp)
  next
    case (Ctx_E e)
    then show ?thesis using Cons.prems by (auto split: Option.bind_splits)
  next
    case (Loop_E name i y)
    then show ?thesis using Cons.prems Cons.IH by (auto intro: converse_rtranclp_into_rtranclp step_loop)
  next
    case (Done_E i)
    then show ?thesis using Cons.prems Cons.IH by (auto intro: converse_rtranclp_into_rtranclp step_done)
  next
    case (World_E f)
    then show ?thesis using Cons.prems Cons.IH by (auto intro: converse_rtranclp_into_rtranclp step_world)
  qed
qed

section \<open>Properties\<close>

text \<open>
  C4. Never two active scanners for one chain. However reconciles, ends of loops (errors and panics included) and changes
  of the tables follow each other, and in whatever order a reconcile visits the chains: two different runners of the
  same chain never both have a live context, and a loop that ended has taken its pair down.
\<close>

theorem one_runner_per_chain:
  assumes "Supervisor_Run S es (new_supervisor c) = Some (Sup_Running, st)" and "\<forall>xs. mset (map_order S xs) = mset xs"
    and "i < length (runners st)" and "\<not> cr_cancelled (runners st ! i)"
  shows "cr_log (runners st ! i) \<noteq> Ended \<and> cr_trace (runners st ! i) \<noteq> Ended
    \<and> (\<forall>j < length (runners st). cr_chain (runners st ! j) = cr_chain (runners st ! i) \<and> \<not> cr_cancelled (runners st ! j) \<longrightarrow> j = i)"
proof -
  obtain e st1 where s: "reconcile S (new_supervisor c) = Some (e, st1)" "run_events S es st1 = Some (Sup_Running, st)"
    using assms(1) by (auto simp: Supervisor_Run_def split: Option.bind_splits if_splits)
  have "(sup_step S)\<^sup>*\<^sup>* (new_supervisor c) st"
    using step_reconcile [OF s(1)] run_events_steps [OF s(2)] by (rule converse_rtranclp_into_rtranclp)
  then have inv: "sup_inv st" by (rule sup_reach_inv [OF _ new_supervisor_inv assms(2)])
  have "handle st (cr_chain (runners st ! i)) = Some i" using sup_invD(4) [OF inv assms(3,4)] .
  moreover have "cr_log (runners st ! i) \<noteq> Ended" "cr_trace (runners st ! i) \<noteq> Ended"
    using sup_invD(5) [OF inv assms(3)] assms(4) by (auto simp: runner_ok_def)
  moreover have "j = i" if "j < length (runners st)" "cr_chain (runners st ! j) = cr_chain (runners st ! i)" "\<not> cr_cancelled (runners st ! j)" for j
    using sup_invD(4) [OF inv that(1,3)] that(2) calculation(1) by simp
  ultimately show ?thesis by blast
qed

text \<open>A source whose state is the list of active chains, with loops that end when told to.\<close>

definition sample_source :: "(i64 \<times> string) list ChainSource" where
  "sample_source = \<lparr>ActiveChains_op = (\<lambda>c. (Inr (map (\<lambda>(k, h). \<lparr>info_ChainID = k, info_RPCURL = [], TokenConfigHash = h\<rparr>) c), c)),
     ChainConfig_op = (\<lambda>k c. (Inr \<lparr>cc_ChainID = k, cc_RPCURL = [], cc_Native = ''ETH'', cc_Decimals = 18, cc_BlockTimeMs = 12000,
       cc_PollingIntervalMs = 4000, cc_MinConfirmations = 12, cc_ChainType = ''erc20'', cc_Contracts = []\<rparr>, c))\<rparr>"

definition polite :: LoopRunner where
  "polite = \<lparr>on_cancel = Some (Returns (Some Canceled))\<rparr>"

definition sample_supervisor :: "(i64 \<times> string) list Supervisor" where
  "sample_supervisor = \<lparr>sup_source = sample_source, sup_builder = (\<lambda>cfg c. (Inr (polite, polite), c)), map_order = (\<lambda>xs. xs),
     sup_PollIntervalMs = 300000\<rparr>"

definition sample_runner :: "string \<Rightarrow> bool \<Rightarrow> bool \<Rightarrow> chainRunner" where
  "sample_runner h gone closed = \<lparr>cr_chain = 1, tokenConfigHash = h, cr_cancelled = gone, cr_log = (if closed then Ended else Live polite),
     cr_trace = (if closed then Ended else Live polite), cr_done = closed\<rparr>"

lemmas sup_eval = reconcile_def reconcile_chain_def startChain_def stop_inactive_def active_map_def sample_supervisor_def
  sample_source_def await_done_def await_loop_def runLoop_def on_runner_def close_done_def remove_def count_reconcile_def
  loop_ends_def done_closes_def pair_ended_def count_panic_def cancel_def new_supervisor_def sample_runner_def
  ticker_ok_def Millisecond_def wrap64_id

text \<open>The log loop of chain 1 panics, the pair goes down, the next reconcile starts a new one.\<close>

lemma sample_run:
  "\<exists>st. Supervisor_Run sample_supervisor [Loop_E LogLoop 0 Panics, Loop_E TraceLoop 0 (Returns (Some Canceled)), Done_E 0, Tick_E]
      (new_supervisor [(1, ''h'')]) = Some (Sup_Running, st)
    \<and> runners st = [sample_runner ''h'' True True, sample_runner ''h'' False False] \<and> SupervisorPanics (sup_m st) = [(1, LogLoop)]"
  by (simp add: Supervisor_Run_def sup_eval)

theorem one_runner_per_chain_witness:
  "\<exists>st. Supervisor_Run sample_supervisor [Loop_E LogLoop 0 Panics, Loop_E TraceLoop 0 (Returns (Some Canceled)), Done_E 0, Tick_E]
      (new_supervisor [(1, ''h'')]) = Some (Sup_Running, st)
    \<and> length (runners st) = 2 \<and> (\<forall>j < 2. cr_chain (runners st ! j) = 1 \<and> \<not> cr_cancelled (runners st ! j) \<longrightarrow> j = 1)"
proof -
  obtain st where st: "Supervisor_Run sample_supervisor [Loop_E LogLoop 0 Panics, Loop_E TraceLoop 0 (Returns (Some Canceled)), Done_E 0, Tick_E]
      (new_supervisor [(1, ''h'')]) = Some (Sup_Running, st)" "runners st = [sample_runner ''h'' True True, sample_runner ''h'' False False]"
    using sample_run by blast
  then have "cr_chain (runners st ! 1) = 1" "\<not> cr_cancelled (runners st ! 1)" "length (runners st) = 2" by (simp_all add: sample_runner_def)
  with one_runner_per_chain [OF st(1), of 1] st(1) show ?thesis by (auto simp: sample_supervisor_def)
qed

lemma key_settledD:
  assumes "key_settled S k fp st st'" and "sup_inv st"
  shows "can_start S k \<Longrightarrow> \<exists>i. handle st' k = Some i \<and> tokenConfigHash (runners st' ! i) = fp"
    and "handle st k = Some i \<Longrightarrow> \<not> cr_done (runners st ! i) \<Longrightarrow> tokenConfigHash (runners st ! i) = fp \<Longrightarrow>
      handle st' k = Some i \<and> runners st' ! i = runners st ! i"
    and "handle st k = Some i \<Longrightarrow> cr_done (runners st ! i) \<Longrightarrow> can_start S k \<Longrightarrow>
      \<exists>j. handle st' k = Some j \<and> j \<noteq> i \<and> \<not> cr_cancelled (runners st' ! j)"
proof -
  note d = assms(1) [unfolded key_settled_def]
  show "\<exists>i. handle st' k = Some i \<and> tokenConfigHash (runners st' ! i) = fp" if "can_start S k"
    using d that by (auto simp: fresh_def)
  show "handle st' k = Some i \<and> runners st' ! i = runners st ! i"
    if h: "handle st k = Some i" "\<not> cr_done (runners st ! i)" "tokenConfigHash (runners st ! i) = fp"
  proof -
    have "handle st' k = Some i" using d h by blast
    moreover have "\<not> fresh st k fp i st'" using sup_invD(2) [OF assms(2) h(1)] by (simp add: fresh_def)
    ultimately show ?thesis using d [THEN conjunct1] h(1) by (elim disjE exE conjE) simp_all
  qed
  show "\<exists>j. handle st' k = Some j \<and> j \<noteq> i \<and> \<not> cr_cancelled (runners st' ! j)"
    if h: "handle st k = Some i" "cr_done (runners st ! i)" "can_start S k"
  proof -
    obtain j where "handle st' k = Some j" "fresh st k fp j st'" using d h by auto
    then show ?thesis using sup_invD(2) [OF assms(2) h(1)] by (auto simp: fresh_def)
  qed
qed


text \<open>Chain 1 runs with an old fingerprint, chain 2 is no longer active, chain 3 is new.\<close>

definition before_reconcile :: "(i64 \<times> string) list sup_state" where
  "before_reconcile = \<lparr>src_st = [(1, ''new''), (3, ''h3'')], runners = [sample_runner ''old'' False False, (sample_runner ''h2'' False False)\<lparr>cr_chain := 2\<rparr>],
     running = [(1, 0), (2, 1)], sup_m = \<lparr>ReconcilesSuccess = 0, ReconcilesError = 0, ChainsRunning = 2, SupervisorPanics = []\<rparr>\<rparr>"

lemma before_reconcile_inv: "sup_inv before_reconcile"
  by (auto simp: sup_inv_def before_reconcile_def handle_def sample_runner_def runner_ok_def pair_ended_def less_Suc_eq split: if_splits)


text \<open>
  C17. The supervisor does not hang as long as the loops obey. If every loop of a registered runner ends once its
  context is cancelled, a reconcile returns, and \<^verbatim>\<open>stopAll\<close> returns with every runner ever started cancelled, nothing
  registered and both loops of each registered runner ended.
\<close>

theorem supervisor_never_hangs:
  assumes "sup_inv st" and "\<forall>k i. handle st k = Some i \<longrightarrow> obeys (runners st ! i)" and "\<forall>xs. mset (map_order S xs) = mset xs"
  shows "reconcile S st \<noteq> None \<and> (\<exists>st'. stopAll st = Some st' \<and> running st' = [] \<and> length (runners st') = length (runners st)
    \<and> (\<forall>i < length (runners st). cr_cancelled (runners st' ! i))
    \<and> (\<forall>k i. handle st k = Some i \<longrightarrow> cr_done (runners st' ! i) \<and> cr_log (runners st' ! i) = Ended \<and> cr_trace (runners st' ! i) = Ended))"
proof
  show "reconcile S st \<noteq> None"
  proof (cases "ActiveChains_op (sup_source S) (src_st st)")
    case (Pair x c)
    show ?thesis
    proof (cases x)
      case (Inl e)
      with Pair show ?thesis by (simp add: reconcile_def)
    next
      case (Inr infos)
      let ?a = "active_map infos" and ?st0 = "st\<lparr>src_st := c\<rparr>"
      have i0: "sup_inv ?st0" using sup_inv_cong [OF assms(1), of ?st0] by simp
      note e = stop_inactive_effect [OF i0, where active = ?a]
      have h0: "handle ?st0 = handle st" by (simp add: fun_eq_iff handle_def)
      have "mset (map fst (map_order S ?a)) = mset (map fst ?a)" using assms(3) by simp
      then have "distinct (map fst (map_order S ?a))" using active_map_keys(1) by (metis mset_eq_imp_distinct_iff)
      moreover have "obeys (runners (stop_inactive ?a ?st0) ! i)" if "handle (stop_inactive ?a ?st0) k = Some i" for k i
      proof -
        have k: "k \<in> fst ` set ?a" "handle st k = Some i" using that h0 by (simp_all add: handle_stop split: if_splits)
        then show ?thesis using e(3) [of k i] assms(2) h0 by simp
      qed
      ultimately have "reconcile_chains S (map_order S ?a) (stop_inactive ?a ?st0) \<noteq> None"
        using e(1) by (intro reconcile_chains_returns) blast+
      with Pair Inr show ?thesis by (auto simp: reconcile_def)
    qed
  qed
  show "\<exists>st'. stopAll st = Some st' \<and> running st' = [] \<and> length (runners st') = length (runners st)
    \<and> (\<forall>i < length (runners st). cr_cancelled (runners st' ! i))
    \<and> (\<forall>k i. handle st k = Some i \<longrightarrow> cr_done (runners st' ! i) \<and> cr_log (runners st' ! i) = Ended \<and> cr_trace (runners st' ! i) = Ended)"
    using stopAll_effect [OF assms(1,2)] unfolding pair_ended_def .
qed

theorem supervisor_never_hangs_witness:
  "reconcile sample_supervisor before_reconcile \<noteq> None
    \<and> (\<exists>st'. stopAll before_reconcile = Some st' \<and> running st' = [] \<and> cr_log (runners st' ! 0) = Ended \<and> cr_trace (runners st' ! 1) = Ended)"
proof -
  have h: "handle before_reconcile k = (if k = 1 then Some 0 else if k = 2 then Some 1 else None)" for k
    by (simp add: before_reconcile_def handle_def)
  have "\<forall>k i. handle before_reconcile k = Some i \<longrightarrow> obeys (runners before_reconcile ! i)"
    unfolding h by (simp add: before_reconcile_def obeys_def sample_runner_def polite_def)
  moreover have "\<forall>xs. mset (map_order sample_supervisor xs) = mset xs" by (simp add: sample_supervisor_def)
  note supervisor_never_hangs [OF before_reconcile_inv _ this]
  ultimately have "reconcile sample_supervisor before_reconcile \<noteq> None \<and> (\<exists>st'. stopAll before_reconcile = Some st' \<and> running st' = []
    \<and> (\<forall>k i. handle before_reconcile k = Some i \<longrightarrow> cr_done (runners st' ! i) \<and> cr_log (runners st' ! i) = Ended \<and> cr_trace (runners st' ! i) = Ended))"
    by blast
  moreover have "handle before_reconcile 1 = Some 0" "handle before_reconcile 2 = Some 1" by (simp_all add: h)
  ultimately show ?thesis by blast
qed

text \<open>
  Stopping an inactive chain does not wait for its loops: when the chain is active again at a later reconcile, the old
  pair, although cancelled, may still be working next to the new one.
\<close>

theorem stopped_chain_may_overlap:
  "\<exists>st. Supervisor_Run sample_supervisor [World_E (\<lambda>c. []), Tick_E, World_E (\<lambda>c. [(1, ''h'')]), Tick_E] (new_supervisor [(1, ''h'')])
      = Some (Sup_Running, st)
    \<and> length (runners st) = 2 \<and> (\<forall>i < 2. cr_chain (runners st ! i) = 1 \<and> cr_log (runners st ! i) \<noteq> Ended \<and> cr_trace (runners st ! i) \<noteq> Ended)"
  by (simp add: Supervisor_Run_def sup_eval less_2_cases_iff)

section \<open>The supervisor over a chain source\<close>

text \<open>
  A supervisor whose source keeps its contract and whose builder leaves the tables alone: \<open>chains\<close> then says what a
  reconcile aims at.
\<close>

locale supervised = chain_source +
  fixes S :: "'a Supervisor"
  assumes source: "sup_source S = Src"
    and builder_frame: "inv c \<Longrightarrow> sup_builder S cfg c = (b, c') \<Longrightarrow> inv c' \<and> chains c' = chains c"
begin

lemma active_map_chains:
  assumes "inv c" and "ActiveChains_op Src c = (Inr infos, c')"
  shows "active_map infos = chains c"
proof -
  have "active_map infos = fold (\<lambda>x. AList.update (fst x) (snd x)) (map (\<lambda>i. (info_ChainID i, TokenConfigHash i)) infos) []"
    by (simp add: active_map_def fold_map comp_def)
  also have "\<dots> = chains c"
    using fold_update_fresh [of "[]" "chains c"] chains_distinct [OF assms(1)] active_result [OF assms] by simp
  finally show ?thesis .
qed

text \<open>A successful reconcile registers only active chains, and each of them that can be started, with its fingerprint.\<close>

lemma reconcile_matches_chains:
  assumes "sup_inv st" and "inv (src_st st)" and "reconcile S st = Some (None, st')" and "\<forall>xs. mset (map_order S xs) = mset xs"
  shows "k \<notin> fst ` set (chains (src_st st)) \<Longrightarrow> handle st' k = None"
    and "(k, fp) \<in> set (chains (src_st st)) \<Longrightarrow> can_start S k \<Longrightarrow> \<exists>i. handle st' k = Some i \<and> tokenConfigHash (runners st' ! i) = fp"
proof -
  obtain infos c where a: "ActiveChains_op Src (src_st st) = (Inr infos, c)"
      and none: "\<forall>k. k \<notin> info_ChainID ` set infos \<longrightarrow> handle st' k = None"
      and settled: "\<forall>(k, fp) \<in> set (active_map infos). key_settled S k fp st st'"
    using reconcile_effect(3) [OF assms(1,3,4) refl] source by auto
  have ids: "info_ChainID ` set infos = fst ` set (chains (src_st st))"
    using active_ids [OF assms(2) a] by (metis list.set_map)
  show "handle st' k = None" if "k \<notin> fst ` set (chains (src_st st))" using none ids that by simp
  show "\<exists>i. handle st' k = Some i \<and> tokenConfigHash (runners st' ! i) = fp" if "(k, fp) \<in> set (chains (src_st st))" "can_start S k"
    using settled active_map_chains [OF assms(2) a] that key_settledD(1) [OF _ assms(1)] by fastforce
qed

end

text \<open>A fact about the state of the source that its calls and the builder keep is kept by the chains' part of a reconcile.\<close>

lemma startChain_source:
  assumes "P (src_st st)" and "\<And>k c. P c \<Longrightarrow> P (snd (ChainConfig_op (sup_source S) k c))" and "\<And>cfg c. P c \<Longrightarrow> P (snd (sup_builder S cfg c))"
  shows "P (src_st (snd (startChain S k fp st)))"
proof -
  obtain x c1 where x: "ChainConfig_op (sup_source S) k (src_st st) = (x, c1)" by fastforce
  have p1: "P c1" using assms(2) [OF assms(1), of k] x by simp
  show ?thesis
  proof (cases x)
    case (Inl e)
    with x p1 show ?thesis by (simp add: startChain_def)
  next
    case (Inr cfg)
    obtain y c2 where y: "sup_builder S cfg c1 = (y, c2)" by fastforce
    have "P c2" using assms(3) [OF p1, of cfg] y by simp
    with x y Inr show ?thesis by (cases y) (auto simp: startChain_def)
  qed
qed

lemma await_done_source: "await_done i st = Some st' \<Longrightarrow> src_st st' = src_st st"
  by (auto simp: await_done_def await_loop_def close_done_def on_runner_def runLoop_effect
      split: if_splits Option.bind_splits goroutine.splits option.splits)

lemma reconcile_chains_source:
  assumes "reconcile_chains S xs st = Some st'" and "P (src_st st)"
    and "\<And>k c. P c \<Longrightarrow> P (snd (ChainConfig_op (sup_source S) k c))" and "\<And>cfg c. P c \<Longrightarrow> P (snd (sup_builder S cfg c))"
  shows "P (src_st st')"
  using assms(1,2)
proof (induction xs arbitrary: st)
  case (Cons x xs)
  obtain k fp where x: "x = (k, fp)" by (cases x)
  obtain st1 where s: "reconcile_chain S (k, fp) st = Some st1" "reconcile_chains S xs st1 = Some st'"
    using Cons.prems(1) x by (auto split: Option.bind_splits)
  have "P (src_st st1)"
    using s(1) startChain_source [OF _ assms(3,4)] Cons.prems(2)
    by (auto simp: reconcile_chain_def on_runner_def dest: await_done_source split: option.splits if_splits Option.bind_splits)
  then show ?case using Cons.IH s(2) by blast
qed simp

end
