(* ===== verification/Config_Repo.thy ===== *)
theory Config_Repo
  imports Chain_Source "HOL-Library.Multiset" "HOL-Library.List_Lexorder" "HOL-Library.Char_ord"
begin

text \<open>
  \<^verbatim>\<open>internal/database/config_repo.go\<close>: the chains to scan and their tokens. Both tables belong to the Adapter and are
  only read. SHA-256 and the order that \<^verbatim>\<open>sort.Slice\<close> gives equal keys are parameters, as is the collation by which
  the server orders the tokens of a chain.
\<close>

section \<open>Tables and pool\<close>

record chain_row =
  c_chain_id :: i64
  c_name :: string
  c_rpc_url :: string
  c_native :: string
  c_decimals :: int
  c_block_time :: int \<comment> \<open>seconds\<close>
  c_confirmations :: int
  c_chain_type :: "string option"
  c_active :: bool

record token_row =
  t_chain_id :: i64
  t_contract_address :: string
  t_symbol :: string
  t_decimals :: int
  t_active :: bool

record cfg_pool =
  chain_tbl :: "chain_row list"
  token_tbl :: "token_row list"
  collate :: "token_row list \<Rightarrow> token_row list"
  cfg_outcomes :: "outcome list"

record hash_lib =
  sha256_hex :: "string \<Rightarrow> string"
  sort_slice :: "(string \<times> ContractInfo) list \<Rightarrow> (string \<times> ContractInfo) list"

definition cfg_outcome :: "cfg_pool \<Rightarrow> goerror option \<times> cfg_pool" where
  "cfg_outcome p = (case cfg_outcomes p of [] \<Rightarrow> (None, p) | x # xs \<Rightarrow> (outcome_error x, p\<lparr>cfg_outcomes := xs\<rparr>))"

section \<open>fingerprint\<close>

definition token_part :: "string \<times> ContractInfo \<Rightarrow> string" where
  "token_part t = ''|'' @ fst t @ '':'' @ ci_Symbol (snd t) @ '':'' @ show_int (ci_Decimals (snd t))"

definition fingerprint_text :: "hash_lib \<Rightarrow> string \<Rightarrow> string list \<Rightarrow> ContractInfo list \<Rightarrow> string" where
  "fingerprint_text lib native addrs tokens =
    ''native:'' @ native @ concat (map token_part (sort_slice lib (zip addrs tokens)))"

definition fingerprint :: "hash_lib \<Rightarrow> string \<Rightarrow> string list \<Rightarrow> ContractInfo list \<Rightarrow> string" where
  "fingerprint lib native addrs tokens = sha256_hex lib (fingerprint_text lib native addrs tokens)"

section \<open>KcpChainID\<close>

definition KcpChainID :: "cfg_pool \<Rightarrow> (goerror + i64 \<times> bool) \<times> cfg_pool" where
  "KcpChainID p =
    (case cfg_outcome p of
       (Some e, p') \<Rightarrow> (Inl (Wrap ''query KCP chain'' e), p')
     | (None, p') \<Rightarrow>
         (case filter (\<lambda>c. c_name c = ''KCP'' \<and> c_active c) (chain_tbl p') of
            [] \<Rightarrow> (Inr (0, False), p')
          | c # _ \<Rightarrow> (Inr (c_chain_id c, True), p')))"

section \<open>ActiveChains\<close>

text \<open>A row of the left join: the columns of the token are \<^verbatim>\<open>NULL\<close> for a chain without tokens.\<close>

type_synonym join_row = "chain_row \<times> token_row option"

definition active_tokens :: "cfg_pool \<Rightarrow> i64 \<Rightarrow> token_row list" where
  "active_tokens p k = filter (\<lambda>t. t_chain_id t = k \<and> t_active t) (token_tbl p)"

definition active_rows :: "cfg_pool \<Rightarrow> chain_row list" where
  "active_rows p = sort_key (\<lambda>c. to_i64 (c_chain_id c)) (filter c_active (chain_tbl p))"

definition join_rows :: "cfg_pool \<Rightarrow> join_row list" where
  "join_rows p = concat (map (\<lambda>c.
     case collate p (active_tokens p (c_chain_id c)) of [] \<Rightarrow> [(c, None)] | ts \<Rightarrow> map (\<lambda>t. (c, Some t)) ts) (active_rows p))"

record chain_acc =
  acc_rpcURL :: string
  acc_native :: string
  acc_tokens :: "ContractInfo list"
  acc_addrs :: "string list"

text \<open>\<^verbatim>\<open>byChain\<close> and \<^verbatim>\<open>order\<close> in one: an association list in the order of first occurrence.\<close>

definition add_row :: "join_row \<Rightarrow> (i64 \<times> chain_acc) list \<Rightarrow> (i64 \<times> chain_acc) list" where
  "add_row row m =
    (case row of (c, t) \<Rightarrow>
     let k = c_chain_id c;
         a = (case map_of m k of
                Some a \<Rightarrow> a
              | None \<Rightarrow> \<lparr>acc_rpcURL = c_rpc_url c, acc_native = c_native c, acc_tokens = [], acc_addrs = []\<rparr>);
         a' = (case t of
                 None \<Rightarrow> a
               | Some t \<Rightarrow> a\<lparr>acc_tokens := acc_tokens a @ [\<lparr>ci_Symbol = t_symbol t, ci_Decimals = t_decimals t\<rparr>],
                            acc_addrs := acc_addrs a @ [to_lower (t_contract_address t)]\<rparr>)
     in AList.update k a' m)"

text \<open>\<^verbatim>\<open>rows.Next\<close> and \<^verbatim>\<open>rows.Scan\<close>: each row may fail to scan; \<^verbatim>\<open>rows.Err\<close> is read at the end.\<close>

fun scan_chain_rows :: "join_row list \<Rightarrow> (i64 \<times> chain_acc) list \<Rightarrow> cfg_pool \<Rightarrow> (goerror + (i64 \<times> chain_acc) list) \<times> cfg_pool" where
  "scan_chain_rows [] m p =
    (case cfg_outcome p of
       (Some e, p') \<Rightarrow> (Inl (Wrap ''iterate chain rows'' e), p')
     | (None, p') \<Rightarrow> (Inr m, p'))"
| "scan_chain_rows (r # rs) m p =
    (case cfg_outcome p of
       (Some e, p') \<Rightarrow> (Inl (Wrap ''scan chain row'' e), p')
     | (None, p') \<Rightarrow> scan_chain_rows rs (add_row r m) p')"

definition chain_info :: "hash_lib \<Rightarrow> i64 \<times> chain_acc \<Rightarrow> ChainInfo" where
  "chain_info lib ka = (case ka of (k, a) \<Rightarrow>
     \<lparr>info_ChainID = k, info_RPCURL = acc_rpcURL a, TokenConfigHash = fingerprint lib (acc_native a) (acc_addrs a) (acc_tokens a)\<rparr>)"

definition ActiveChains :: "hash_lib \<Rightarrow> cfg_pool \<Rightarrow> (goerror + ChainInfo list) \<times> cfg_pool" where
  "ActiveChains lib p =
    (case cfg_outcome p of
       (Some e, p') \<Rightarrow> (Inl (Wrap ''query active chains'' e), p')
     | (None, p') \<Rightarrow>
         (case scan_chain_rows (join_rows p') [] p' of
            (Inl e, p'') \<Rightarrow> (Inl e, p'')
          | (Inr m, p'') \<Rightarrow> (Inr (map (chain_info lib) m), p'')))"

section \<open>ChainConfig\<close>

fun scan_token_rows :: "token_row list \<Rightarrow> (string \<times> ContractInfo) list \<Rightarrow> cfg_pool
    \<Rightarrow> (goerror + (string \<times> ContractInfo) list) \<times> cfg_pool" where
  "scan_token_rows [] out p =
    (case cfg_outcome p of (Some e, p') \<Rightarrow> (Inl e, p') | (None, p') \<Rightarrow> (Inr out, p'))"
| "scan_token_rows (t # ts) out p =
    (case cfg_outcome p of
       (Some e, p') \<Rightarrow> (Inl (Wrap ''scan token row'' e), p')
     | (None, p') \<Rightarrow>
         scan_token_rows ts
           (AList.update (to_lower (t_contract_address t)) \<lparr>ci_Symbol = t_symbol t, ci_Decimals = t_decimals t\<rparr> out) p')"

definition tokensOf :: "i64 \<Rightarrow> cfg_pool \<Rightarrow> (goerror + (string \<times> ContractInfo) list) \<times> cfg_pool" where
  "tokensOf chainID p =
    (case cfg_outcome p of
       (Some e, p') \<Rightarrow> (Inl (Wrap (''query tokens of '' @ show_int (to_i64 chainID)) e), p')
     | (None, p') \<Rightarrow> scan_token_rows (active_tokens p' chainID) [] p')"

text \<open>\<^verbatim>\<open>int\<close> arithmetic; Go's division truncates towards zero.\<close>

definition polling_interval :: "int \<Rightarrow> int" where
  "polling_interval blockTimeMs = (let q = sgn blockTimeMs * (\<bar>blockTimeMs\<bar> div 3) in if q < 1000 then 1000 else q)"

definition config_of :: "i64 \<Rightarrow> chain_row \<Rightarrow> (string \<times> ContractInfo) list \<Rightarrow> ChainConfig" where
  "config_of chainID c tokens =
    (let blockTimeMs = wrap64 (c_block_time c * 1000) in
     \<lparr>cc_ChainID = chainID, cc_RPCURL = c_rpc_url c, cc_Native = c_native c, cc_Decimals = c_decimals c,
      cc_BlockTimeMs = blockTimeMs, cc_PollingIntervalMs = polling_interval blockTimeMs,
      cc_MinConfirmations = c_confirmations c,
      cc_ChainType = (case c_chain_type c of Some s \<Rightarrow> s | None \<Rightarrow> ''erc20''), cc_Contracts = tokens\<rparr>)"

definition ChainConfig_query :: "i64 \<Rightarrow> cfg_pool \<Rightarrow> (goerror + ChainConfig) \<times> cfg_pool" where
  "ChainConfig_query chainID p =
    (case cfg_outcome p of
       (Some e, p') \<Rightarrow> (Inl (Wrap (''query chain '' @ show_int (to_i64 chainID)) e), p')
     | (None, p') \<Rightarrow>
         (case filter (\<lambda>c. c_chain_id c = chainID \<and> c_active c) (chain_tbl p') of
            [] \<Rightarrow> (Inl (ConfigError ''chain'' (''chain '' @ show_int (to_i64 chainID) @ '' not found or not active'')), p')
          | c # _ \<Rightarrow>
              (case tokensOf chainID p' of
                 (Inl e, p'') \<Rightarrow> (Inl e, p'')
               | (Inr tokens, p'') \<Rightarrow> (Inr (config_of chainID c tokens), p''))))"

definition config_repo :: "hash_lib \<Rightarrow> cfg_pool ChainSource" where
  "config_repo lib = \<lparr>ActiveChains_op = ActiveChains lib, ChainConfig_op = ChainConfig_query\<rparr>"

section \<open>Reference definitions\<close>

text \<open>What the two queries are meant to return for a chain: its active tokens, addresses in lower case.\<close>

definition token_entry :: "token_row \<Rightarrow> string \<times> ContractInfo" where
  "token_entry t = (to_lower (t_contract_address t), \<lparr>ci_Symbol = t_symbol t, ci_Decimals = t_decimals t\<rparr>)"

definition chain_tokens :: "cfg_pool \<Rightarrow> i64 \<Rightarrow> (string \<times> ContractInfo) list" where
  "chain_tokens p k = map token_entry (collate p (active_tokens p k))"

definition info_of :: "hash_lib \<Rightarrow> cfg_pool \<Rightarrow> chain_row \<Rightarrow> ChainInfo" where
  "info_of lib p c = \<lparr>info_ChainID = c_chain_id c, info_RPCURL = c_rpc_url c,
     TokenConfigHash = fingerprint lib (c_native c) (map fst (chain_tokens p (c_chain_id c))) (map snd (chain_tokens p (c_chain_id c)))\<rparr>"

definition cfg_inv :: "cfg_pool \<Rightarrow> bool" where
  "cfg_inv p \<longleftrightarrow> distinct (map c_chain_id (chain_tbl p))"

definition collates :: "cfg_pool \<Rightarrow> bool" where
  "collates p \<longleftrightarrow> (\<forall>ts. mset (collate p ts) = mset ts)"

definition sort_ok :: "hash_lib \<Rightarrow> bool" where
  "sort_ok lib \<longleftrightarrow> (\<forall>xs. mset (sort_slice lib xs) = mset xs \<and> sorted (map fst (sort_slice lib xs)))"

text \<open>Names that keep the separators of the fingerprint apart.\<close>

definition clean_token :: "string \<times> ContractInfo \<Rightarrow> bool" where
  "clean_token t \<longleftrightarrow> CHR ''|'' \<notin> set (fst t) \<and> CHR '':'' \<notin> set (fst t) \<and> CHR ''|'' \<notin> set (ci_Symbol (snd t))"

section \<open>Lemmas: rows\<close>

lemma sort_key_map_commute: "sort_key f (map g xs) = map g (sort_key (\<lambda>x. f (g x)) xs)"
proof -
  have "insort_key f (g x) (map g ys) = map g (insort_key (\<lambda>x. f (g x)) x ys)" for x ys
    by (induction ys) simp_all
  then show ?thesis by (induction xs) simp_all
qed

lemma find_filter_Cons: "filter P xs = x # ys \<Longrightarrow> find P xs = Some x"
  by (induction xs) (auto split: if_splits)

lemma cfg_outcome_frame: "cfg_outcome p = (r, p') \<Longrightarrow> \<exists>os. p' = p\<lparr>cfg_outcomes := os\<rparr>"
  by (auto simp: cfg_outcome_def split: list.splits intro: exI [of _ "cfg_outcomes p"])

lemma cfg_inv_outcomes [simp]: "cfg_inv (p\<lparr>cfg_outcomes := os\<rparr>) = cfg_inv p"
  by (simp add: cfg_inv_def)

lemma tables_outcomes [simp]:
  "active_tokens (p\<lparr>cfg_outcomes := os\<rparr>) = active_tokens p" "active_rows (p\<lparr>cfg_outcomes := os\<rparr>) = active_rows p"
  "join_rows (p\<lparr>cfg_outcomes := os\<rparr>) = join_rows p" "chain_tokens (p\<lparr>cfg_outcomes := os\<rparr>) = chain_tokens p"
  by (simp_all add: fun_eq_iff active_tokens_def active_rows_def join_rows_def chain_tokens_def)

lemma info_of_outcomes [simp]: "info_of lib (p\<lparr>cfg_outcomes := os\<rparr>) = info_of lib p"
  by (simp add: fun_eq_iff info_of_def)

lemma scan_chain_rows_result:
  "scan_chain_rows rs m p = (r, p') \<Longrightarrow> (\<exists>os. p' = p\<lparr>cfg_outcomes := os\<rparr>) \<and> (\<forall>m'. r = Inr m' \<longrightarrow> m' = fold add_row rs m)"
proof (induction rs arbitrary: m p)
  case Nil
  then show ?case by (auto dest: cfg_outcome_frame split: prod.splits option.splits)
next
  case (Cons x rs)
  obtain o1 p1 where o: "cfg_outcome p = (o1, p1)" by fastforce
  then obtain os where p1: "p1 = p\<lparr>cfg_outcomes := os\<rparr>" using cfg_outcome_frame by blast
  show ?case
  proof (cases o1)
    case None
    with Cons.prems o have "scan_chain_rows rs (add_row x m) p1 = (r, p')" by simp
    from Cons.IH [OF this] show ?thesis using p1 by auto
  next
    case (Some e)
    with Cons.prems o p1 show ?thesis by auto
  qed
qed

lemma update_last: "k \<notin> fst ` set m \<Longrightarrow> AList.update k v (m @ [(k, u)]) = m @ [(k, v)]"
  by (induction m) auto

definition group_acc :: "chain_row \<Rightarrow> token_row list \<Rightarrow> chain_acc" where
  "group_acc c ts = \<lparr>acc_rpcURL = c_rpc_url c, acc_native = c_native c, acc_tokens = map (snd \<circ> token_entry) ts,
     acc_addrs = map (fst \<circ> token_entry) ts\<rparr>"

lemma add_rows_same_chain:
  "c_chain_id c \<notin> fst ` set m \<Longrightarrow> fold add_row (map (\<lambda>t. (c, Some t)) ts) (m @ [(c_chain_id c, group_acc c us)]) =
     m @ [(c_chain_id c, group_acc c (us @ ts))]"
proof (induction ts arbitrary: us)
  case (Cons t ts)
  have "map_of (m @ [(c_chain_id c, group_acc c us)]) (c_chain_id c) = Some (group_acc c us)"
    using Cons.prems by (simp add: map_add_def map_of_eq_None_iff split: option.split)
      (metis image_eqI map_of_SomeD fst_conv)
  then have "add_row (c, Some t) (m @ [(c_chain_id c, group_acc c us)]) = m @ [(c_chain_id c, group_acc c (us @ [t]))]"
    using Cons.prems by (simp add: add_row_def Let_def update_last) (simp add: group_acc_def token_entry_def)
  with Cons.IH [of "us @ [t]"] Cons.prems show ?case by simp
qed simp

lemma add_rows_new_chain:
  assumes "c_chain_id c \<notin> fst ` set m"
  shows "fold add_row (case ts of [] \<Rightarrow> [(c, None)] | us \<Rightarrow> map (\<lambda>t. (c, Some t)) us) m = m @ [(c_chain_id c, group_acc c ts)]"
proof -
  have none: "map_of m (c_chain_id c) = None" using assms by (simp add: map_of_eq_None_iff)
  show ?thesis
  proof (cases ts)
    case Nil
    with assms none show ?thesis by (simp add: add_row_def Let_def update_new group_acc_def)
  next
    case (Cons t us)
    have "add_row (c, Some t) m = m @ [(c_chain_id c, group_acc c [t])]"
      using assms none by (simp add: add_row_def Let_def update_new group_acc_def token_entry_def)
    with Cons add_rows_same_chain [OF assms, of us "[t]"] show ?thesis by simp
  qed
qed

lemma add_rows_all:
  assumes "distinct (map c_chain_id cs)" and "\<forall>c \<in> set cs. c_chain_id c \<notin> fst ` set m"
  shows "fold add_row (concat (map (\<lambda>c. case f c of [] \<Rightarrow> [(c, None)] | us \<Rightarrow> map (\<lambda>t. (c, Some t)) us) cs)) m =
    m @ map (\<lambda>c. (c_chain_id c, group_acc c (f c))) cs"
  using assms
proof (induction cs arbitrary: m)
  case (Cons c cs)
  then have "c_chain_id c \<notin> fst ` set m" by simp
  note this [THEN add_rows_new_chain, of "f c"]
  moreover have "\<forall>d \<in> set cs. c_chain_id d \<notin> fst ` set (m @ [(c_chain_id c, group_acc c (f c))])"
    using Cons.prems by (auto simp: image_iff)
  note Cons.IH [OF _ this]
  ultimately show ?case using Cons.prems(1) by simp
qed simp

lemma active_rows_distinct: "cfg_inv p \<Longrightarrow> distinct (map c_chain_id (active_rows p))"
  by (auto simp: cfg_inv_def active_rows_def distinct_map inj_on_def)

lemma set_active_rows: "set (active_rows p) = {c \<in> set (chain_tbl p). c_active c}"
  by (auto simp: active_rows_def)

lemma ActiveChains_result:
  assumes "ActiveChains lib p = (r, p')" and "cfg_inv p"
  shows "(\<exists>os. p' = p\<lparr>cfg_outcomes := os\<rparr>) \<and> (\<forall>infos. r = Inr infos \<longrightarrow> infos = map (info_of lib p) (active_rows p))"
proof -
  obtain o1 p1 where o: "cfg_outcome p = (o1, p1)" by fastforce
  then obtain os where p1: "p1 = p\<lparr>cfg_outcomes := os\<rparr>" using cfg_outcome_frame by blast
  obtain x p2 where x: "scan_chain_rows (join_rows p1) [] p1 = (x, p2)" by fastforce
  have "fold add_row (join_rows p1) [] = map (\<lambda>c. (c_chain_id c, group_acc c (collate p (active_tokens p (c_chain_id c))))) (active_rows p)"
    using add_rows_all [OF active_rows_distinct [OF assms(2)], of "[]"] by (simp add: join_rows_def p1)
  moreover have "chain_info lib (c_chain_id c, group_acc c (collate p (active_tokens p (c_chain_id c)))) = info_of lib p c" for c
    by (simp add: chain_info_def info_of_def group_acc_def chain_tokens_def)
  ultimately have "map (chain_info lib) (fold add_row (join_rows p1) []) = map (info_of lib p) (active_rows p)"
    by simp
  then show ?thesis
    using assms(1) o x p1 scan_chain_rows_result [OF x]
    by (auto simp: ActiveChains_def split: option.splits sum.splits)
qed

lemma scan_token_rows_result:
  "scan_token_rows ts out p = (r, p') \<Longrightarrow> (\<exists>os. p' = p\<lparr>cfg_outcomes := os\<rparr>)
    \<and> (\<forall>out'. r = Inr out' \<longrightarrow> out' = fold (\<lambda>t. AList.update (fst (token_entry t)) (snd (token_entry t))) ts out)"
proof (induction ts arbitrary: out p)
  case Nil
  then show ?case by (auto dest: cfg_outcome_frame split: prod.splits option.splits)
next
  case (Cons t ts)
  obtain o1 p1 where o: "cfg_outcome p = (o1, p1)" by fastforce
  then obtain os where p1: "p1 = p\<lparr>cfg_outcomes := os\<rparr>" using cfg_outcome_frame by blast
  show ?case
  proof (cases o1)
    case None
    with Cons.prems o
    have "scan_token_rows ts (AList.update (fst (token_entry t)) (snd (token_entry t)) out) p1 = (r, p')"
      by (simp add: token_entry_def)
    from Cons.IH [OF this] show ?thesis using p1 by auto
  next
    case (Some e)
    with Cons.prems o p1 show ?thesis by auto
  qed
qed

lemma tokens_folded:
  assumes "distinct (map (fst \<circ> token_entry) ts)"
  shows "fold (\<lambda>t. AList.update (fst (token_entry t)) (snd (token_entry t))) ts [] = map token_entry ts"
proof -
  have "fold (\<lambda>t. AList.update (fst (token_entry t)) (snd (token_entry t))) ts [] =
      fold (\<lambda>x. AList.update (fst x) (snd x)) (map token_entry ts) []"
    by (simp add: fold_map comp_def)
  then show ?thesis using fold_update_fresh [of "[]" "map token_entry ts"] assms by simp
qed

lemma ChainConfig_result:
  assumes "ChainConfig_query k p = (r, p')"
  shows "(\<exists>os. p' = p\<lparr>cfg_outcomes := os\<rparr>) \<and> (\<forall>cfg. r = Inr cfg \<longrightarrow> (\<exists>c \<in> set (chain_tbl p). c_chain_id c = k \<and> c_active c
    \<and> cfg = config_of k c (fold (\<lambda>t. AList.update (fst (token_entry t)) (snd (token_entry t))) (active_tokens p k) [])))"
proof -
  obtain o1 p1 where o: "cfg_outcome p = (o1, p1)" by fastforce
  then obtain os where p1: "p1 = p\<lparr>cfg_outcomes := os\<rparr>" using cfg_outcome_frame by blast
  show ?thesis
  proof (cases "o1 = None \<and> filter (\<lambda>c. c_chain_id c = k \<and> c_active c) (chain_tbl p) \<noteq> []")
    case False
    with assms o p1 show ?thesis by (auto simp: ChainConfig_query_def split: option.splits list.splits)
  next
    case True
    then obtain c cs where c: "filter (\<lambda>c. c_chain_id c = k \<and> c_active c) (chain_tbl p) = c # cs"
      by (cases "filter (\<lambda>c. c_chain_id c = k \<and> c_active c) (chain_tbl p)") auto
    then have "c \<in> set (filter (\<lambda>c. c_chain_id c = k \<and> c_active c) (chain_tbl p))" by simp
    then have mem: "c \<in> set (chain_tbl p)" "c_chain_id c = k" "c_active c" by simp_all
    obtain y p2 where y: "tokensOf k p1 = (y, p2)" by fastforce
    obtain o2 p3 where o2: "cfg_outcome p1 = (o2, p3)" by fastforce
    then obtain os3 where p3: "p3 = p\<lparr>cfg_outcomes := os3\<rparr>" using cfg_outcome_frame p1 by fastforce
    have t: "(\<exists>os. p2 = p\<lparr>cfg_outcomes := os\<rparr>) \<and> (\<forall>ts. y = Inr ts \<longrightarrow>
        ts = fold (\<lambda>t. AList.update (fst (token_entry t)) (snd (token_entry t))) (active_tokens p k) [])"
    proof (cases o2)
      case None
      then have "scan_token_rows (active_tokens p3 k) [] p3 = (y, p2)" using y o2 by (simp add: tokensOf_def)
      from scan_token_rows_result [OF this] show ?thesis using p3 by auto
    next
      case (Some e)
      then show ?thesis using y o2 p3 by (auto simp: tokensOf_def)
    qed
    have "ChainConfig_query k p = (case y of Inl e \<Rightarrow> (Inl e, p2) | Inr ts \<Rightarrow> (Inr (config_of k c ts), p2))"
      using o True c y p1 by (simp add: ChainConfig_query_def)
    then show ?thesis using assms t mem by (auto split: sum.splits)
  qed
qed

section \<open>The interface\<close>

interpretation config_repo: chain_source "config_repo lib" "\<lambda>p. map (\<lambda>c. (c_chain_id c, TokenConfigHash (info_of lib p c))) (active_rows p)" cfg_inv
  for lib
proof
  fix p p' :: cfg_pool and r infos k q cfg
  assume inv: "cfg_inv p"
  then show "distinct (map fst (map (\<lambda>c. (c_chain_id c, TokenConfigHash (info_of lib p c))) (active_rows p)))"
    using active_rows_distinct by (simp add: comp_def)
  {
    assume "ActiveChains_op (config_repo lib) p = (r, p')"
    then obtain os where "p' = p\<lparr>cfg_outcomes := os\<rparr>"
      using ActiveChains_result [of lib p r p'] inv by (auto simp: config_repo_def)
    then show "cfg_inv p' \<and> map (\<lambda>c. (c_chain_id c, TokenConfigHash (info_of lib p' c))) (active_rows p') =
        map (\<lambda>c. (c_chain_id c, TokenConfigHash (info_of lib p c))) (active_rows p)"
      using inv by simp
  }
  {
    assume "ActiveChains_op (config_repo lib) p = (Inr infos, p')"
    then have "infos = map (info_of lib p) (active_rows p)"
      using ActiveChains_result [of lib p "Inr infos" p'] inv by (auto simp: config_repo_def)
    then show "map (\<lambda>i. (info_ChainID i, TokenConfigHash i)) infos = map (\<lambda>c. (c_chain_id c, TokenConfigHash (info_of lib p c))) (active_rows p)"
      by (simp add: info_of_def)
  }
  {
    assume "ChainConfig_op (config_repo lib) k p = (q, p')"
    then obtain os where "p' = p\<lparr>cfg_outcomes := os\<rparr>"
      using ChainConfig_result [of k p q p'] by (auto simp: config_repo_def)
    then show "cfg_inv p' \<and> map (\<lambda>c. (c_chain_id c, TokenConfigHash (info_of lib p' c))) (active_rows p') =
        map (\<lambda>c. (c_chain_id c, TokenConfigHash (info_of lib p c))) (active_rows p)"
      using inv by simp
  }
  {
    assume "ChainConfig_op (config_repo lib) k p = (Inr cfg, p')"
    then obtain c ts where "c \<in> set (active_rows p)" "c_chain_id c = k" "cfg = config_of k c ts"
      using ChainConfig_result [of k p "Inr cfg" p'] by (auto simp: config_repo_def set_active_rows)
    then show "cc_ChainID cfg = k \<and> k \<in> fst ` set (map (\<lambda>c. (c_chain_id c, TokenConfigHash (info_of lib p c))) (active_rows p))"
      by (auto simp: config_of_def Let_def image_image)
  }
qed

section \<open>Lemmas: the fingerprint\<close>

lemma zip_fst_snd: "zip (map (fst \<circ> f) xs) (map (snd \<circ> f) xs) = map f xs"
  by (induction xs) simp_all

lemma sep_parts_inject:
  assumes "c \<notin> set n" and "c \<notin> set n'" and "\<forall>b \<in> set bs. c \<notin> set b" and "\<forall>b \<in> set bs'. c \<notin> set b"
    and "n @ concat (map ((#) c) bs) = n' @ concat (map ((#) c) bs')"
  shows "n = n' \<and> bs = bs'"
  using assms
proof (induction bs arbitrary: n n' bs')
  case Nil
  then show ?case by (cases bs') auto
next
  case (Cons b bs)
  show ?case
  proof (cases bs')
    case Nil
    with Cons.prems show ?thesis by auto
  next
    case (Cons b' bs2)
    with Cons.prems have "n = n'" and "b @ concat (map ((#) c) bs) = b' @ concat (map ((#) c) bs2)"
      using append_sep_inject_left [OF Cons.prems(1,2)] by auto
    with Cons.IH [of b b' bs2] Cons.prems Cons show ?thesis by simp
  qed
qed

definition token_body :: "string \<times> ContractInfo \<Rightarrow> string" where
  "token_body t = fst t @ CHR '':'' # ci_Symbol (snd t) @ CHR '':'' # show_int (ci_Decimals (snd t))"

lemma token_part_body: "token_part t = CHR ''|'' # token_body t"
  by (simp add: token_part_def token_body_def)

lemma token_body_inject:
  assumes "clean_token t" and "clean_token u" and "token_body t = token_body u"
  shows "t = u"
proof -
  have "CHR '':'' \<notin> set (fst t)" "CHR '':'' \<notin> set (fst u)" using assms(1,2) by (auto simp: clean_token_def)
  from append_sep_inject_left [OF this] assms(3)
  have "fst t = fst u" "ci_Symbol (snd t) @ CHR '':'' # show_int (ci_Decimals (snd t)) = ci_Symbol (snd u) @ CHR '':'' # show_int (ci_Decimals (snd u))"
    by (simp_all add: token_body_def)
  then show ?thesis
    using append_sep_inject_right [of "CHR '':''" "show_int (ci_Decimals (snd t))" "show_int (ci_Decimals (snd u))"]
    by (simp add: prod_eq_iff)
qed

lemma show_int_no_bar [simp]: "CHR ''|'' \<notin> set (show_int i)"
  by (auto simp: show_int_def dest: show_nat_digits) (auto dest!: show_nat_digits simp: is_digit_def)

lemma map_token_body_inject:
  "list_all clean_token xs \<Longrightarrow> list_all clean_token ys \<Longrightarrow> map token_body xs = map token_body ys \<Longrightarrow> xs = ys"
proof (induction xs arbitrary: ys)
  case (Cons x xs)
  then show ?case by (cases ys) (auto intro: token_body_inject)
qed simp

lemma fingerprint_text_inject:
  assumes "CHR ''|'' \<notin> set n" and "CHR ''|'' \<notin> set n'" and "list_all clean_token xs" and "list_all clean_token ys"
    and "n @ concat (map token_part xs) = n' @ concat (map token_part ys)"
  shows "n = n' \<and> xs = ys"
proof -
  have no_bar: "CHR ''|'' \<notin> set b" if "b \<in> set (map token_body zs)" "list_all clean_token zs" for b zs
    using that by (auto simp: list_all_iff clean_token_def token_body_def)
  have "map token_part zs = map ((#) CHR ''|'') (map token_body zs)" for zs
    by (simp add: token_part_body)
  with assms(5) have "n @ concat (map ((#) CHR ''|'') (map token_body xs)) = n' @ concat (map ((#) CHR ''|'') (map token_body ys))"
    by simp
  from sep_parts_inject [OF assms(1,2) _ _ this] no_bar assms(3,4) map_token_body_inject show ?thesis by blast
qed

lemma sorted_unique:
  fixes xs ys :: "(string \<times> ContractInfo) list"
  assumes "mset xs = mset ys" and "sorted (map fst xs)" and "sorted (map fst ys)" and "distinct (map fst xs)"
  shows "xs = ys"
proof -
  have s: "set xs = set ys" using assms(1) by (rule mset_eq_setD)
  have "mset (map fst xs) = mset (map fst ys)" using assms(1) by simp
  then have d: "distinct (map fst ys)" using assms(4) by (metis mset_eq_imp_distinct_iff)
  have "inj_on fst (set xs \<union> set ys)" using assms(4) s by (simp add: distinct_map)
  then show ?thesis using map_sorted_distinct_set_unique assms(2-4) d s by blast
qed

lemma fingerprint_text_iff:
  assumes "sort_ok lib" and "CHR ''|'' \<notin> set n" and "CHR ''|'' \<notin> set n'"
    and "list_all clean_token (zip as ts)" and "list_all clean_token (zip as' ts')"
    and "distinct as" and "length as = length ts" and "length as' = length ts'"
  shows "fingerprint_text lib n as ts = fingerprint_text lib n' as' ts' \<longleftrightarrow> n = n' \<and> mset (zip as ts) = mset (zip as' ts')"
proof
  let ?s = "sort_slice lib (zip as ts)" and ?s' = "sort_slice lib (zip as' ts')"
  have m: "mset ?s = mset (zip as ts)" "mset ?s' = mset (zip as' ts')" and sorted: "sorted (map fst ?s)" "sorted (map fst ?s')"
    using assms(1) by (simp_all add: sort_ok_def)
  have clean: "list_all clean_token ?s" "list_all clean_token ?s'"
    using assms(4,5) mset_eq_setD [OF m(1)] mset_eq_setD [OF m(2)] by (simp_all add: list_all_iff)
  {
    assume "fingerprint_text lib n as ts = fingerprint_text lib n' as' ts'"
    then have "n @ concat (map token_part ?s) = n' @ concat (map token_part ?s')" by (simp add: fingerprint_text_def)
    from fingerprint_text_inject [OF assms(2,3) clean this] show "n = n' \<and> mset (zip as ts) = mset (zip as' ts')"
      using m by metis
  }
  {
    assume e: "n = n' \<and> mset (zip as ts) = mset (zip as' ts')"
    have "mset (map fst ?s) = mset (map fst (zip as ts))" using m(1) by simp
    then have "distinct (map fst ?s)" using assms(6,7) by (metis map_fst_zip mset_eq_imp_distinct_iff)
    with e m sorted have "?s = ?s'" by (intro sorted_unique) simp_all
    then show "fingerprint_text lib n as ts = fingerprint_text lib n' as' ts'" using e by (simp add: fingerprint_text_def)
  }
qed

section \<open>Properties\<close>

text \<open>
  C19. The fingerprint detects every change of the token list. If SHA-256 does not confuse the two texts, and no name
  holds a separator, two fingerprints agree exactly when the native symbol and the set of tokens (address, symbol,
  decimals) agree; the order of the tokens does not matter.
\<close>

theorem fingerprint_detects_changes:
  assumes "inj_on (sha256_hex lib) {fingerprint_text lib n as ts, fingerprint_text lib n' as' ts'}" and "sort_ok lib"
    and "CHR ''|'' \<notin> set n" and "CHR ''|'' \<notin> set n'"
    and "list_all clean_token (zip as ts)" and "list_all clean_token (zip as' ts')"
    and "distinct as" and "length as = length ts" and "length as' = length ts'"
  shows "fingerprint lib n as ts = fingerprint lib n' as' ts' \<longleftrightarrow> n = n' \<and> mset (zip as ts) = mset (zip as' ts')"
  using fingerprint_text_iff [OF assms(2-9)] inj_on_eq_iff [OF assms(1)] by (simp add: fingerprint_def)

definition sample_hash :: hash_lib where
  "sample_hash = \<lparr>sha256_hex = (\<lambda>s. s), sort_slice = sort_key fst\<rparr>"

lemma sort_ok_sample: "sort_ok sample_hash" and sample_sha: "inj_on (sha256_hex sample_hash) A"
  by (simp_all add: sort_ok_def sample_hash_def)

theorem fingerprint_detects_changes_witness:
  "fingerprint sample_hash ''ETH'' [''0xb'', ''0xa''] [\<lparr>ci_Symbol = ''DAI'', ci_Decimals = 18\<rparr>, \<lparr>ci_Symbol = ''USDT'', ci_Decimals = 6\<rparr>]
    \<noteq> fingerprint sample_hash ''ETH'' [''0xa''] [\<lparr>ci_Symbol = ''USDT'', ci_Decimals = 6\<rparr>]
   \<and> fingerprint sample_hash ''ETH'' [''0xb'', ''0xa''] [\<lparr>ci_Symbol = ''DAI'', ci_Decimals = 18\<rparr>, \<lparr>ci_Symbol = ''USDT'', ci_Decimals = 6\<rparr>]
    = fingerprint sample_hash ''ETH'' [''0xa'', ''0xb''] [\<lparr>ci_Symbol = ''USDT'', ci_Decimals = 6\<rparr>, \<lparr>ci_Symbol = ''DAI'', ci_Decimals = 18\<rparr>]"
  by (rule conjI; subst fingerprint_detects_changes [OF sample_sha sort_ok_sample])
    (simp_all add: clean_token_def add_mset_commute)

text \<open>
  C30. \<^verbatim>\<open>ActiveChains\<close> and \<^verbatim>\<open>ChainConfig\<close> agree: the fingerprint listed for a chain is that of the native symbol and the contracts
  its configuration is built with. (Addresses that differ only in case would be merged by one query and not by the other.)
\<close>

theorem config_matches_fingerprint:
  assumes "ActiveChains lib p = (Inr infos, p1)" and "ChainConfig_query k p = (Inr cfg, p2)"
    and "info \<in> set infos" and "info_ChainID info = k" and "cfg_inv p" and "collates p" and "sort_ok lib"
    and "distinct (map (fst \<circ> token_entry) (active_tokens p k))"
  shows "TokenConfigHash info = fingerprint lib (cc_Native cfg) (map fst (cc_Contracts cfg)) (map snd (cc_Contracts cfg))"
proof -
  have "infos = map (info_of lib p) (active_rows p)" using ActiveChains_result [OF assms(1,5)] by simp
  then obtain c where c: "c \<in> set (active_rows p)" "info = info_of lib p c" "c_chain_id c = k"
    using assms(3,4) by (auto simp: info_of_def)
  obtain d where d: "d \<in> set (active_rows p)" "c_chain_id d = k" "cfg = config_of k d (map token_entry (active_tokens p k))"
    using ChainConfig_result [OF assms(2)] tokens_folded [OF assms(8)] by (auto simp: set_active_rows)
  have "d = c" using c(1,3) d(1,2) active_rows_distinct [OF assms(5)] by (auto simp: distinct_map inj_on_def)
  have m: "mset (collate p (active_tokens p k)) = mset (active_tokens p k)" using assms(6) by (simp add: collates_def)
  have s: "mset (sort_slice lib xs) = mset xs" "sorted (map fst (sort_slice lib xs))" for xs
    using assms(7) by (simp_all add: sort_ok_def)
  have "mset (map fst (sort_slice lib (chain_tokens p k))) = image_mset (fst \<circ> token_entry) (mset (active_tokens p k))"
    by (simp only: mset_map s chain_tokens_def m image_mset.compositionality)
  also have "\<dots> = mset (map (fst \<circ> token_entry) (active_tokens p k))" by simp
  finally have "distinct (map fst (sort_slice lib (chain_tokens p k)))"
    using assms(8) by (metis mset_eq_imp_distinct_iff)
  then have "sort_slice lib (chain_tokens p k) = sort_slice lib (map token_entry (active_tokens p k))"
    using s by (intro sorted_unique) (simp_all add: chain_tokens_def m)
  then show ?thesis
    using c d \<open>d = c\<close> by (simp add: info_of_def config_of_def Let_def fingerprint_def fingerprint_text_def zip_map_fst_snd zip_fst_snd)
qed

definition sample_tables :: "string \<Rightarrow> int \<Rightarrow> cfg_pool" where
  "sample_tables url conf = \<lparr>chain_tbl = [\<lparr>c_chain_id = 1, c_name = ''ETH'', c_rpc_url = url, c_native = ''ETH'', c_decimals = 18,
       c_block_time = 12, c_confirmations = conf, c_chain_type = None, c_active = True\<rparr>],
     token_tbl = [\<lparr>t_chain_id = 1, t_contract_address = ''0xA'', t_symbol = ''USDT'', t_decimals = 6, t_active = True\<rparr>,
       \<lparr>t_chain_id = 1, t_contract_address = ''0xB'', t_symbol = ''OLD'', t_decimals = 6, t_active = False\<rparr>],
     collate = (\<lambda>ts. ts), cfg_outcomes = []\<rparr>"

lemma sample_config:
  "ChainConfig_query 1 (sample_tables url conf) = (Inr (config_of 1 (hd (chain_tbl (sample_tables url conf)))
      [(to_lower ''0xA'', \<lparr>ci_Symbol = ''USDT'', ci_Decimals = 6\<rparr>)]), sample_tables url conf)"
  by (simp add: ChainConfig_query_def sample_tables_def cfg_outcome_def tokensOf_def active_tokens_def)

lemma sample_active:
  "ActiveChains lib (sample_tables url conf) = (Inr [info_of lib (sample_tables url conf) (hd (chain_tbl (sample_tables url conf)))], sample_tables url conf)"
  by (simp add: ActiveChains_def sample_tables_def cfg_outcome_def join_rows_def active_rows_def active_tokens_def add_row_def Let_def
      chain_info_def info_of_def chain_tokens_def token_entry_def)

theorem config_matches_fingerprint_witness:
  "TokenConfigHash (info_of sample_hash (sample_tables ''u'' 12) (hd (chain_tbl (sample_tables ''u'' 12)))) =
    fingerprint sample_hash ''ETH'' [to_lower ''0xA''] [\<lparr>ci_Symbol = ''USDT'', ci_Decimals = 6\<rparr>]"
proof -
  have "cfg_inv (sample_tables ''u'' 12)" "collates (sample_tables ''u'' 12)"
    "distinct (map (fst \<circ> token_entry) (active_tokens (sample_tables ''u'' 12) 1))"
    "info_ChainID (info_of sample_hash (sample_tables ''u'' 12) (hd (chain_tbl (sample_tables ''u'' 12)))) = 1"
    by (simp_all add: cfg_inv_def collates_def sample_tables_def active_tokens_def info_of_def)
  from config_matches_fingerprint [OF sample_active sample_config _ this(4) this(1,2) sort_ok_sample this(3)] show ?thesis
    by (simp add: config_of_def Let_def sample_tables_def)
qed

text \<open>
  C31. What a chain's configuration is. When the database answers, \<^verbatim>\<open>ChainConfig\<close> of a chain that is absent or inactive is a
  \<^verbatim>\<open>ConfigError\<close> for the key "chain"; for an active chain it carries the row's values, the polling interval is a third of
  the block time but at least one second, a missing type means "erc20", and the contracts are the active tokens with
  lower-case addresses, a later row winning.
\<close>

theorem ChainConfig_exact:
  assumes "cfg_outcomes p = []" and "\<forall>c \<in> set (chain_tbl p). 0 \<le> c_block_time c \<and> c_block_time c < 2 ^ 31"
  shows "fst (ChainConfig_query k p) =
    (case find (\<lambda>c. c_chain_id c = k \<and> c_active c) (chain_tbl p) of
       None \<Rightarrow> Inl (ConfigError ''chain'' (''chain '' @ show_int (to_i64 k) @ '' not found or not active''))
     | Some c \<Rightarrow> Inr \<lparr>cc_ChainID = k, cc_RPCURL = c_rpc_url c, cc_Native = c_native c, cc_Decimals = c_decimals c,
         cc_BlockTimeMs = c_block_time c * 1000, cc_PollingIntervalMs = max 1000 (c_block_time c * 1000 div 3),
         cc_MinConfirmations = c_confirmations c, cc_ChainType = (case c_chain_type c of Some s \<Rightarrow> s | None \<Rightarrow> ''erc20''),
         cc_Contracts = fold (\<lambda>t. AList.update (to_lower (t_contract_address t)) \<lparr>ci_Symbol = t_symbol t, ci_Decimals = t_decimals t\<rparr>)
           (filter (\<lambda>t. t_chain_id t = k \<and> t_active t) (token_tbl p)) []\<rparr>)"
proof -
  have q: "cfg_outcome p = (None, p)" using assms(1) by (simp add: cfg_outcome_def)
  have scan: "scan_token_rows ts out p = (Inr (fold (\<lambda>t. AList.update (to_lower (t_contract_address t)) \<lparr>ci_Symbol = t_symbol t, ci_Decimals = t_decimals t\<rparr>) ts out), p)" for ts out
    by (induction ts arbitrary: out) (simp_all add: q)
  have polls: "config_of k c ts = \<lparr>cc_ChainID = k, cc_RPCURL = c_rpc_url c, cc_Native = c_native c, cc_Decimals = c_decimals c,
      cc_BlockTimeMs = c_block_time c * 1000, cc_PollingIntervalMs = max 1000 (c_block_time c * 1000 div 3),
      cc_MinConfirmations = c_confirmations c, cc_ChainType = (case c_chain_type c of Some s \<Rightarrow> s | None \<Rightarrow> ''erc20''), cc_Contracts = ts\<rparr>"
    if "c \<in> set (chain_tbl p)" for c ts
  proof -
    have b: "0 \<le> c_block_time c" "c_block_time c < 2 ^ 31" using assms(2) that by simp_all
    then have "wrap64 (c_block_time c * 1000) = c_block_time c * 1000" by (intro wrap64_id) simp_all
    moreover have "polling_interval (c_block_time c * 1000) = max 1000 (c_block_time c * 1000 div 3)"
      using b(1) by (simp add: polling_interval_def Let_def sgn_if max_def)
    ultimately show ?thesis by (simp add: config_of_def Let_def)
  qed
  show ?thesis
  proof (cases "filter (\<lambda>c. c_chain_id c = k \<and> c_active c) (chain_tbl p)")
    case Nil
    then have "find (\<lambda>c. c_chain_id c = k \<and> c_active c) (chain_tbl p) = None"
      by (auto simp: find_None_iff filter_empty_conv)
    with Nil show ?thesis by (simp add: ChainConfig_query_def q)
  next
    case (Cons c cs)
    then have "c \<in> set (filter (\<lambda>c. c_chain_id c = k \<and> c_active c) (chain_tbl p))" by simp
    then have "c \<in> set (chain_tbl p)" by simp
    moreover have "find (\<lambda>c. c_chain_id c = k \<and> c_active c) (chain_tbl p) = Some c"
      using Cons by (rule find_filter_Cons)
    ultimately show ?thesis
      using Cons polls by (simp add: ChainConfig_query_def q tokensOf_def scan active_tokens_def)
  qed
qed

theorem ChainConfig_exact_witness:
  "fst (ChainConfig_query 1 (sample_tables ''u'' 12)) = Inr \<lparr>cc_ChainID = 1, cc_RPCURL = ''u'', cc_Native = ''ETH'', cc_Decimals = 18,
     cc_BlockTimeMs = 12000, cc_PollingIntervalMs = 4000, cc_MinConfirmations = 12, cc_ChainType = ''erc20'',
     cc_Contracts = [(to_lower ''0xA'', \<lparr>ci_Symbol = ''USDT'', ci_Decimals = 6\<rparr>)]\<rparr>
   \<and> fst (ChainConfig_query 2 (sample_tables ''u'' 12)) = Inl (ConfigError ''chain'' ''chain 2 not found or not active'')"
proof -
  have "show_int (to_i64 2) = ''2''" by code_simp
  then show ?thesis
    using ChainConfig_exact [of "sample_tables ''u'' 12" 1] ChainConfig_exact [of "sample_tables ''u'' 12" 2]
    by (simp add: sample_tables_def)
qed

text \<open>
  The fingerprint covers only the native symbol and the tokens: a new RPC address, number of confirmations, native decimals,
  block time or chain type leaves the list of active chains with their fingerprints as it was.
\<close>

theorem other_settings_undetected:
  assumes "ActiveChains lib p = (Inr infos, p1)" and "cfg_inv p"
    and "ActiveChains lib (p\<lparr>chain_tbl := map (\<lambda>c. c\<lparr>c_rpc_url := url c, c_decimals := dec c, c_block_time := bt c,
           c_confirmations := conf c, c_chain_type := typ c\<rparr>) (chain_tbl p)\<rparr>) = (Inr infos', p2)"
  shows "map (\<lambda>i. (info_ChainID i, TokenConfigHash i)) infos' = map (\<lambda>i. (info_ChainID i, TokenConfigHash i)) infos"
proof -
  define g where "g c = c\<lparr>c_rpc_url := url c, c_decimals := dec c, c_block_time := bt c, c_confirmations := conf c, c_chain_type := typ c\<rparr>" for c
  define q where "q = p\<lparr>chain_tbl := map g (chain_tbl p)\<rparr>"
  have g: "c_chain_id (g c) = c_chain_id c" "c_native (g c) = c_native c" "c_active (g c) = c_active c" for c
    by (simp_all add: g_def)
  have "cfg_inv q" using assms(2) by (simp add: cfg_inv_def q_def g comp_def)
  moreover have "ActiveChains lib q = (Inr infos', p2)" using assms(3) by (simp add: q_def g_def [abs_def])
  ultimately have "infos' = map (info_of lib q) (active_rows q)" using ActiveChains_result by blast
  moreover have "active_rows q = map g (active_rows p)"
    by (simp add: active_rows_def q_def filter_map comp_def g sort_key_map_commute)
  moreover have "chain_tokens q = chain_tokens p" by (simp add: fun_eq_iff chain_tokens_def active_tokens_def q_def)
  moreover have "infos = map (info_of lib p) (active_rows p)" using ActiveChains_result [OF assms(1,2)] by simp
  ultimately show ?thesis by (simp add: info_of_def g)
qed

theorem other_settings_undetected_witness:
  "map (\<lambda>i. (info_ChainID i, TokenConfigHash i)) [info_of sample_hash (sample_tables ''new'' 30) (hd (chain_tbl (sample_tables ''new'' 30)))] =
   map (\<lambda>i. (info_ChainID i, TokenConfigHash i)) [info_of sample_hash (sample_tables ''old'' 12) (hd (chain_tbl (sample_tables ''old'' 12)))]"
proof (rule other_settings_undetected [OF sample_active])
  show "cfg_inv (sample_tables ''old'' 12)" by (simp add: cfg_inv_def sample_tables_def)
  have "(sample_tables ''old'' 12)\<lparr>chain_tbl := map (\<lambda>c. c\<lparr>c_rpc_url := ''new'', c_decimals := 18, c_block_time := 12,
      c_confirmations := 30, c_chain_type := None\<rparr>) (chain_tbl (sample_tables ''old'' 12))\<rparr> = sample_tables ''new'' 30"
    by (simp add: sample_tables_def)
  then show "ActiveChains sample_hash ((sample_tables ''old'' 12)\<lparr>chain_tbl := map (\<lambda>c. c\<lparr>c_rpc_url := ''new'', c_decimals := 18,
      c_block_time := 12, c_confirmations := 30, c_chain_type := None\<rparr>) (chain_tbl (sample_tables ''old'' 12))\<rparr>) =
    (Inr [info_of sample_hash (sample_tables ''new'' 30) (hd (chain_tbl (sample_tables ''new'' 30)))], sample_tables ''new'' 30)"
    using sample_active by simp
qed

end
