(* ===== verification/Auditing.thy ===== *)
theory Auditing
  imports Chain_Source
begin

text \<open>
  \<^verbatim>\<open>internal/audit/auditor.go\<close>: scans sampled blocks again and compares them with the pending rows. The state of the
  buffer, of the chain source, of the connection the scanners use and of \<^verbatim>\<open>math/rand\<close> are parameters; each
  \<^verbatim>\<open>ctx.Err()\<close> takes its answer from a list. A panic is \<^const>\<open>None\<close>.
\<close>

section \<open>Configuration and state\<close>

record AuditConfig =
  IntervalSeconds :: int
  WindowBlocks :: u64
  SafetyMargin :: u64
  SamplesPerCycle :: int
  BlockRescanConfs :: int
  FirstCycleDelay :: int \<comment> \<open>nanoseconds\<close>

record audit_metrics =
  AuditErrors :: "string list" \<comment> \<open>the label of each increment\<close>
  AuditBlocksChecked :: "string list"
  MismatchPendingMissing :: "(string \<times> nat) list" \<comment> \<open>each \<^verbatim>\<open>Add\<close>\<close>
  AuditCycles :: nat
  AuditLastCycleAge :: int

record ('b, 'c, 'w, 'r) audit_state =
  au_buf :: 'b
  au_src :: 'c
  au_world :: 'w
  au_rand :: 'r
  ctx_checks :: "goerror option list"
  au_now :: int
  lastCycleAt :: "int option"
  au_m :: audit_metrics

record ('b, 'c, 'w, 'r) Auditor =
  au_buffer :: "'b AuditBuffer"
  au_source :: "'c ChainSource"
  au_builder :: "ChainConfig \<Rightarrow> 'w \<Rightarrow> (goerror + 'w Scanner \<times> 'w Scanner \<times> ('w \<Rightarrow> 'w)) \<times> 'w"
  Int63n :: "int \<Rightarrow> 'r \<Rightarrow> int \<times> 'r" \<comment> \<open>for a positive bound\<close>
  au_cfg :: AuditConfig

definition audit_New_cfg :: "AuditConfig \<Rightarrow> AuditConfig" where
  "audit_New_cfg cfg =
    (let c1 = (if BlockRescanConfs cfg \<le> 0 then cfg\<lparr>BlockRescanConfs := 1000\<rparr> else cfg)
     in if FirstCycleDelay c1 < 0 then c1\<lparr>FirstCycleDelay := 0\<rparr> else c1)"

definition ctx_Err :: "('b, 'c, 'w, 'r) audit_state \<Rightarrow> goerror option \<times> ('b, 'c, 'w, 'r) audit_state" where
  "ctx_Err st = (case ctx_checks st of [] \<Rightarrow> (None, st) | e # es \<Rightarrow> (e, st\<lparr>ctx_checks := es\<rparr>))"

definition on_metrics :: "(audit_metrics \<Rightarrow> audit_metrics) \<Rightarrow> ('b, 'c, 'w, 'r) audit_state \<Rightarrow> ('b, 'c, 'w, 'r) audit_state" where
  "on_metrics f st = st\<lparr>au_m := f (au_m st)\<rparr>"

definition audit_error :: "string \<Rightarrow> ('b, 'c, 'w, 'r) audit_state \<Rightarrow> ('b, 'c, 'w, 'r) audit_state" where
  "audit_error label = on_metrics (\<lambda>m. m\<lparr>AuditErrors := AuditErrors m @ [label]\<rparr>)"

section \<open>Keys and ownership\<close>

definition ownedBy :: "string \<Rightarrow> int \<Rightarrow> bool" where
  "ownedBy scannerName logIndex =
    (if scannerName = ''log'' then logIndex > -10000
     else if scannerName = ''trace'' then logIndex \<le> -100000 else True)"

definition depositKey :: "int \<Rightarrow> string \<Rightarrow> int \<Rightarrow> string" where
  "depositKey chainID txHash logIndex = show_int chainID @ '':'' @ txHash @ '':'' @ show_int logIndex"

section \<open>auditBlock\<close>

fun count_missing :: "string \<Rightarrow> string list \<Rightarrow> Deposit list \<Rightarrow> nat" where
  "count_missing scannerName rescanned [] = 0"
| "count_missing scannerName rescanned (p # ps) =
    (if depositKey (ChainID p) (TxHash p) (LogIndex p) \<in> set rescanned then count_missing scannerName rescanned ps
     else if \<not> ownedBy scannerName (LogIndex p) then count_missing scannerName rescanned ps
     else Suc (count_missing scannerName rescanned ps))"

definition auditBlock :: "('b, 'c, 'w, 'r) Auditor \<Rightarrow> int \<Rightarrow> string \<Rightarrow> string \<Rightarrow> 'w Scanner \<Rightarrow> u64
    \<Rightarrow> ('b, 'c, 'w, 'r) audit_state \<Rightarrow> ('b, 'c, 'w, 'r) audit_state" where
  "auditBlock A chainID chainLabel scannerName sc blk st =
    (case ScanBlock sc blk (BlockRescanConfs (au_cfg A)) (au_world st) of
       (Inl e, w) \<Rightarrow> audit_error ''rescan'' (st\<lparr>au_world := w\<rparr>)
     | (Inr events, w) \<Rightarrow>
         let st1 = on_metrics (\<lambda>m. m\<lparr>AuditBlocksChecked := AuditBlocksChecked m @ [chainLabel]\<rparr>) (st\<lparr>au_world := w\<rparr>) in
         (case PendingInRange_op (au_buffer A) chainID blk blk (au_buf st1) of
            (Inl e, b) \<Rightarrow> audit_error ''db'' (st1\<lparr>au_buf := b\<rparr>)
          | (Inr pendings, b) \<Rightarrow>
              let rescanned = map (\<lambda>e. depositKey (ev_ChainID e) (ev_TxHash e) (ev_LogIndex e)) events;
                  missing = count_missing scannerName rescanned pendings;
                  st2 = st1\<lparr>au_buf := b\<rparr>
              in if missing > 0
                 then on_metrics (\<lambda>m. m\<lparr>MismatchPendingMissing := MismatchPendingMissing m @ [(chainLabel, missing)]\<rparr>) st2
                 else st2))"

section \<open>auditScanner\<close>

text \<open>The sampling loop with its map \<^verbatim>\<open>tried\<close>, which is returned.\<close>

fun sample_blocks :: "('b, 'c, 'w, 'r) Auditor \<Rightarrow> int \<Rightarrow> 'w Scanner \<Rightarrow> u64 \<Rightarrow> u64 \<Rightarrow> nat \<Rightarrow> u64 list
    \<Rightarrow> ('b, 'c, 'w, 'r) audit_state \<Rightarrow> (u64 list \<times> ('b, 'c, 'w, 'r) audit_state) option" where
  "sample_blocks A chainID sc rangeStart rangeEnd 0 tried st = Some (tried, st)"
| "sample_blocks A chainID sc rangeStart rangeEnd (Suc n) tried st =
    (case ctx_Err st of
       (Some e, st1) \<Rightarrow> Some (tried, st1)
     | (None, st1) \<Rightarrow>
         let bound = to_i64 (rangeEnd - rangeStart + 1) in
         if bound \<le> 0 then None
         else (case Int63n A bound (au_rand st1) of (r, rnd) \<Rightarrow>
           let st2 = st1\<lparr>au_rand := rnd\<rparr>; blk = rangeStart + to_u64 r in
           if blk \<in> set tried then sample_blocks A chainID sc rangeStart rangeEnd n tried st2
           else sample_blocks A chainID sc rangeStart rangeEnd n (blk # tried)
                  (auditBlock A chainID (show_int chainID) (Name sc) sc blk st2)))"

definition auditScanner :: "('b, 'c, 'w, 'r) Auditor \<Rightarrow> int \<Rightarrow> 'w Scanner
    \<Rightarrow> ('b, 'c, 'w, 'r) audit_state \<Rightarrow> (u64 list \<times> ('b, 'c, 'w, 'r) audit_state) option" where
  "auditScanner A chainID sc st =
    (case Cursor_op (au_buffer A) chainID (Name sc) (au_buf st) of
       (Inl e, b) \<Rightarrow> Some ([], audit_error ''db'' (st\<lparr>au_buf := b\<rparr>))
     | (Inr cursor, b) \<Rightarrow>
         let st1 = st\<lparr>au_buf := b\<rparr>; required = WindowBlocks (au_cfg A) + SafetyMargin (au_cfg A) in
         if cursor < required then Some ([], st1)
         else sample_blocks A chainID sc (cursor - required) (cursor - SafetyMargin (au_cfg A))
                (nat (SamplesPerCycle (au_cfg A))) [] st1)"

section \<open>auditChain and runCycle\<close>

definition auditChain :: "('b, 'c, 'w, 'r) Auditor \<Rightarrow> i64 \<Rightarrow> ('b, 'c, 'w, 'r) audit_state
    \<Rightarrow> (bool \<times> ('b, 'c, 'w, 'r) audit_state) option" where
  "auditChain A chainID st =
    (case ChainConfig_op (au_source A) chainID (au_src st) of
       (Inl e, c) \<Rightarrow> Some (False, audit_error ''db'' (st\<lparr>au_src := c\<rparr>))
     | (Inr chainCfg, c) \<Rightarrow>
         (case au_builder A chainCfg (au_world st) of
            (Inl e, w) \<Rightarrow> Some (False, audit_error ''builder'' (st\<lparr>au_src := c, au_world := w\<rparr>))
          | (Inr (logScan, traceScan, cleanup), w) \<Rightarrow>
              (case auditScanner A (to_i64 chainID) logScan (st\<lparr>au_src := c, au_world := w\<rparr>) of
                 None \<Rightarrow> None
               | Some (_, st1) \<Rightarrow>
                   (case auditScanner A (to_i64 chainID) traceScan st1 of
                      None \<Rightarrow> None
                    | Some (_, st2) \<Rightarrow> Some (True, st2\<lparr>au_world := cleanup (au_world st2)\<rparr>)))))"

text \<open>The loop over the chains; it yields whether the context ended. The number of failed chains is only logged.\<close>

fun audit_chains :: "('b, 'c, 'w, 'r) Auditor \<Rightarrow> i64 list \<Rightarrow> ('b, 'c, 'w, 'r) audit_state
    \<Rightarrow> (bool \<times> ('b, 'c, 'w, 'r) audit_state) option" where
  "audit_chains A [] st = Some (False, st)"
| "audit_chains A (k # ks) st =
    (case ctx_Err st of
       (Some e, st1) \<Rightarrow> Some (True, st1)
     | (None, st1) \<Rightarrow>
         (case auditChain A k st1 of None \<Rightarrow> None | Some (_, st2) \<Rightarrow> audit_chains A ks st2))"

definition runCycle :: "('b, 'c, 'w, 'r) Auditor \<Rightarrow> ('b, 'c, 'w, 'r) audit_state \<Rightarrow> ('b, 'c, 'w, 'r) audit_state option" where
  "runCycle A st =
    (case ActiveChains_op (au_source A) (au_src st) of
       (Inl e, c) \<Rightarrow> Some (audit_error ''db'' (st\<lparr>au_src := c\<rparr>))
     | (Inr infos, c) \<Rightarrow>
         (case audit_chains A (map info_ChainID infos) (st\<lparr>au_src := c\<rparr>) of
            None \<Rightarrow> None
          | Some (True, st1) \<Rightarrow> Some st1
          | Some (False, st1) \<Rightarrow>
              Some (on_metrics (\<lambda>m. m\<lparr>AuditCycles := Suc (AuditCycles m), AuditLastCycleAge := 0\<rparr>)
                     (st1\<lparr>lastCycleAt := Some (au_now st1)\<rparr>))))"

section \<open>Run\<close>

definition updateAgeMetric :: "('b, 'c, 'w, 'r) audit_state \<Rightarrow> ('b, 'c, 'w, 'r) audit_state" where
  "updateAgeMetric st =
    (case lastCycleAt st of
       None \<Rightarrow> st
     | Some t \<Rightarrow> on_metrics (\<lambda>m. m\<lparr>AuditLastCycleAge := au_now st - t\<rparr>) st)"

text \<open>What the \<^verbatim>\<open>select\<close> of \<^verbatim>\<open>Run\<close> receives: the first-cycle timer, a tick, a tick of the age timer, or the end of the context.\<close>

datatype audit_event = First_E | Cycle_E | Age_E | AuditCtx_E goerror

datatype audit_end = Auditing | AuditReturned goerror

definition first_delay :: "AuditConfig \<Rightarrow> int" where
  "first_delay cfg = (if FirstCycleDelay cfg = 0 then 30 * 1000000000 else FirstCycleDelay cfg)"

fun audit_events :: "('b, 'c, 'w, 'r) Auditor \<Rightarrow> audit_event list \<Rightarrow> ('b, 'c, 'w, 'r) audit_state
    \<Rightarrow> (audit_end \<times> ('b, 'c, 'w, 'r) audit_state) option" where
  "audit_events A [] st = Some (Auditing, st)"
| "audit_events A (First_E # es) st = (case runCycle A st of None \<Rightarrow> None | Some st1 \<Rightarrow> audit_events A es st1)"
| "audit_events A (Cycle_E # es) st = (case runCycle A st of None \<Rightarrow> None | Some st1 \<Rightarrow> audit_events A es st1)"
| "audit_events A (Age_E # es) st = audit_events A es (updateAgeMetric st)"
| "audit_events A (AuditCtx_E e # es) st = Some (AuditReturned e, st)"

definition audit_Run :: "('b, 'c, 'w, 'r) Auditor \<Rightarrow> audit_event list \<Rightarrow> ('b, 'c, 'w, 'r) audit_state
    \<Rightarrow> (audit_end \<times> ('b, 'c, 'w, 'r) audit_state) option" where
  "audit_Run A es st =
    (if ticker_ok (wrap64 (IntervalSeconds (au_cfg A) * Second)) then audit_events A es st else None)"

section \<open>Lemmas: counting\<close>

lemma depositKey_inject: "depositKey c t l = depositKey c' t' l' \<longleftrightarrow> (c, t, l) = (c', t', l')"
  using ackID_inject [of c t l c' t' l'] by (simp add: depositKey_def ackID_def)

lemma key_rescanned:
  "depositKey (ChainID p) (TxHash p) (LogIndex p) \<in> set (map (\<lambda>e. depositKey (ev_ChainID e) (ev_TxHash e) (ev_LogIndex e)) events)
    \<longleftrightarrow> deposit_key p \<in> event_key ` set events"
  by (auto simp: depositKey_inject deposit_key_def event_key_def image_iff)

lemma count_missing_eq:
  "count_missing name (map (\<lambda>e. depositKey (ev_ChainID e) (ev_TxHash e) (ev_LogIndex e)) events) ps =
    length (filter (\<lambda>p. ownedBy name (LogIndex p) \<and> deposit_key p \<notin> event_key ` set events) ps)"
  unfolding key_rescanned [symmetric] by (induction ps) auto

section \<open>Lemmas: the audit only reads\<close>

lemma metrics_frame [simp]:
  "au_buf (on_metrics f st) = au_buf st" "au_src (on_metrics f st) = au_src st" "au_world (on_metrics f st) = au_world st"
  "au_rand (on_metrics f st) = au_rand st" "ctx_checks (on_metrics f st) = ctx_checks st"
  by (simp_all add: on_metrics_def)

lemma audit_error_frame [simp]: "au_buf (audit_error l st) = au_buf st"
  by (simp add: audit_error_def)

lemma ctx_Err_frame: "ctx_Err st = (e, st') \<Longrightarrow> au_buf st' = au_buf st \<and> au_rand st' = au_rand st"
  by (auto simp: ctx_Err_def split: list.splits)

context audit_buffer
begin

text \<open>The buffer before and after: same tables, invariant kept.\<close>

definition untouched :: "'b \<Rightarrow> 'b \<Rightarrow> bool" where
  "untouched b b' \<longleftrightarrow> (inv b \<longrightarrow> inv b' \<and> tables b' = tables b)"

lemma untouched_refl [simp]: "untouched b b"
  by (simp add: untouched_def)

lemma untouched_trans: "untouched b b1 \<Longrightarrow> untouched b1 b2 \<Longrightarrow> untouched b b2"
  by (auto simp: untouched_def)

lemma auditBlock_untouched:
  assumes "au_buffer A = B"
  shows "untouched (au_buf st) (au_buf (auditBlock A c l n sc blk st))"
  using range_frame assms
  by (auto simp: auditBlock_def untouched_def Let_def split: prod.splits sum.splits)

lemma sample_blocks_untouched:
  "au_buffer A = B \<Longrightarrow> sample_blocks A c sc s e n tried st = Some (tried', st') \<Longrightarrow> untouched (au_buf st) (au_buf st')"
proof (induction n arbitrary: tried st)
  case (Suc n)
  obtain x st1 where x: "ctx_Err st = (x, st1)" by fastforce
  note f = ctx_Err_frame [OF x]
  show ?case
  proof (cases x)
    case (Some err)
    with Suc.prems x f show ?thesis by simp
  next
    case None
    obtain r rnd where r: "Int63n A (to_i64 (e - s + 1)) (au_rand st1) = (r, rnd)" by fastforce
    let ?st2 = "st1\<lparr>au_rand := rnd\<rparr>" and ?blk = "s + to_u64 r"
    have "(if ?blk \<in> set tried then sample_blocks A c sc s e n tried ?st2
        else sample_blocks A c sc s e n (?blk # tried) (auditBlock A c (show_int c) (Name sc) sc ?blk ?st2)) = Some (tried', st')"
      using Suc.prems(2) x None r by (simp add: Let_def split: if_splits)
    then show ?thesis
    proof (cases "?blk \<in> set tried")
      case True
      then show ?thesis
        using Suc.IH [OF Suc.prems(1), of tried ?st2] \<open>(if _ then _ else _) = _\<close> f by simp
    next
      case False
      then have "untouched (au_buf (auditBlock A c (show_int c) (Name sc) sc ?blk ?st2)) (au_buf st')"
        using Suc.IH [OF Suc.prems(1)] \<open>(if _ then _ else _) = _\<close> by simp
      from untouched_trans [OF auditBlock_untouched [OF Suc.prems(1)] this] f show ?thesis by simp
    qed
  qed
qed simp

lemma auditScanner_untouched:
  assumes "au_buffer A = B" and "auditScanner A c sc st = Some (tried, st')"
  shows "untouched (au_buf st) (au_buf st')"
proof -
  obtain x b where x: "Cursor_op B c (Name sc) (au_buf st) = (x, b)" by fastforce
  then have b: "untouched (au_buf st) b" using cursor_frame by (auto simp: untouched_def)
  show ?thesis
    using assms x b sample_blocks_untouched [OF assms(1)]
    by (fastforce simp: auditScanner_def Let_def split: sum.splits if_splits intro: untouched_trans)
qed

lemma auditChain_untouched:
  assumes "au_buffer A = B" and "auditChain A k st = Some (ok, st')"
  shows "untouched (au_buf st) (au_buf st')"
proof -
  obtain x c where x: "ChainConfig_op (au_source A) k (au_src st) = (x, c)" by fastforce
  show ?thesis
  proof (cases x)
    case (Inl e)
    with assms(2) x show ?thesis by (auto simp: auditChain_def)
  next
    case (Inr cfg)
    obtain y w where y: "au_builder A cfg (au_world st) = (y, w)" by fastforce
    show ?thesis
    proof (cases y)
      case (Inl e)
      with assms(2) x y Inr show ?thesis by (auto simp: auditChain_def)
    next
      case (Inr b)
      obtain lg tr cl where b: "b = (lg, tr, cl)" by (cases b)
      let ?st0 = "st\<lparr>au_src := c, au_world := w\<rparr>"
      obtain t1 st1 t2 st2 where s: "auditScanner A (to_i64 k) lg ?st0 = Some (t1, st1)"
          "auditScanner A (to_i64 k) tr st1 = Some (t2, st2)" "au_buf st' = au_buf st2"
        using assms(2) x y \<open>x = Inr cfg\<close> Inr b by (auto simp: auditChain_def split: option.splits)
      from untouched_trans [OF auditScanner_untouched [OF assms(1) s(1)] auditScanner_untouched [OF assms(1) s(2)]] s(3)
      show ?thesis by simp
    qed
  qed
qed

lemma audit_chains_untouched:
  "au_buffer A = B \<Longrightarrow> audit_chains A ks st = Some (stop, st') \<Longrightarrow> untouched (au_buf st) (au_buf st')"
proof (induction ks arbitrary: st)
  case (Cons k ks)
  obtain x st1 where x: "ctx_Err st = (x, st1)" by fastforce
  note f = ctx_Err_frame [OF x]
  show ?case
  proof (cases x)
    case None
    then obtain ok st2 where s: "auditChain A k st1 = Some (ok, st2)" "audit_chains A ks st2 = Some (stop, st')"
      using Cons.prems(2) x by (auto split: option.splits)
    from untouched_trans [OF auditChain_untouched [OF Cons.prems(1) s(1)] Cons.IH [OF Cons.prems(1) s(2)]] f show ?thesis by simp
  next
    case (Some e)
    with Cons.prems x f show ?thesis by simp
  qed
qed simp

lemma runCycle_untouched:
  assumes "au_buffer A = B" and "runCycle A st = Some st'"
  shows "untouched (au_buf st) (au_buf st')"
proof -
  obtain x c where x: "ActiveChains_op (au_source A) (au_src st) = (x, c)" by fastforce
  show ?thesis
  proof (cases x)
    case (Inl e)
    with assms(2) x show ?thesis by (auto simp: runCycle_def)
  next
    case (Inr infos)
    then obtain stop st1 where s: "audit_chains A (map info_ChainID infos) (st\<lparr>au_src := c\<rparr>) = Some (stop, st1)" "au_buf st' = au_buf st1"
      using assms(2) x by (auto simp: runCycle_def split: option.splits bool.splits)
    with audit_chains_untouched [OF assms(1) s(1)] show ?thesis by simp
  qed
qed

lemma audit_events_untouched:
  "au_buffer A = B \<Longrightarrow> audit_events A es st = Some (r, st') \<Longrightarrow> untouched (au_buf st) (au_buf st')"
proof (induction es arbitrary: st)
  case (Cons x es)
  have age: "au_buf (updateAgeMetric st) = au_buf st" by (simp add: updateAgeMetric_def split: option.split)
  show ?case
  proof (cases x)
    case Age_E
    with Cons age show ?thesis by (metis audit_events.simps(4))
  next
    case (AuditCtx_E e)
    with Cons.prems show ?thesis by simp
  qed (use Cons in \<open>auto split: option.splits intro: untouched_trans runCycle_untouched\<close>)
qed simp

lemma audit_Run_untouched:
  "au_buffer A = B \<Longrightarrow> audit_Run A es st = Some (r, st') \<Longrightarrow> untouched (au_buf st) (au_buf st')"
  by (auto simp: audit_Run_def intro: audit_events_untouched split: if_splits)

text \<open>What one block's audit adds to the alarm counter.\<close>

lemma auditBlock_alarm:
  assumes "au_buffer A = B" and "inv (au_buf st)" and "ScanBlock sc blk (BlockRescanConfs (au_cfg A)) (au_world st) = (Inr events, w)"
    and "PendingInRange_op B c blk blk (au_buf st) = (Inr ps, b)"
  shows "MismatchPendingMissing (au_m (auditBlock A c label name sc blk st)) = MismatchPendingMissing (au_m st) @
    (let n = length (filter (\<lambda>p. ownedBy name (LogIndex p) \<and> deposit_key p \<notin> event_key ` set events) (block_rows (au_buf st) c blk blk))
     in if n > 0 then [(label, n)] else [])"
proof -
  have "ps = block_rows (au_buf st) c blk blk" using range_result [OF assms(2,4)] .
  then show ?thesis
    using assms(1,3,4) by (simp add: auditBlock_def Let_def count_missing_eq on_metrics_def)
qed

end

section \<open>Lemmas: the sampled blocks\<close>

definition draws_ok :: "('b, 'c, 'w, 'r) Auditor \<Rightarrow> bool" where
  "draws_ok A \<longleftrightarrow> (\<forall>n r. 0 < n \<longrightarrow> 0 \<le> fst (Int63n A n r) \<and> fst (Int63n A n r) < n)"

lemma sample_blocks_range:
  assumes "draws_ok A" and "0 < to_i64 (e - s + 1)"
  shows "\<exists>tried' st'. sample_blocks A c sc s e n tried st = Some (tried', st') \<and> length tried' \<le> length tried + n
    \<and> (distinct tried \<longrightarrow> distinct tried')
    \<and> (\<forall>b \<in> set tried'. b \<in> set tried \<or> (\<exists>x. 0 \<le> x \<and> x < to_i64 (e - s + 1) \<and> b = s + to_u64 x))"
proof (induction n arbitrary: tried st)
  case (Suc n)
  obtain y st1 where y: "ctx_Err st = (y, st1)" by fastforce
  show ?case
  proof (cases y)
    case (Some err)
    with y show ?thesis by simp
  next
    case None
    obtain r rnd where r: "Int63n A (to_i64 (e - s + 1)) (au_rand st1) = (r, rnd)" by fastforce
    have r_range: "0 \<le> r" "r < to_i64 (e - s + 1)"
      using assms r unfolding draws_ok_def by (metis fst_conv)+
    let ?st2 = "st1\<lparr>au_rand := rnd\<rparr>" and ?blk = "s + to_u64 r"
    let ?audited = "auditBlock A c (show_int c) (Name sc) sc ?blk ?st2"
    have step: "sample_blocks A c sc s e (Suc n) tried st = (if ?blk \<in> set tried then sample_blocks A c sc s e n tried ?st2
        else sample_blocks A c sc s e n (?blk # tried) ?audited)"
      using y None r assms(2) by (simp add: Let_def)
    show ?thesis
    proof (cases "?blk \<in> set tried")
      case True
      obtain tried' st' where "sample_blocks A c sc s e n tried ?st2 = Some (tried', st')" "length tried' \<le> length tried + n"
          "distinct tried \<longrightarrow> distinct tried'" "\<forall>b \<in> set tried'. b \<in> set tried \<or> (\<exists>x. 0 \<le> x \<and> x < to_i64 (e - s + 1) \<and> b = s + to_u64 x)"
        using Suc.IH [of tried ?st2] by blast
      with step True show ?thesis by (intro exI [of _ tried'] exI [of _ st']) simp
    next
      case False
      obtain tried' st' where t: "sample_blocks A c sc s e n (?blk # tried) ?audited = Some (tried', st')" "length tried' \<le> Suc (length tried) + n"
          "distinct (?blk # tried) \<longrightarrow> distinct tried'"
          "\<forall>b \<in> set tried'. b \<in> set (?blk # tried) \<or> (\<exists>x. 0 \<le> x \<and> x < to_i64 (e - s + 1) \<and> b = s + to_u64 x)"
        using Suc.IH [of "?blk # tried" ?audited] by auto
      have "\<forall>b \<in> set tried'. b \<in> set tried \<or> (\<exists>x. 0 \<le> x \<and> x < to_i64 (e - s + 1) \<and> b = s + to_u64 x)"
        using t(4) r_range by auto
      with step False t show ?thesis by (intro exI [of _ tried'] exI [of _ st']) simp
    qed
  qed
qed simp

lemma window_bound: "unat (W :: u64) + 1 < 2 ^ 63 \<Longrightarrow> to_i64 (W + 1) = int (unat W) + 1"
proof -
  assume "unat W + 1 < 2 ^ 63"
  then have "int (unat W + 1) < int (2 ^ 63)" by (simp only: of_nat_less_iff)
  then have "int (unat W) + 1 < 2 ^ 63" by (simp only: of_nat_add of_nat_power of_nat_1 of_nat_numeral)
  then have "to_i64 (to_u64 (int (unat W) + 1)) = int (unat W) + 1" by (intro i64_u64) simp_all
  moreover have "to_u64 (int (unat W) + 1) = W + 1" by (simp add: to_u64_def)
  ultimately show ?thesis by metis
qed

lemma sampled_block_range:
  fixes c W M :: u64
  assumes "unat W + unat M < 2 ^ 64" and "W + M \<le> c" and "0 \<le> x" and "x \<le> int (unat W)"
  shows "unat c - unat M - unat W \<le> unat (c - (W + M) + to_u64 x) \<and> unat (c - (W + M) + to_u64 x) \<le> unat c - unat M"
proof -
  have wm: "unat (W + M) = unat W + unat M" using assms(1) by (simp add: unat_plus_if' take_bit_eq_mod)
  then have le: "unat W + unat M \<le> unat c" using assms(2) by (simp add: word_le_nat_alt)
  have "int (unat W) < int (2 ^ 64)" using unat_u64_less [of W] by (simp only: of_nat_less_iff)
  then have "x < 2 ^ 64" using assms(4) by (simp only: of_nat_power of_nat_numeral)
  then have x: "int (unat (to_u64 x)) = x" using unat_to_u64 [of x] assms(3) by blast
  have s: "unat (c - (W + M)) = unat c - (unat W + unat M)" using unat_sub [OF assms(2)] wm by simp
  have "unat (c - (W + M)) + unat (to_u64 x) < 2 ^ 64"
    using s x le assms(4) unat_u64_less [of c] by linarith
  then have "unat (c - (W + M) + to_u64 x) = unat (c - (W + M)) + unat (to_u64 x)"
    by (simp add: unat_plus_if')
  then show ?thesis using s x le assms(3,4) by linarith
qed

section \<open>Properties\<close>

text \<open>
  C10. The alarm is exact. When the rescan of a block and the read of its pending rows both succeed, the mismatch counter
  grows by precisely the number of pending deposits of that chain and block which lie in the scanner's index range and
  whose key is not among the rescanned events; it is not touched when there are none.
\<close>

theorem audit_alarm_exact:
  assumes "au_buffer A = audit_repo" and "db_inv (store (au_buf st))"
    and "ScanBlock sc blk (BlockRescanConfs (au_cfg A)) (au_world st) = (Inr events, w)"
    and "PendingInRange chainID blk blk (au_buf st) = (Inr ps, b)"
  shows "MismatchPendingMissing (au_m (auditBlock A chainID label name sc blk st)) = MismatchPendingMissing (au_m st) @
    (let n = length (filter (\<lambda>p. ownedBy name (LogIndex p) \<and> deposit_key p \<notin> event_key ` set events)
           (map (the \<circ> decoded) (in_range_rows chainID blk blk (store (au_buf st)))))
     in if n > 0 then [(label, n)] else [])"
  using audit_repo.auditBlock_alarm [OF assms(1,2,3)] assms(4) by (simp add: audit_repo_def)

text \<open>
  C32. The sampled blocks. With a window and a margin that fit 64 bits, \<^verbatim>\<open>auditScanner\<close> never panics, checks at most
  \<^verbatim>\<open>SamplesPerCycle\<close> blocks, none twice, and every one lies between the cursor minus margin and window and the cursor minus margin.
\<close>

theorem audit_samples_window:
  assumes "au_buffer A = audit_repo" and "db_inv (store (au_buf st))" and "draws_ok A"
    and "unat (WindowBlocks (au_cfg A)) + unat (SafetyMargin (au_cfg A)) < 2 ^ 64" and "unat (WindowBlocks (au_cfg A)) + 1 < 2 ^ 63"
  shows "\<exists>tried st'. auditScanner A chainID sc st = Some (tried, st') \<and> distinct tried
    \<and> length tried \<le> nat (SamplesPerCycle (au_cfg A))
    \<and> (\<forall>blk \<in> set tried.
         unat (cursor_of (store (au_buf st)) chainID (Name sc)) - unat (SafetyMargin (au_cfg A)) - unat (WindowBlocks (au_cfg A)) \<le> unat blk
       \<and> unat blk \<le> unat (cursor_of (store (au_buf st)) chainID (Name sc)) - unat (SafetyMargin (au_cfg A)))"
proof -
  obtain x b where x: "Cursor_op (au_buffer A) chainID (Name sc) (au_buf st) = (x, b)" by fastforce
  show ?thesis
  proof (cases x)
    case (Inl e)
    with x show ?thesis by (simp add: auditScanner_def)
  next
    case (Inr v)
    have v: "v = cursor_of (store (au_buf st)) chainID (Name sc)"
      using audit_repo.cursor_result [OF assms(2)] x Inr assms(1) by simp
    let ?W = "WindowBlocks (au_cfg A)" and ?M = "SafetyMargin (au_cfg A)"
    show ?thesis
    proof (cases "v < ?W + ?M")
      case True
      with x Inr show ?thesis by (simp add: auditScanner_def)
    next
      case False
      have "v - ?M - (v - (?W + ?M)) + 1 = ?W + 1" by simp
      then have bound: "to_i64 (v - ?M - (v - (?W + ?M)) + 1) = int (unat ?W) + 1" using window_bound [OF assms(5)] by metis
      then have "0 < to_i64 (v - ?M - (v - (?W + ?M)) + 1)" by linarith
      from sample_blocks_range [OF assms(3) this, of chainID sc "nat (SamplesPerCycle (au_cfg A))" "[]" "st\<lparr>au_buf := b\<rparr>"]
      obtain tried st' where s: "sample_blocks A chainID sc (v - (?W + ?M)) (v - ?M) (nat (SamplesPerCycle (au_cfg A))) [] (st\<lparr>au_buf := b\<rparr>) = Some (tried, st')"
        and len: "length tried \<le> length ([] :: u64 list) + nat (SamplesPerCycle (au_cfg A))"
        and d: "distinct ([] :: u64 list) \<longrightarrow> distinct tried"
        and m: "\<forall>blk \<in> set tried. blk \<in> set [] \<or> (\<exists>y. 0 \<le> y \<and> y < int (unat ?W) + 1 \<and> blk = v - (?W + ?M) + to_u64 y)"
        unfolding bound by blast
      have t: "auditScanner A chainID sc st = Some (tried, st')" "length tried \<le> nat (SamplesPerCycle (au_cfg A))" "distinct tried"
          "\<forall>blk \<in> set tried. \<exists>y. 0 \<le> y \<and> y < int (unat ?W) + 1 \<and> blk = v - (?W + ?M) + to_u64 y"
        using s len d m x Inr False by (simp_all add: auditScanner_def Let_def)
      have "unat v - unat ?M - unat ?W \<le> unat blk \<and> unat blk \<le> unat v - unat ?M" if blk: "blk \<in> set tried" for blk
      proof -
        obtain y where y: "0 \<le> y" "y < int (unat ?W) + 1" "blk = v - (?W + ?M) + to_u64 y" using t(4) blk by blast
        have "?W + ?M \<le> v" using False by simp
        from sampled_block_range [OF assms(4) this y(1)] y(2,3) show ?thesis by simp
      qed
      with t v show ?thesis by blast
    qed
  qed
qed


text \<open>
  A window of -1 (\<^verbatim>\<open>AUDIT_WINDOW_BLOCKS=-1\<close>, the largest 64-bit number) makes the first sample panic as soon as the cursor
  has reached the margin: the bound handed to \<^verbatim>\<open>rand.Int63n\<close> is zero.
\<close>

theorem audit_negative_window_panics:
  assumes "WindowBlocks (au_cfg A) = to_u64 (-1)" and "0 < SamplesPerCycle (au_cfg A)"
    and "Cursor_op (au_buffer A) chainID (Name sc) (au_buf st) = (Inr v, b)" and "SafetyMargin (au_cfg A) \<le> v" and "ctx_checks st = []"
    and "0 < SafetyMargin (au_cfg A)"
  shows "auditScanner A chainID sc st = None"
proof -
  let ?M = "SafetyMargin (au_cfg A)"
  have w: "WindowBlocks (au_cfg A) = - 1" using assms(1) by (simp add: to_u64_def)
  have "\<not> v < - 1 + ?M"
  proof -
    have "?M \<noteq> 0" using assms(6) by auto
    then have "?M - 1 \<le> ?M" by (simp add: word_le_nat_alt unat_minus_one)
    then have "- 1 + ?M \<le> v" using assms(4) by (metis add.commute order_trans add_uminus_conv_diff)
    then show ?thesis by (simp only: not_less)
  qed
  moreover obtain n where "nat (SamplesPerCycle (au_cfg A)) = Suc n" using assms(2) by (metis gr0_implies_Suc zero_less_nat_eq)
  moreover have "to_i64 (v - ?M - (v - (- 1 + ?M)) + 1) = 0" by (simp add: to_i64_def)
  ultimately show ?thesis
    using assms(3,5) w by (simp add: auditScanner_def Let_def ctx_Err_def)
qed

section \<open>Instances\<close>

text \<open>A buffer with one native deposit of block 100, cursor at 2000, and a scanner that finds nothing when it looks again.\<close>

definition audited_pool :: pool where
  "audited_pool = \<lparr>store = saved 5 1 ''log'' 2000 [] (saved 5 1 ''log'' 100 [sample_deposit] empty_db), outcomes = [], clock = 5\<rparr>"

definition blind_scanner :: "unit Scanner" where
  "blind_scanner = \<lparr>Name = ''log'', ScanBlock = (\<lambda>b k w. (Inr [], w))\<rparr>"

definition sample_auditor :: "u64 \<Rightarrow> (pool, unit, unit, int) Auditor" where
  "sample_auditor window = \<lparr>au_buffer = audit_repo,
     au_source = \<lparr>ActiveChains_op = (\<lambda>c. (Inr [\<lparr>info_ChainID = 1, info_RPCURL = [], TokenConfigHash = []\<rparr>], c)), ChainConfig_op = (\<lambda>k c. (Inl EOF, c))\<rparr>,
     au_builder = (\<lambda>cfg w. (Inr (blind_scanner, blind_scanner, \<lambda>w. w), w)), Int63n = (\<lambda>n r. (r mod n, r + 1)),
     au_cfg = \<lparr>IntervalSeconds = 3600, WindowBlocks = window, SafetyMargin = 50, SamplesPerCycle = 5, BlockRescanConfs = 1000, FirstCycleDelay = 0\<rparr>\<rparr>"

definition sample_audit :: "(pool, unit, unit, int) audit_state" where
  "sample_audit = \<lparr>au_buf = audited_pool, au_src = (), au_world = (), au_rand = 7, ctx_checks = [], au_now = 0, lastCycleAt = None,
     au_m = \<lparr>AuditErrors = [], AuditBlocksChecked = [], MismatchPendingMissing = [], AuditCycles = 0, AuditLastCycleAge = 0\<rparr>\<rparr>"

lemma audited_inv: "db_inv (store audited_pool)"
proof -
  have "in_i32 (LogIndex sample_deposit)" by (simp add: sample_deposit_def in_i32_def)
  then show ?thesis by (simp add: audited_pool_def db_inv_saved)
qed

lemma audited_rows: "map (the \<circ> decoded) (in_range_rows 1 100 100 (store audited_pool)) = [sample_deposit]"
proof -
  have buf: "deposit_buffer (store audited_pool) = [\<lparr>row_id = 1, row_chain_id = 1, row_tx_hash = ''0xab'', row_log_index = -1,
      row_payload = jsonb (marshal_deposit sample_deposit), row_created_at = 5, row_block_number = Some 100\<rparr>]"
    by (simp add: audited_pool_def deposit_buffer_saved insert_row_def Let_def empty_db_def to_i64_def)
      (simp add: sample_deposit_def)
  have "decoded \<lparr>row_id = 1, row_chain_id = 1, row_tx_hash = ''0xab'', row_log_index = -1,
      row_payload = jsonb (marshal_deposit sample_deposit), row_created_at = 5, row_block_number = Some 100\<rparr> = Some sample_deposit"
    by (simp add: decoded_def unmarshal_stored)
  then show ?thesis by (simp add: in_range_rows_def buf to_i64_def)
qed

lemma audited_read: "PendingInRange 1 100 100 audited_pool = (Inr [sample_deposit], audited_pool)"
proof -
  have "list_all row_ok (in_range_rows 1 100 100 (store audited_pool))"
    using audited_inv by (auto simp: db_inv_def in_range_rows_def list_all_iff)
  moreover have "outcomes audited_pool = []" by (simp add: audited_pool_def)
  ultimately show ?thesis
    using scan_payloads_ok audited_rows by (simp add: PendingInRange_def query_def scanDeposits_def)
qed

theorem audit_alarm_exact_witness:
  "MismatchPendingMissing (au_m (auditBlock (sample_auditor 1000) 1 ''1'' ''log'' blind_scanner 100 sample_audit)) = [(''1'', 1)]"
proof -
  have s: "au_buffer (sample_auditor 1000) = audit_repo" "au_buf sample_audit = audited_pool"
    "ScanBlock blind_scanner 100 (BlockRescanConfs (au_cfg (sample_auditor 1000))) (au_world sample_audit) = (Inr [], ())"
    "MismatchPendingMissing (au_m sample_audit) = []"
    by (simp_all add: sample_auditor_def sample_audit_def blind_scanner_def)
  have o: "ownedBy ''log'' (LogIndex sample_deposit)" by (simp add: ownedBy_def sample_deposit_def)
  show ?thesis
    using audit_alarm_exact [OF s(1) _ s(3), of 1 "[sample_deposit]" audited_pool "''1''" "''log''"]
    unfolding s(2,4) audited_rows by (simp add: audited_inv audited_read o)
qed

theorem audit_samples_window_witness:
  "\<exists>tried st'. auditScanner (sample_auditor 1000) 1 blind_scanner sample_audit = Some (tried, st') \<and> length tried \<le> 5
    \<and> (\<forall>blk \<in> set tried. 950 \<le> unat blk \<and> unat blk \<le> 1950)"
proof -
  have "cursor_of (store audited_pool) 1 ''log'' = 2000"
    by (simp add: audited_pool_def cursor_of_def scan_cursor_saved)
  moreover have "draws_ok (sample_auditor 1000)" by (simp add: draws_ok_def sample_auditor_def)
  moreover have "au_buffer (sample_auditor 1000) = audit_repo" "WindowBlocks (au_cfg (sample_auditor 1000)) = 1000"
      "SafetyMargin (au_cfg (sample_auditor 1000)) = 50" "SamplesPerCycle (au_cfg (sample_auditor 1000)) = 5"
      "au_buf sample_audit = audited_pool" "Name blind_scanner = ''log''"
    by (simp_all add: sample_auditor_def sample_audit_def blind_scanner_def)
  ultimately show ?thesis
    using audit_samples_window [of "sample_auditor 1000" sample_audit 1 blind_scanner] audited_inv by auto
qed


theorem audit_negative_window_panics_witness:
  "auditScanner (sample_auditor (to_u64 (-1))) 1 blind_scanner sample_audit = None"
proof (rule audit_negative_window_panics)
  have "Cursor 1 ''log'' audited_pool = (Inr 2000, audited_pool)"
    using Cursor_served [of audited_pool 1 "''log''"] by (simp add: audited_pool_def cursor_of_def scan_cursor_saved)
  then show "Cursor_op (au_buffer (sample_auditor (to_u64 (-1)))) 1 (Name blind_scanner) (au_buf sample_audit) = (Inr 2000, audited_pool)"
    by (simp add: sample_auditor_def sample_audit_def blind_scanner_def audit_repo_def)
qed (simp_all add: sample_auditor_def sample_audit_def)

end
