(* ===== verification/Decoders.thy ===== *)
theory Decoders
  imports Eth
begin

text \<open>
  Package \<^verbatim>\<open>internal/scanner/decoder\<close>: the decoders of token logs and the registry that dispatches a log to one of
  them by its first topic. The Go interface \<^verbatim>\<open>Decoder\<close> has two implementations in the repository; it is the datatype
  of the two, with one equation per method and implementation.
\<close>

section \<open>Decoders\<close>

record Context =
  ctx_ChainID :: int
  ctx_Confirmations :: int
  ctx_TransactionDatetime :: string
  ctx_Symbol :: string

datatype Decoder = StandardERC20 | EERC Decryptor

definition TransferTopic :: "eth_lib \<Rightarrow> hash" where
  "TransferTopic lib = Keccak256Hash lib ''Transfer(address,address,uint256)''"

definition PrivateTransferTopic :: "eth_lib \<Rightarrow> hash" where
  "PrivateTransferTopic lib = Keccak256Hash lib ''PrivateTransfer(address,address,uint256[7],address)''"

text \<open>\<^verbatim>\<open>NewEERC\<close>: a nil decryptor is replaced by the no-op one.\<close>

definition NewEERC :: "Decryptor option \<Rightarrow> Decoder" where
  "NewEERC d = EERC (case d of None \<Rightarrow> NoopDecryptor | Some x \<Rightarrow> x)"

fun dec_Name :: "Decoder \<Rightarrow> string" where
  "dec_Name StandardERC20 = ''erc20''"
| "dec_Name (EERC _) = ''eerc''"

fun dec_Topics :: "eth_lib \<Rightarrow> Decoder \<Rightarrow> hash list" where
  "dec_Topics lib StandardERC20 = [TransferTopic lib]"
| "dec_Topics lib (EERC _) = [PrivateTransferTopic lib]"

text \<open>The event both decoders build from a log, once the amount is known.\<close>

definition token_event :: "eth_lib \<Rightarrow> Log \<Rightarrow> ContractInfo \<Rightarrow> Context \<Rightarrow> int \<Rightarrow> DepositEvent" where
  "token_event lib lg info ctx amount =
    \<lparr>ev_ChainID = ctx_ChainID ctx, ev_TxHash = hash_Hex lib (log_TxHash lg), ev_LogIndex = to_i64 (log_Index lg),
     ev_FromAddress = addr_Hex lib (BytesToAddress lib (log_Topics lg ! 1)),
     ev_ToAddress = addr_Hex lib (BytesToAddress lib (log_Topics lg ! 2)),
     ev_Amount = Some amount, ev_Symbol = ctx_Symbol ctx, ev_Decimals = ci_Decimals info,
     ev_Confirmations = ctx_Confirmations ctx, ev_TransactionDatetime = ctx_TransactionDatetime ctx\<rparr>"

definition erc20_Decode :: "eth_lib \<Rightarrow> Log \<Rightarrow> ContractInfo \<Rightarrow> Context \<Rightarrow> goerror + DepositEvent option" where
  "erc20_Decode lib lg info ctx =
    (if length (log_Topics lg) < 3 \<or> log_Topics lg ! 0 \<noteq> TransferTopic lib \<or> length (log_Data lg) < 32
     then Inr None
     else Inr (Some (token_event lib lg info ctx (SetBytes (take 32 (log_Data lg))))))"

definition pct_of :: "byte list \<Rightarrow> int option list" where
  "pct_of data = map (\<lambda>i. Some (SetBytes (take 32 (drop (i * 32) data)))) [0..<7]"

definition eerc_Decode :: "eth_lib \<Rightarrow> Decryptor \<Rightarrow> Log \<Rightarrow> ContractInfo \<Rightarrow> Context \<Rightarrow> goerror + DepositEvent option" where
  "eerc_Decode lib d lg info ctx =
    (if length (log_Topics lg) < 4 \<or> log_Topics lg ! 0 \<noteq> PrivateTransferTopic lib then Inr None
     else if length (log_Data lg) < 7 * 32 then Inr None
     else (case DecryptAmount d (pct_of (log_Data lg)) of
        Inl e \<Rightarrow> Inl (Wrap ''eERC decrypt'' e)
      | Inr amount \<Rightarrow> Inr (Some (token_event lib lg info ctx amount))))"

fun Decode :: "eth_lib \<Rightarrow> Decoder \<Rightarrow> Log \<Rightarrow> ContractInfo \<Rightarrow> Context \<Rightarrow> goerror + DepositEvent option" where
  "Decode lib StandardERC20 = erc20_Decode lib"
| "Decode lib (EERC d) = eerc_Decode lib d"

section \<open>Registry\<close>

record Registry =
  byTopic :: "hash \<Rightarrow> Decoder option"
  topics :: "hash list"

definition NewRegistry :: Registry where
  "NewRegistry = \<lparr>byTopic = Map.empty, topics = []\<rparr>"

definition register_topic :: "Decoder \<Rightarrow> hash \<Rightarrow> Registry \<Rightarrow> Registry" where
  "register_topic d t r =
    r\<lparr>topics := (if byTopic r t = None then topics r @ [t] else topics r), byTopic := (byTopic r)(t \<mapsto> d)\<rparr>"

definition Register :: "eth_lib \<Rightarrow> Decoder \<Rightarrow> Registry \<Rightarrow> Registry" where
  "Register lib d r = foldl (\<lambda>r t. register_topic d t r) r (dec_Topics lib d)"

definition Lookup :: "Registry \<Rightarrow> hash \<Rightarrow> Decoder option" where
  "Lookup r t = byTopic r t"

definition Len :: "Registry \<Rightarrow> int" where
  "Len r = int (length (topics r))"

section \<open>The contract of a decoder\<close>

text \<open>
  What the log scanner relies on: a decoded event is identified by the log it came from, carries the context
  it was given, and is typed.
\<close>

locale decoder =
  fixes decode :: "Log \<Rightarrow> ContractInfo \<Rightarrow> Context \<Rightarrow> goerror + DepositEvent option" and lib :: eth_lib
  assumes decoded_event: "decode lg info ctx = Inr (Some ev) \<Longrightarrow>
      \<exists>amount. 0 \<le> amount \<and> ev = token_event lib lg info ctx amount"
begin

lemma decoded_key:
  assumes "decode lg info ctx = Inr (Some ev)"
  shows "event_key ev = (ctx_ChainID ctx, hash_Hex lib (log_TxHash lg), to_i64 (log_Index lg))"
  using decoded_event [OF assms] by (auto simp: token_event_def event_key_def)

lemma decoded_typed:
  assumes "decode lg info ctx = Inr (Some ev)" and "in_i64 (ctx_ChainID ctx)" and "in_i64 (ctx_Confirmations ctx)"
  shows "typed_event ev"
  using decoded_event [OF assms(1)] assms(2,3) by (auto simp: token_event_def typed_event_def)

end

lemma SetBytes_nonneg: "0 \<le> SetBytes bs"
proof -
  have "0 \<le> foldl (\<lambda>n b. 256 * n + uint b) m bs" if "0 \<le> m" for m
    using that by (induction bs arbitrary: m) simp_all
  then show ?thesis by (simp add: SetBytes_def)
qed

interpretation erc20: decoder "erc20_Decode lib" lib for lib
  by unfold_locales (auto simp: erc20_Decode_def split: if_splits intro!: exI [of _ "SetBytes _"] SetBytes_nonneg)

interpretation eerc: decoder "eerc_Decode lib d" lib for lib d
proof
  fix lg :: Log and info ctx ev
  obtain e where e: "DecryptAmount d (pct_of (log_Data lg)) = Inl e" using DecryptAmount_error by blast
  assume "eerc_Decode lib d lg info ctx = Inr (Some ev)"
  with e show "\<exists>amount. 0 \<le> amount \<and> ev = token_event lib lg info ctx amount"
    by (simp add: eerc_Decode_def split: if_splits)
qed

interpretation dec: decoder "Decode lib d" lib for lib d
proof (cases d)
  case StandardERC20
  then show "decoder (Decode lib d) lib" using erc20.decoder_axioms by simp
next
  case (EERC x)
  then show "decoder (Decode lib d) lib" using eerc.decoder_axioms by simp
qed

section \<open>Private transfers\<close>

text \<open>A complete \<^verbatim>\<open>PrivateTransfer\<close> log; decryption is not implemented, so it is always an error.\<close>

definition private_transfer :: "eth_lib \<Rightarrow> Log \<Rightarrow> bool" where
  "private_transfer lib lg \<longleftrightarrow> length (log_Topics lg) \<ge> 4 \<and> log_Topics lg ! 0 = PrivateTransferTopic lib \<and> length (log_Data lg) \<ge> 7 * 32"

lemma eerc_Decode_error:
  assumes "private_transfer lib lg"
  shows "\<exists>e. eerc_Decode lib d lg info ctx = Inl e"
  using assms DecryptAmount_error [of d "pct_of (log_Data lg)"]
  by (auto simp: private_transfer_def eerc_Decode_def)

section \<open>Lemmas\<close>

definition registry_ok :: "Registry \<Rightarrow> bool" where
  "registry_ok r \<longleftrightarrow> distinct (topics r) \<and> set (topics r) = dom (byTopic r)"

lemma registry_ok_register: "registry_ok r \<Longrightarrow> registry_ok (register_topic d t r)"
  by (auto simp: registry_ok_def register_topic_def)

lemma foldl_register:
  "registry_ok r \<Longrightarrow> registry_ok (foldl (\<lambda>r t. register_topic d t r) r ts)
    \<and> (\<forall>t. byTopic (foldl (\<lambda>r t. register_topic d t r) r ts) t = (if t \<in> set ts then Some d else byTopic r t))"
  by (induction ts arbitrary: r) (auto simp: registry_ok_register, auto simp: register_topic_def)

section \<open>Properties\<close>

text \<open>
  The registry dispatches: after any sequence of registrations on an empty registry, \<^verbatim>\<open>Lookup\<close> returns the decoder
  registered last for the topic, the topic list holds exactly the topics that are served, each once, and
  \<^verbatim>\<open>Len\<close> is their number.
\<close>

theorem registry_dispatch:
  "let r = foldl (\<lambda>r d. Register lib d r) NewRegistry ds in
     (\<forall>t. Lookup r t = find (\<lambda>d. t \<in> set (dec_Topics lib d)) (rev ds))
     \<and> distinct (topics r) \<and> set (topics r) = {t. Lookup r t \<noteq> None} \<and> Len r = int (card {t. Lookup r t \<noteq> None})"
proof -
  define r where "r = foldl (\<lambda>r d. Register lib d r) NewRegistry ds"
  have "registry_ok r \<and> (\<forall>t. byTopic r t = find (\<lambda>d. t \<in> set (dec_Topics lib d)) (rev ds))"
    unfolding r_def
  proof (induction ds rule: rev_induct)
    case Nil
    then show ?case by (simp add: registry_ok_def NewRegistry_def)
  next
    case (snoc d ds)
    then show ?case
      using foldl_register [of "foldl (\<lambda>r d. Register lib d r) NewRegistry ds" d "dec_Topics lib d"]
      by (auto simp: Register_def)
  qed
  then show ?thesis
    using distinct_card [of "topics r"] by (auto simp: Let_def Lookup_def Len_def registry_ok_def dom_def simp flip: r_def)
qed

text \<open>
  A standard ERC-20 transfer log is decoded exactly: with three topics, the transfer topic first and at least 32 bytes of
  data, the event names the log's transaction and index, the addresses in topics 1 and 2, and the amount is the
  big-endian number in the first 32 bytes, which is below \<^term>\<open>2 ^ 256 :: int\<close>.
\<close>

theorem erc20_decodes_transfer:
  assumes "log_Topics lg = [TransferTopic lib, t1, t2]" and "length (log_Data lg) \<ge> 32"
  shows "\<exists>ev. Decode lib StandardERC20 lg info ctx = Inr (Some ev)
    \<and> event_key ev = (ctx_ChainID ctx, hash_Hex lib (log_TxHash lg), to_i64 (log_Index lg))
    \<and> ev_FromAddress ev = addr_Hex lib (BytesToAddress lib t1) \<and> ev_ToAddress ev = addr_Hex lib (BytesToAddress lib t2)
    \<and> ev_Amount ev = Some (SetBytes (take 32 (log_Data lg))) \<and> ev_Symbol ev = ctx_Symbol ctx \<and> ev_Decimals ev = ci_Decimals info
    \<and> SetBytes (take 32 (log_Data lg)) < 2 ^ 256"
proof -
  have bound: "foldl (\<lambda>n b. 256 * n + uint b) m (bs :: byte list) < (m + 1) * 256 ^ length bs" if "0 \<le> m" for m bs
    using that
  proof (induction bs arbitrary: m)
    case (Cons b bs)
    have b: "uint b \<le> 255" using unsigned_less [of b, where 'a = int] by simp
    have "foldl (\<lambda>n b. 256 * n + uint b) (256 * m + uint b) bs < (256 * m + uint b + 1) * 256 ^ length bs"
      using Cons.prems by (intro Cons.IH) simp
    also have "\<dots> \<le> (256 * (m + 1)) * 256 ^ length bs" using b by (intro mult_right_mono) simp_all
    finally show ?case by (simp add: algebra_simps)
  qed simp
  have "SetBytes (take 32 (log_Data lg)) < 2 ^ 256"
    using bound [of 0 "take 32 (log_Data lg)"] assms(2) by (simp add: SetBytes_def)
  then show ?thesis using assms by (simp add: erc20_Decode_def token_event_def event_key_def)
qed

text \<open>A small stand-in for go-ethereum, for the concrete instances: decimal printing and two topics.\<close>

definition sample_lib :: eth_lib where
  "sample_lib = \<lparr>addr_Hex = (\<lambda>a. ''0x'' @ show_nat (unat a)), hash_Hex = (\<lambda>h. ''0x'' @ show_nat (unat h)),
     BytesToAddress = (\<lambda>h. of_nat (unat h)), HexToAddress = (\<lambda>s. of_nat (read_nat (drop 2 s))),
     Keccak256Hash = (\<lambda>s. of_nat (length s))\<rparr>"

lemma sample_topics [simp]: "TransferTopic sample_lib = 33" "PrivateTransferTopic sample_lib = 51"
  by (simp_all add: TransferTopic_def PrivateTransferTopic_def sample_lib_def)

definition sample_log :: "hash list \<Rightarrow> nat \<Rightarrow> Log" where
  "sample_log ts n = \<lparr>log_Address = 7, log_Topics = ts, log_Data = replicate (n - 1) 0 @ [200], log_TxHash = 9, log_Index = 4\<rparr>"

definition sample_ctx :: Context where
  "sample_ctx = \<lparr>ctx_ChainID = 1, ctx_Confirmations = 12, ctx_TransactionDatetime = ''1970-01-01T00:00:00Z'', ctx_Symbol = ''USDT''\<rparr>"

theorem erc20_decodes_transfer_witness:
  "\<exists>ev. Decode sample_lib StandardERC20 (sample_log [33, 5, 6] 32) \<lparr>ci_Symbol = ''USDT'', ci_Decimals = 6\<rparr> sample_ctx = Inr (Some ev)
    \<and> event_key ev = (1, ''0x9'', 4) \<and> ev_Amount ev = Some 200 \<and> ev_ToAddress ev = ''0x6''"
proof -
  have d: "SetBytes (take 32 (log_Data (sample_log [33, 5, 6] 32))) = 200"
      "hash_Hex sample_lib (log_TxHash (sample_log [33, 5, 6] 32)) = ''0x9''"
      "to_i64 (log_Index (sample_log [33, 5, 6] 32)) = 4"
      "addr_Hex sample_lib (BytesToAddress sample_lib 6) = ''0x6''"
      "log_Topics (sample_log [33, 5, 6] 32) = [TransferTopic sample_lib, 5, 6]"
      "32 \<le> length (log_Data (sample_log [33, 5, 6] 32))"
    by (code_simp | simp add: sample_log_def)+
  from erc20_decodes_transfer [OF d(5,6), of "\<lparr>ci_Symbol = ''USDT'', ci_Decimals = 6\<rparr>" sample_ctx] show ?thesis
    unfolding d by (auto simp: sample_ctx_def)
qed

text \<open>
  An eERC log never yields an event: every complete \<^verbatim>\<open>PrivateTransfer\<close> log is a decoding error, with either decryptor,
  because decryption is not implemented.
\<close>

theorem eerc_never_decodes:
  assumes "length (log_Topics lg) \<ge> 4" and "log_Topics lg ! 0 = PrivateTransferTopic lib" and "length (log_Data lg) \<ge> 7 * 32"
  shows "\<exists>e. Decode lib (NewEERC d) lg info ctx = Inl e \<and> errors_Is e ErrNotImplemented"
proof -
  have "validatePCT (pct_of (log_Data lg)) = None"
    by (auto simp: validatePCT_def validate_from_ok pct_of_def SetBytes_nonneg)
  then have "DecryptAmount x (pct_of (log_Data lg)) = Inl ErrNotImplemented" for x
    by (cases x) (simp_all add: DecryptAmount_defs)
  with assms show ?thesis
    by (auto simp: NewEERC_def eerc_Decode_def errors_Is_def split: option.splits)
qed

theorem eerc_never_decodes_witness:
  "\<exists>e. Decode sample_lib (NewEERC None) (sample_log [51, 5, 6, 7] 224) \<lparr>ci_Symbol = ''EUSD'', ci_Decimals = 2\<rparr> sample_ctx = Inl e
    \<and> errors_Is e ErrNotImplemented"
  by (rule eerc_never_decodes) (simp_all add: sample_log_def)

end
