(* ===== verification/Log_Scanner.thy ===== *)
theory Log_Scanner
  imports Decoders "HOL-Library.Multiset"
begin

text \<open>
  \<^verbatim>\<open>internal/scanner/log_scanner.go\<close> and \<^verbatim>\<open>event_parser.go\<close>: native value transfers and token transfers of one block to
  watched addresses. The sender lookups run in parallel; the order in which they complete is the parameter
  \<open>completion\<close> of the scanner, any rearrangement of the candidates.
\<close>

section \<open>Symbols\<close>

definition symbolForChain :: "string \<Rightarrow> int \<Rightarrow> int \<Rightarrow> bool \<Rightarrow> string" where
  "symbolForChain rawSymbol chainID kcpChainID hasKcp =
    (if hasKcp \<and> chainID = kcpChainID \<and> length rawSymbol > 1 \<and> rawSymbol ! 0 = CHR ''W''
     then drop 1 rawSymbol else rawSymbol)"

section \<open>State\<close>

record nativeCandidate =
  nc_tx :: Transaction
  nc_txIdx :: nat
  nc_toAddr :: address

record 'n LogScanner =
  ls_lib :: eth_lib
  ls_client :: "'n ETHClient"
  ls_chain :: ChainConfig
  ls_kcpChainID :: int
  ls_hasKcp :: bool
  ls_retryOpt :: Options
  ls_decoders :: "Registry option"
  completion :: "nativeCandidate list \<Rightarrow> nativeCandidate list"

definition nativeLogIndexBase :: int where "nativeLogIndexBase = -1"

section \<open>Native transfers\<close>

definition is_transfer :: "Transaction \<Rightarrow> bool" where
  "is_transfer tx \<longleftrightarrow> \<not> (tx_To tx = None \<or> length (tx_Data tx) > 0 \<or> tx_Value tx \<le> 0)"

fun native_candidates :: "nat \<Rightarrow> Transaction list \<Rightarrow> nativeCandidate list" where
  "native_candidates txIdx [] = []"
| "native_candidates txIdx (tx # txs) =
    (case tx_To tx of
       None \<Rightarrow> native_candidates (Suc txIdx) txs
     | Some toAddr \<Rightarrow>
         if length (tx_Data tx) > 0 \<or> tx_Value tx \<le> 0 then native_candidates (Suc txIdx) txs
         else \<lparr>nc_tx = tx, nc_txIdx = txIdx, nc_toAddr = toAddr\<rparr> # native_candidates (Suc txIdx) txs)"

text \<open>The goroutines of the group in the order of their completion; the first error is the group's.\<close>

fun run_senders ::
  "'n LogScanner \<Rightarrow> Block \<Rightarrow> nativeCandidate list \<Rightarrow> ('n, 'z) world_scheme
    \<Rightarrow> (goerror + (nativeCandidate \<times> address) list) \<times> ('n, 'z) world_scheme" where
  "run_senders S block [] w = (Inr [], w)"
| "run_senders S block (c # cs) w =
    (case rpc_do (ls_client S) (ls_retryOpt S) 0
           (TransactionSender (ls_client S) (nc_tx c) (block_Hash block) (nc_txIdx c)) w of
       (Inl e, w') \<Rightarrow> (Inl (Wrap (''sender of '' @ hash_Hex (ls_lib S) (tx_Hash (nc_tx c))) e), w')
     | (Inr from, w') \<Rightarrow>
         (case run_senders S block cs w' of
            (Inl e, w'') \<Rightarrow> (Inl e, w'')
          | (Inr rs, w'') \<Rightarrow> (Inr ((c, from) # rs), w'')))"

definition native_event :: "'n LogScanner \<Rightarrow> int \<Rightarrow> string \<Rightarrow> nativeCandidate \<times> address \<Rightarrow> DepositEvent" where
  "native_event S confirmations blockTime r =
    (case r of (c, from) \<Rightarrow>
      \<lparr>ev_ChainID = chain_id (ls_chain S), ev_TxHash = hash_Hex (ls_lib S) (tx_Hash (nc_tx c)),
       ev_LogIndex = wrap64 (nativeLogIndexBase - int (nc_txIdx c)),
       ev_FromAddress = addr_Hex (ls_lib S) from, ev_ToAddress = addr_Hex (ls_lib S) (nc_toAddr c),
       ev_Amount = Some (tx_Value (nc_tx c)), ev_Symbol = cc_Native (ls_chain S),
       ev_Decimals = cc_Decimals (ls_chain S), ev_Confirmations = confirmations,
       ev_TransactionDatetime = blockTime\<rparr>)"

definition to_hex :: "'n LogScanner \<Rightarrow> nativeCandidate \<Rightarrow> string" where
  "to_hex S c = to_lower (addr_Hex (ls_lib S) (nc_toAddr c))"

definition parseNativeTransfers ::
  "'n LogScanner \<Rightarrow> Block \<Rightarrow> int \<Rightarrow> string \<Rightarrow> ('n, 'z) world_scheme
    \<Rightarrow> (goerror + DepositEvent list) \<times> ('n, 'z) world_scheme" where
  "parseNativeTransfers S block confirmations blockTime w =
    (let candidates = native_candidates 0 (Transactions block) in
     if candidates = [] then (Inr [], w)
     else (case has_many (chain_id (ls_chain S)) (remdups (map (to_hex S) candidates)) w of
        (Inl e, w') \<Rightarrow> (Inl (Wrap ''HasMany'' e), w')
      | (Inr matched, w') \<Rightarrow>
          (case run_senders S block (completion S (filter (\<lambda>c. at_key matched (to_hex S c)) candidates)) w' of
             (Inl e, w'') \<Rightarrow> (Inl e, w'')
           | (Inr results, w'') \<Rightarrow> (Inr (map (native_event S confirmations blockTime) results), w''))))"

section \<open>Token transfers\<close>

definition token_query :: "'n LogScanner \<Rightarrow> Registry \<Rightarrow> u64 \<Rightarrow> FilterQuery" where
  "token_query S reg blockNumber =
    \<lparr>FromBlock = blockNumber, ToBlock = blockNumber,
     q_Addresses = map (\<lambda>(a, info). HexToAddress (ls_lib S) a) (cc_Contracts (ls_chain S)), q_Topics = [topics reg]\<rparr>"

definition token_context :: "'n LogScanner \<Rightarrow> int \<Rightarrow> string \<Rightarrow> ContractInfo \<Rightarrow> Context" where
  "token_context S confirmations blockTime info =
    \<lparr>ctx_ChainID = chain_id (ls_chain S), ctx_Confirmations = confirmations, ctx_TransactionDatetime = blockTime,
     ctx_Symbol = symbolForChain (ci_Symbol info) (chain_id (ls_chain S)) (ls_kcpChainID S) (ls_hasKcp S)\<rparr>"

text \<open>One turn of the loop over the logs: an error, nothing, or a candidate.\<close>

definition decode_log :: "'n LogScanner \<Rightarrow> Registry \<Rightarrow> int \<Rightarrow> string \<Rightarrow> Log \<Rightarrow> goerror + DepositEvent option" where
  "decode_log S reg confirmations blockTime lg =
    (case map_of (cc_Contracts (ls_chain S)) (to_lower (addr_Hex (ls_lib S) (log_Address lg))) of
       None \<Rightarrow> Inr None
     | Some info \<Rightarrow>
         (case log_Topics lg of
            [] \<Rightarrow> Inr None
          | t # ts \<Rightarrow>
              (case Lookup reg t of
                 None \<Rightarrow> Inr None
               | Some d \<Rightarrow>
                   (case Decode (ls_lib S) d lg info (token_context S confirmations blockTime info) of
                      Inl e \<Rightarrow> Inl (Wrap (dec_Name d @ '' decode'') e)
                    | Inr ev \<Rightarrow> Inr ev))))"

fun decode_logs :: "'n LogScanner \<Rightarrow> Registry \<Rightarrow> int \<Rightarrow> string \<Rightarrow> Log list \<Rightarrow> goerror + DepositEvent list" where
  "decode_logs S reg confirmations blockTime [] = Inr []"
| "decode_logs S reg confirmations blockTime (lg # lgs) =
    (case decode_log S reg confirmations blockTime lg of
       Inl e \<Rightarrow> Inl e
     | Inr None \<Rightarrow> decode_logs S reg confirmations blockTime lgs
     | Inr (Some ev) \<Rightarrow>
         (case decode_logs S reg confirmations blockTime lgs of Inl e \<Rightarrow> Inl e | Inr evs \<Rightarrow> Inr (ev # evs)))"

definition parseTokenTransfers ::
  "'n LogScanner \<Rightarrow> Registry \<Rightarrow> u64 \<Rightarrow> int \<Rightarrow> string \<Rightarrow> ('n, 'z) world_scheme
    \<Rightarrow> (goerror + DepositEvent list) \<times> ('n, 'z) world_scheme" where
  "parseTokenTransfers S reg blockNumber confirmations blockTime w =
    (case rpc_do (ls_client S) (ls_retryOpt S) [] (FilterLogs (ls_client S) (token_query S reg blockNumber)) w of
       (Inl e, w') \<Rightarrow> (Inl (Wrap ''FilterLogs'' e), w')
     | (Inr logs, w') \<Rightarrow>
         (case decode_logs S reg confirmations blockTime logs of
            Inl e \<Rightarrow> (Inl e, w')
          | Inr candidates \<Rightarrow>
              if candidates = [] then (Inr [], w')
              else (case has_many (chain_id (ls_chain S)) (remdups (map (\<lambda>c. to_lower (ev_ToAddress c)) candidates)) w' of
                 (Inl e, w'') \<Rightarrow> (Inl (Wrap ''HasMany'' e), w'')
               | (Inr matched, w'') \<Rightarrow>
                   (Inr (filter (\<lambda>c. at_key matched (to_lower (ev_ToAddress c))) candidates), w''))))"

section \<open>ScanBlock\<close>

definition log_ScanBlock ::
  "'n LogScanner \<Rightarrow> u64 \<Rightarrow> int \<Rightarrow> ('n, 'z) world_scheme \<Rightarrow> (goerror + DepositEvent list) \<times> ('n, 'z) world_scheme" where
  "log_ScanBlock S blockNumber confirmations w =
    (case rpc_do (ls_client S) (ls_retryOpt S) None (BlockByNumber (ls_client S) blockNumber) w of
       (Inl e, w') \<Rightarrow> (Inl (Wrap (''get block '' @ show_nat (unat blockNumber)) e), w')
     | (Inr None, w') \<Rightarrow> (Inr [], w')
     | (Inr (Some block), w') \<Rightarrow>
         let blockTime = block_time block in
         (case parseNativeTransfers S block confirmations blockTime w' of
            (Inl e, w'') \<Rightarrow> (Inl (Wrap ''parse native'' e), w'')
          | (Inr natives, w'') \<Rightarrow>
              (case ls_decoders S of
                 Some reg \<Rightarrow>
                   if cc_Contracts (ls_chain S) \<noteq> [] \<and> Len reg > 0 then
                     (case parseTokenTransfers S reg blockNumber confirmations blockTime w'' of
                        (Inl e, w3) \<Rightarrow> (Inl (Wrap ''parse tokens'' e), w3)
                      | (Inr tokens, w3) \<Rightarrow> (Inr (natives @ tokens), w3))
                   else (Inr natives, w'')
               | None \<Rightarrow> (Inr natives, w''))))"

definition log_scanner :: "'n LogScanner \<Rightarrow> ('n, 'z) world_scheme Scanner" where
  "log_scanner S = \<lparr>Name = ''log'', ScanBlock = log_ScanBlock S\<rparr>"

section \<open>Lemmas: native transfers\<close>

definition candidate_of :: "nat \<times> Transaction \<Rightarrow> nativeCandidate" where
  "candidate_of x = \<lparr>nc_tx = snd x, nc_txIdx = fst x, nc_toAddr = the (tx_To (snd x))\<rparr>"

lemma native_candidates_eq:
  "native_candidates i txs = map candidate_of (filter (is_transfer \<circ> snd) (enumerate i txs))"
  by (induction i txs rule: native_candidates.induct) (auto simp: is_transfer_def candidate_of_def split: option.splits)

lemma run_senders_ok:
  "run_senders S block cs w = (Inr rs, w') \<Longrightarrow> map fst rs = cs"
  by (induction S block cs w arbitrary: rs w' rule: run_senders.induct) (auto split: prod.splits sum.splits)

lemma run_senders_acc: "run_senders S block cs w = (r, w') \<Longrightarrow> acc w' = acc w"
  by (induction S block cs w arbitrary: r w' rule: run_senders.induct)
    (auto split: prod.splits sum.splits dest: rpc_do_acc)

lemma parseNative_accounts:
  assumes "parseNativeTransfers S block k t w = (r, w')"
  shows "accounts (acc w') = accounts (acc w)"
proof -
  let ?hm = "has_many (chain_id (ls_chain S)) (remdups (map (to_hex S) (native_candidates 0 (Transactions block)))) w"
  obtain x w1 where h: "?hm = (x, w1)" by fastforce
  have "accounts (acc w1) = accounts (acc w)" using has_many_cases [OF h] by simp
  with assms h show ?thesis
    by (auto simp: parseNativeTransfers_def Let_def split: if_splits prod.splits sum.splits dest: run_senders_acc)
qed

text \<open>The senders that are looked up are those of the transfers to watched addresses.\<close>

lemma parseNative_results:
  assumes "parseNativeTransfers S block k t w = (Inr evs, w')" and "\<forall>cs. mset (completion S cs) = mset cs"
  shows "\<exists>rs. evs = map (native_event S k t) rs \<and>
    mset (map fst rs) = mset (map candidate_of (filter (\<lambda>(i, tx). is_transfer tx
       \<and> watched w (chain_id (ls_chain S)) (addr_Hex (ls_lib S) (the (tx_To tx)))) (enumerate 0 (Transactions block))))"
proof -
  define cs where "cs = native_candidates 0 (Transactions block)"
  define P where "P x \<longleftrightarrow> watched w (chain_id (ls_chain S)) (addr_Hex (ls_lib S) (the (tx_To (snd x))))" for x :: "nat \<times> Transaction"
  have flt: "filter (\<lambda>(i, tx). is_transfer tx \<and> watched w (chain_id (ls_chain S)) (addr_Hex (ls_lib S) (the (tx_To tx))))
      (enumerate 0 (Transactions block)) = filter P (filter (is_transfer \<circ> snd) (enumerate 0 (Transactions block)))"
    by (simp add: P_def case_prod_unfold conj_commute)
  show ?thesis
  proof (cases "cs = []")
    case True
    then have "filter (is_transfer \<circ> snd) (enumerate 0 (Transactions block)) = []"
      by (simp add: cs_def native_candidates_eq)
    with assms(1) True show ?thesis unfolding flt by (simp add: parseNativeTransfers_def cs_def)
  next
    case False
    obtain x w1 where h: "has_many (chain_id (ls_chain S)) (remdups (map (to_hex S) cs)) w = (x, w1)" by fastforce
    then obtain m where x: "x = Inr m"
      using assms(1) False by (cases x) (auto simp: parseNativeTransfers_def Let_def simp flip: cs_def)
    obtain rs w2 where rs: "run_senders S block (completion S (filter (\<lambda>c. at_key m (to_hex S c)) cs)) w1 = (Inr rs, w2)"
      and evs: "evs = map (native_event S k t) rs"
      using assms(1) False h x by (auto simp: parseNativeTransfers_def Let_def simp flip: cs_def split: prod.splits sum.splits)
    have "at_key m (to_hex S c) \<longleftrightarrow> watched w (chain_id (ls_chain S)) (addr_Hex (ls_lib S) (nc_toAddr c))" if "c \<in> set cs" for c
    proof -
      have "to_lower (to_hex S c) = to_hex S c" by (simp add: to_hex_def)
      moreover have "to_hex S c \<in> set (remdups (map (to_hex S) cs))" using that by simp
      ultimately show ?thesis
        using has_many_cases [OF h] x by (metis to_hex_def watched_def)
    qed
    then have "filter (\<lambda>c. at_key m (to_hex S c)) cs
        = filter (\<lambda>c. watched w (chain_id (ls_chain S)) (addr_Hex (ls_lib S) (nc_toAddr c))) cs"
      by (rule filter_cong [OF refl])
    also have "\<dots> = map candidate_of (filter P (filter (is_transfer \<circ> snd) (enumerate 0 (Transactions block))))"
      unfolding cs_def native_candidates_eq filter_map by (simp add: comp_def candidate_of_def P_def)
    finally show ?thesis
      unfolding flt using run_senders_ok [OF rs] evs assms(2) by metis
  qed
qed

section \<open>Lemmas: token transfers\<close>

definition candidates_of :: "'n LogScanner \<Rightarrow> Registry \<Rightarrow> int \<Rightarrow> string \<Rightarrow> Log list \<Rightarrow> DepositEvent list" where
  "candidates_of S reg k t lgs = concat (map (\<lambda>lg. case decode_log S reg k t lg of Inr (Some ev) \<Rightarrow> [ev] | _ \<Rightarrow> []) lgs)"

lemma decode_logs_ok:
  "decode_logs S reg k t lgs = Inr evs \<longleftrightarrow>
    (\<forall>lg \<in> set lgs. \<exists>x. decode_log S reg k t lg = Inr x) \<and> evs = candidates_of S reg k t lgs"
proof (induction lgs arbitrary: evs)
  case Nil
  then show ?case by (auto simp: candidates_of_def)
next
  case (Cons lg lgs)
  show ?case
  proof (cases "decode_logs S reg k t lgs")
    case (Inl e)
    with Cons.IH have "\<not> (\<forall>lg \<in> set lgs. \<exists>x. decode_log S reg k t lg = Inr x)" by auto
    with Inl show ?thesis by (auto split: sum.splits option.splits)
  next
    case (Inr xs)
    with Cons.IH [of xs] have "\<forall>lg \<in> set lgs. \<exists>x. decode_log S reg k t lg = Inr x" "xs = candidates_of S reg k t lgs" by simp_all
    with Inr show ?thesis by (auto simp: candidates_of_def split: sum.splits option.splits)
  qed
qed

lemma decode_log_event:
  assumes "decode_log S reg k t lg = Inr (Some ev)"
  shows "event_key ev = (chain_id (ls_chain S), hash_Hex (ls_lib S) (log_TxHash lg), to_i64 (log_Index lg))
    \<and> (in_i64 k \<longrightarrow> typed_event ev)"
proof -
  obtain info d where d: "Decode (ls_lib S) d lg info (token_context S k t info) = Inr (Some ev)"
    using assms by (auto simp: decode_log_def split: option.splits list.splits sum.splits)
  show ?thesis
    using dec.decoded_key [OF d] dec.decoded_typed [OF d] by (simp add: token_context_def)
qed

lemma parseToken_results:
  assumes "parseTokenTransfers S reg b k t w = (Inr evs, w')"
  shows "\<exists>logs w1. rpc_do (ls_client S) (ls_retryOpt S) [] (FilterLogs (ls_client S) (token_query S reg b)) w = (Inr logs, w1)
    \<and> (\<forall>lg \<in> set logs. \<exists>x. decode_log S reg k t lg = Inr x)
    \<and> evs = filter (\<lambda>e. watched w (chain_id (ls_chain S)) (ev_ToAddress e)) (candidates_of S reg k t logs)"
proof -
  obtain logs w1 where f: "rpc_do (ls_client S) (ls_retryOpt S) [] (FilterLogs (ls_client S) (token_query S reg b)) w = (Inr logs, w1)"
    using assms by (auto simp: parseTokenTransfers_def split: prod.splits sum.splits)
  then obtain cs where c: "decode_logs S reg k t logs = Inr cs"
    using assms by (auto simp: parseTokenTransfers_def split: prod.splits sum.splits)
  note cs = c [unfolded decode_logs_ok]
  have "evs = filter (\<lambda>e. watched w (chain_id (ls_chain S)) (ev_ToAddress e)) cs"
  proof (cases "cs = []")
    case True
    with assms f c show ?thesis by (simp add: parseTokenTransfers_def)
  next
    case False
    let ?addrs = "remdups (map (\<lambda>c. to_lower (ev_ToAddress c)) cs)"
    obtain x w2 where h: "has_many (chain_id (ls_chain S)) ?addrs w1 = (x, w2)" by fastforce
    then obtain m where x: "x = Inr m" and evs: "evs = filter (\<lambda>c. at_key m (to_lower (ev_ToAddress c))) cs"
      using assms f c False by (cases x) (auto simp: parseTokenTransfers_def)
    have "acc w1 = acc w" using f by (rule rpc_do_acc)
    then have "at_key m (to_lower (ev_ToAddress e)) \<longleftrightarrow> watched w (chain_id (ls_chain S)) (ev_ToAddress e)" if "e \<in> set cs" for e
      using has_many_cases [OF h] x that by (auto simp: watched_def)
    then show ?thesis unfolding evs by (simp cong: filter_cong)
  qed
  with f cs show ?thesis by blast
qed

section \<open>The scanner is typed\<close>

lemma native_event_typed: "in_i64 k \<Longrightarrow> typed_event (native_event S k t r)"
  by (cases r) (simp add: native_event_def typed_event_def)

lemma parseNative_typed:
  "parseNativeTransfers S block k t w = (Inr evs, w') \<Longrightarrow> in_i64 k \<Longrightarrow> list_all typed_event evs"
  by (auto simp: parseNativeTransfers_def Let_def list_all_iff native_event_typed split: if_splits prod.splits sum.splits)

lemma candidates_typed:
  "in_i64 k \<Longrightarrow> list_all typed_event (candidates_of S reg k t logs)"
  by (auto simp: candidates_of_def list_all_iff decode_log_event split: sum.splits option.splits)

text \<open>What a successful scan consists of.\<close>

lemma log_ScanBlock_parts:
  assumes "log_ScanBlock S b k w = (Inr evs, w')"
  obtains "evs = []"
  | block natives tokens w1 w2 where
      "rpc_do (ls_client S) (ls_retryOpt S) None (BlockByNumber (ls_client S) b) w = (Inr (Some block), w1)"
      "parseNativeTransfers S block k (block_time block) w1 = (Inr natives, w2)" "evs = natives @ tokens"
      "tokens = [] \<or> (\<exists>reg. ls_decoders S = Some reg \<and>
         parseTokenTransfers S reg b k (block_time block) w2 = (Inr tokens, w'))"
proof -
  obtain x w1 where r: "rpc_do (ls_client S) (ls_retryOpt S) None (BlockByNumber (ls_client S) b) w = (x, w1)" by fastforce
  show thesis
  proof (cases "\<exists>block. x = Inr (Some block)")
    case False
    then show thesis using assms r that(1) by (auto simp: log_ScanBlock_def split: sum.splits option.splits)
  next
    case True
    then obtain block where x: "x = Inr (Some block)" by blast
    obtain y w2 where n: "parseNativeTransfers S block k (block_time block) w1 = (y, w2)" by fastforce
    then obtain natives where y: "y = Inr natives"
      using assms r x by (cases y) (auto simp: log_ScanBlock_def Let_def)
    have "evs = natives \<or> (\<exists>reg tokens. ls_decoders S = Some reg \<and> evs = natives @ tokens \<and>
        parseTokenTransfers S reg b k (block_time block) w2 = (Inr tokens, w'))"
      using assms r x n y by (auto simp: log_ScanBlock_def Let_def split: option.splits if_splits prod.splits sum.splits)
    then show thesis
    proof (elim disjE exE conjE)
      assume "evs = natives"
      then show thesis using that(2) [of block w1 natives w2 "[]"] r x n y by simp
    next
      fix reg tokens
      assume "ls_decoders S = Some reg" "evs = natives @ tokens"
        "parseTokenTransfers S reg b k (block_time block) w2 = (Inr tokens, w')"
      then show thesis using that(2) [of block w1 natives w2 tokens] r x n y by blast
    qed
  qed
qed

interpretation log_scanner: typed_scanner "log_scanner S" for S :: "'n LogScanner"
proof
  fix b k and s s' :: "('n, 'z) world_scheme" and events
  assume s: "ScanBlock (log_scanner S) b k s = (Inr events, s')" and k: "in_i64 k"
  then have "log_ScanBlock S b k s = (Inr events, s')" by (simp add: log_scanner_def)
  then show "list_all typed_event events"
  proof (cases rule: log_ScanBlock_parts)
    case (2 block natives tokens w1 w2)
    have "list_all typed_event tokens"
      using 2(4) parseToken_results candidates_typed [OF k] by (fastforce simp: list_all_iff)
    with parseNative_typed [OF 2(2) k] 2(3) show ?thesis by simp
  qed simp
qed

section \<open>The indices of the log scanner\<close>

text \<open>A block with fewer than 100000 transactions: native indices run from -1 down, token indices are the node's.\<close>

lemma native_index: "i < 99999 \<Longrightarrow> wrap64 (nativeLogIndexBase - int i) = -1 - int i"
  by (simp add: nativeLogIndexBase_def wrap64_id)

lemma log_scan_indices:
  assumes "log_ScanBlock S b k w = (Inr evs, w')" and "\<forall>cs. mset (completion S cs) = mset cs"
    and "\<forall>block w1. rpc_do (ls_client S) (ls_retryOpt S) None (BlockByNumber (ls_client S) b) w = (Inr (Some block), w1) \<longrightarrow> length (Transactions block) < 100000"
    and "\<forall>q n logs n'. FilterLogs (ls_client S) q n = (Inr logs, n') \<longrightarrow> (\<forall>lg \<in> set logs. 0 \<le> to_i64 (log_Index lg))"
    and "e \<in> set evs"
  shows "-100000 < ev_LogIndex e"
  using assms(1)
proof (cases rule: log_ScanBlock_parts)
  case 1
  with assms(5) show ?thesis by simp
next
  case (2 block natives tokens w1 w2)
  have len: "length (Transactions block) < 100000" using 2(1) assms(3) by blast
  from assms(5) 2(3) consider "e \<in> set natives" | "e \<in> set tokens" by auto
  then show ?thesis
  proof cases
    case 1
    obtain rs where rs: "natives = map (native_event S k (block_time block)) rs" and
      m: "mset (map fst rs) = mset (map candidate_of (filter (\<lambda>(i, tx). is_transfer tx
       \<and> watched w1 (chain_id (ls_chain S)) (addr_Hex (ls_lib S) (the (tx_To tx)))) (enumerate 0 (Transactions block))))"
      using parseNative_results [OF 2(2) assms(2)] by blast
    obtain r where r: "r \<in> set rs" "e = native_event S k (block_time block) r" using 1 rs by auto
    have "fst r \<in> candidate_of ` set (enumerate 0 (Transactions block))"
      using r(1) mset_eq_setD [OF m] by fastforce
    then have "nc_txIdx (fst r) < 99999"
      using len by (auto simp: candidate_of_def in_set_enumerate_eq)
    then show ?thesis
      using r(2) by (cases r) (simp add: native_event_def native_index)
  next
    case 2
    with \<open>tokens = [] \<or> _\<close> obtain reg where
      "parseTokenTransfers S reg b k (block_time block) w2 = (Inr tokens, w')" by auto
    then obtain logs w3 where f: "rpc_do (ls_client S) (ls_retryOpt S) [] (FilterLogs (ls_client S) (token_query S reg b)) w2 = (Inr logs, w3)"
      and t: "set tokens \<subseteq> set (candidates_of S reg k (block_time block) logs)"
      using parseToken_results [of S reg b k "block_time block" w2 tokens w'] by auto
    then obtain lg where lg: "lg \<in> set logs" "decode_log S reg k (block_time block) lg = Inr (Some e)"
      using 2 by (auto simp: candidates_of_def split: sum.splits option.splits)
    have "0 \<le> to_i64 (log_Index lg)"
      using rpc_do_success [OF f] lg(1) assms(4) by auto
    then show ?thesis using decode_log_event [OF lg(2)] by (simp add: event_key_def)
  qed
qed

section \<open>Properties\<close>

text \<open>
  C7. Native deposits are found exactly. In whatever order the parallel lookups complete, when \<^verbatim>\<open>parseNativeTransfers\<close>
  returns events there is exactly one for each transaction of the block that has a recipient, no call data and a
  positive value, and whose recipient is registered for this chain (in any spelling); it carries that transaction's
  hash, recipient, value and an index derived from its position.
\<close>

theorem native_transfers_exact:
  assumes "parseNativeTransfers S block k t w = (Inr evs, w')" and "\<forall>cs. mset (completion S cs) = mset cs"
  shows "mset (map (\<lambda>e. (ev_TxHash e, ev_LogIndex e, ev_ToAddress e, ev_Amount e)) evs) =
    mset (map (\<lambda>(i, tx). (hash_Hex (ls_lib S) (tx_Hash tx), wrap64 (-1 - int i), addr_Hex (ls_lib S) (the (tx_To tx)), Some (tx_Value tx)))
      (filter (\<lambda>(i, tx). (\<exists>to. tx_To tx = Some to \<and> (\<exists>a. (chain_id (ls_chain S), a) \<in> set (accounts (acc w))
              \<and> to_lower a = to_lower (addr_Hex (ls_lib S) to)))
            \<and> tx_Data tx = [] \<and> 0 < tx_Value tx) (enumerate 0 (Transactions block))))"
proof -
  define xs where "xs = filter (\<lambda>(i, tx). is_transfer tx \<and> watched w (chain_id (ls_chain S)) (addr_Hex (ls_lib S) (the (tx_To tx))))
    (enumerate 0 (Transactions block))"
  have xs: "xs = filter (\<lambda>(i, tx). (\<exists>to. tx_To tx = Some to \<and> (\<exists>a. (chain_id (ls_chain S), a) \<in> set (accounts (acc w))
              \<and> to_lower a = to_lower (addr_Hex (ls_lib S) to)))
            \<and> tx_Data tx = [] \<and> 0 < tx_Value tx) (enumerate 0 (Transactions block))"
    unfolding xs_def by (rule filter_cong) (auto simp: is_transfer_def watched_def registered_iff)
  obtain rs where rs: "evs = map (native_event S k t) rs" "mset (map fst rs) = mset (map candidate_of xs)"
    using parseNative_results [OF assms] by (auto simp: xs_def)
  define g where "g c = (hash_Hex (ls_lib S) (tx_Hash (nc_tx c)), wrap64 (-1 - int (nc_txIdx c)),
     addr_Hex (ls_lib S) (nc_toAddr c), Some (tx_Value (nc_tx c)))" for c :: nativeCandidate
  have "map (\<lambda>e. (ev_TxHash e, ev_LogIndex e, ev_ToAddress e, ev_Amount e)) evs = map g (map fst rs)"
    by (auto simp: rs(1) g_def native_event_def nativeLogIndexBase_def)
  then have "mset (map (\<lambda>e. (ev_TxHash e, ev_LogIndex e, ev_ToAddress e, ev_Amount e)) evs) = image_mset g (mset (map candidate_of xs))"
    by (simp only: mset_map [of g] rs(2))
  also have "\<dots> = mset (map (g \<circ> candidate_of) xs)" by (simp add: multiset.map_comp comp_def)
  finally show ?thesis
    unfolding xs by (simp add: g_def candidate_of_def comp_def case_prod_unfold)
qed

text \<open>A node with one block of three transactions; address 7 is registered, in upper case.\<close>

definition sample_client :: "Block ETHClient" where
  "sample_client = \<lparr>cl_BlockNumber = (\<lambda>n. (Inr 100, n)), BlockByNumber = (\<lambda>b n. (Inr (Some n), n)),
     FilterLogs = (\<lambda>q n. (Inr [sample_log [33, 5, 7] 32], n)), CodeAt = (\<lambda>a n. (Inr [], n)),
     TransactionSender = (\<lambda>tx h i n. (Inr 5, n)), ctx_wait = (\<lambda>n d. (None, n))\<rparr>"

definition sample_block :: Block where
  "sample_block = \<lparr>block_Time = 0, block_Hash = 1, Transactions =
     [\<lparr>tx_To = Some 8, tx_Data = [], tx_Value = 3, tx_Hash = 20\<rparr>, \<lparr>tx_To = Some 7, tx_Data = [], tx_Value = 4, tx_Hash = 21\<rparr>,
      \<lparr>tx_To = Some 7, tx_Data = [1], tx_Value = 5, tx_Hash = 22\<rparr>]\<rparr>"

definition sample_scanner :: "Block LogScanner" where
  "sample_scanner = \<lparr>ls_lib = sample_lib, ls_client = sample_client,
     ls_chain = \<lparr>cc_ChainID = 1, cc_RPCURL = [], cc_Native = ''ETH'', cc_Decimals = 18, cc_BlockTimeMs = 0, cc_PollingIntervalMs = 0,
       cc_MinConfirmations = 12, cc_ChainType = ''erc20'', cc_Contracts = [(''0x7'', \<lparr>ci_Symbol = ''USDT'', ci_Decimals = 6\<rparr>)]\<rparr>,
     ls_kcpChainID = 0, ls_hasKcp = False, ls_retryOpt = \<lparr>MaxRetries = 0, BaseDelay = 0\<rparr>,
     ls_decoders = Some (Register sample_lib StandardERC20 NewRegistry), completion = rev\<rparr>"

definition sample_world :: "Block world" where
  "sample_world = \<lparr>eth_node = sample_block, acc = \<lparr>accounts = [(1, ''0X7'')], acc_outcomes = []\<rparr>\<rparr>"

lemma sample_native:
  "parseNativeTransfers sample_scanner sample_block 12 t sample_world =
    (Inr [\<lparr>ev_ChainID = 1, ev_TxHash = ''0x21'', ev_LogIndex = - 2, ev_FromAddress = ''0x5'', ev_ToAddress = ''0x7'',
       ev_Amount = Some 4, ev_Symbol = ''ETH'', ev_Decimals = 18, ev_Confirmations = 12, ev_TransactionDatetime = t\<rparr>], sample_world)"
  by code_simp

theorem native_transfers_exact_witness:
  "{#(''0x21'', - 2 :: int, ''0x7'', Some (4 :: int))#} =
    mset (map (\<lambda>(i, tx). (hash_Hex sample_lib (tx_Hash tx), wrap64 (-1 - int i), addr_Hex sample_lib (the (tx_To tx)), Some (tx_Value tx)))
      (filter (\<lambda>(i, tx). (\<exists>to. tx_To tx = Some to \<and> (\<exists>a. (1, a) \<in> set (accounts (acc sample_world))
              \<and> to_lower a = to_lower (addr_Hex sample_lib to)))
            \<and> tx_Data tx = [] \<and> 0 < tx_Value tx) (enumerate 0 (Transactions sample_block))))"
proof -
  have "chain_id (ls_chain sample_scanner) = 1" "ls_lib sample_scanner = sample_lib"
    by (simp_all add: sample_scanner_def chain_id_def to_i64_def)
  then show ?thesis
    using native_transfers_exact [OF sample_native] by (simp add: sample_scanner_def)
qed

text \<open>
  C25. Token deposits are found exactly: when \<^verbatim>\<open>parseTokenTransfers\<close> returns events, \<^verbatim>\<open>FilterLogs\<close> answered for the block, the
  watched contracts and the registered topics, no log failed to decode, and the events are those of the logs, in
  order, whose recipient is registered for this chain.
\<close>

theorem token_transfers_exact:
  assumes "parseTokenTransfers S reg b k t w = (Inr evs, w')"
  shows "\<exists>logs w1. rpc_do (ls_client S) (ls_retryOpt S) [] (FilterLogs (ls_client S) (token_query S reg b)) w = (Inr logs, w1)
    \<and> (\<forall>lg \<in> set logs. \<exists>x. decode_log S reg k t lg = Inr x)
    \<and> evs = [e \<leftarrow> concat (map (\<lambda>lg. case decode_log S reg k t lg of Inr (Some ev) \<Rightarrow> [ev] | _ \<Rightarrow> []) logs).
         \<exists>a. (chain_id (ls_chain S), a) \<in> set (accounts (acc w)) \<and> to_lower a = to_lower (ev_ToAddress e)]"
  using parseToken_results [OF assms] by (simp add: candidates_of_def watched_def registered_iff)

lemma sample_token:
  "parseTokenTransfers sample_scanner (Register sample_lib StandardERC20 NewRegistry) 100 12 t sample_world =
    (Inr [\<lparr>ev_ChainID = 1, ev_TxHash = ''0x9'', ev_LogIndex = 4, ev_FromAddress = ''0x5'', ev_ToAddress = ''0x7'',
       ev_Amount = Some 200, ev_Symbol = ''USDT'', ev_Decimals = 6, ev_Confirmations = 12, ev_TransactionDatetime = t\<rparr>], sample_world)"
  by code_simp

theorem token_transfers_exact_witness:
  "\<exists>logs w1. rpc_do sample_client \<lparr>MaxRetries = 0, BaseDelay = 0\<rparr> []
      (FilterLogs sample_client (token_query sample_scanner (Register sample_lib StandardERC20 NewRegistry) 100)) sample_world = (Inr logs, w1)
    \<and> length logs \<ge> 1"
proof -
  have "ls_client sample_scanner = sample_client" "ls_retryOpt sample_scanner = \<lparr>MaxRetries = 0, BaseDelay = 0\<rparr>"
    by (simp_all add: sample_scanner_def)
  then show ?thesis using token_transfers_exact [OF sample_token] by (fastforce simp: Suc_le_eq)
qed

end
