(* ===== verification/Trace_Scanner.thy ===== *)
theory Trace_Scanner
  imports Eth
begin

text \<open>
  \<^verbatim>\<open>internal/scanner/trace_scanner.go\<close>: value transfers that a contract makes to a watched address, found in the call
  tree of each transaction. The scanner keeps a bounded cache of which addresses are contracts and a flag for nodes
  without tracing; both are part of its world. The call \<^verbatim>\<open>debug_traceTransaction\<close> is the parameter \<open>ts_trace\<close>.
\<close>

section \<open>Call frames\<close>

datatype callFrame = CallFrame (cf_Type: string) (cf_From: string) (cf_To: string) (cf_Value: string) (cf_Error: string)
  (cf_Calls: "callFrame list")

definition zero_frame :: callFrame where
  "zero_frame = CallFrame '''' '''' '''' '''' '''' []"

fun set_frame_field :: "string \<Rightarrow> string \<Rightarrow> callFrame \<Rightarrow> callFrame" where
  "set_frame_field k s (CallFrame t f to v e cs) =
    (if k = ''type'' then CallFrame s f to v e cs
     else if k = ''from'' then CallFrame t s to v e cs
     else if k = ''to'' then CallFrame t f s v e cs
     else if k = ''value'' then CallFrame t f to s e cs
     else CallFrame t f to v s cs)"

fun set_calls :: "callFrame list \<Rightarrow> callFrame \<Rightarrow> callFrame" where
  "set_calls cs (CallFrame t f to v e _) = CallFrame t f to v e cs"

text \<open>
  \<^verbatim>\<open>json.Unmarshal\<close> into a frame: fields by name without regard to case, \<^verbatim>\<open>null\<close> leaves a string and empties the list, a
  value of the wrong type is an error (the flag) and decoding goes on.
\<close>

function (sequential) frame_value :: "json \<Rightarrow> callFrame \<times> bool"
  and frame_members :: "(string \<times> json) list \<Rightarrow> callFrame \<times> bool \<Rightarrow> callFrame \<times> bool"
  and frame_list :: "json list \<Rightarrow> callFrame list \<times> bool" where
  "frame_value (JObj kvs) = frame_members kvs (zero_frame, True)"
| "frame_value JNull = (zero_frame, True)"
| "frame_value _ = (zero_frame, False)"
| "frame_members [] st = st"
| "frame_members ((key, v) # kvs) (fr, ok) =
    (let k = to_lower key in
     frame_members kvs
      (if k \<in> {''type'', ''from'', ''to'', ''value'', ''error''} then
         (case v of JStr s \<Rightarrow> (set_frame_field k s fr, ok) | JNull \<Rightarrow> (fr, ok) | _ \<Rightarrow> (fr, False))
       else if k = ''calls'' then
         (case v of
            JArr vs \<Rightarrow> (case frame_list vs of (cs, ok') \<Rightarrow> (set_calls cs fr, ok \<and> ok'))
          | JNull \<Rightarrow> (set_calls [] fr, ok)
          | _ \<Rightarrow> (fr, False))
       else (fr, ok)))"
| "frame_list [] = ([], True)"
| "frame_list (v # vs) =
    (case frame_value v of (fr, ok) \<Rightarrow> case frame_list vs of (frs, ok') \<Rightarrow> (fr # frs, ok \<and> ok'))"
  by pat_completeness auto

termination
  by (relation "measure (\<lambda>x. case x of Inl j \<Rightarrow> size j
      | Inr (Inl (kvs, st)) \<Rightarrow> size_list (size_prod (\<lambda>_. 0) size) kvs
      | Inr (Inr vs) \<Rightarrow> size_list size vs)") auto

definition unmarshal_frame :: "json \<Rightarrow> goerror + callFrame" where
  "unmarshal_frame j =
    (case frame_value j of (fr, ok) \<Rightarrow>
       if ok then Inr fr else Inl (Opaque ''json: cannot unmarshal into Go value of type scanner.callFrame''))"

section \<open>Values\<close>

text \<open>\<^verbatim>\<open>big.Int.SetString(s, 16)\<close>: an optional sign, then at least one digit and nothing else.\<close>

definition SetString16 :: "string \<Rightarrow> int option" where
  "SetString16 s =
    (let (neg, ds) = (if take 1 s = ''-'' then (True, drop 1 s) else if take 1 s = ''+'' then (False, drop 1 s) else (False, s))
     in if ds \<noteq> [] \<and> list_all (\<lambda>c. hex_val c \<noteq> None) ds
        then Some (if neg then - int (read_hex ds) else int (read_hex ds)) else None)"

text \<open>\<^verbatim>\<open>strings.Contains\<close>\<close>

fun contains :: "string \<Rightarrow> string \<Rightarrow> bool" where
  "contains sub [] \<longleftrightarrow> sub = []"
| "contains sub (c # s) \<longleftrightarrow> take (length sub) (c # s) = sub \<or> contains sub s"

definition isMethodNotFound :: "goerror \<Rightarrow> bool" where
  "isMethodNotFound err \<longleftrightarrow>
    errors_As as_rpc err = Some (-32601) \<or> contains ''method not found'' (Error err)
    \<or> contains ''not available'' (Error err) \<or> contains ''does not exist'' (Error err)"

section \<open>State\<close>

definition traceLogIndexBase :: int where "traceLogIndexBase = -100000"
definition codeCacheMaxEntries :: int where "codeCacheMaxEntries = 10000"
definition maxCallFrameDepth :: int where "maxCallFrameDepth = 1024"

record 'n TraceScanner =
  ts_lib :: eth_lib
  ts_client :: "'n ETHClient"
  ts_trace :: "string \<Rightarrow> 'n \<Rightarrow> (goerror + json option) \<times> 'n"
    \<comment> \<open>\<^verbatim>\<open>CallContext(&raw, "debug_traceTransaction", hash, params)\<close>; \<^const>\<open>None\<close> if \<^verbatim>\<open>raw\<close> stays empty\<close>
  ts_chain :: ChainConfig
  ts_retryOpt :: Options

record 'n tworld = "'n world" +
  codeCache :: "(address \<times> bool) list"
  traceUnsupported :: bool

section \<open>isContract and traceTransaction\<close>

definition isContract :: "'n TraceScanner \<Rightarrow> address \<Rightarrow> 'n tworld \<Rightarrow> (goerror + bool) \<times> 'n tworld" where
  "isContract S addr w =
    (case map_of (codeCache w) addr of
       Some v \<Rightarrow> (Inr v, w)
     | None \<Rightarrow>
         (case rpc_do (ts_client S) (ts_retryOpt S) [] (CodeAt (ts_client S) addr) w of
            (Inl e, w') \<Rightarrow> (Inl e, w')
          | (Inr code, w') \<Rightarrow>
              let v = length code > 0;
                  cache = (if int (length (codeCache w')) \<ge> codeCacheMaxEntries then [] else codeCache w')
              in (Inr v, w'\<lparr>codeCache := AList.update addr v cache\<rparr>)))"

definition traceTransaction :: "'n TraceScanner \<Rightarrow> hash \<Rightarrow> 'n tworld \<Rightarrow> (goerror + callFrame option) \<times> 'n tworld" where
  "traceTransaction S txHash w =
    (case rpc_do (ts_client S) (ts_retryOpt S) None (ts_trace S (hash_Hex (ts_lib S) txHash)) w of
       (Inl e, w') \<Rightarrow>
         if isMethodNotFound e then (Inr None, w'\<lparr>traceUnsupported := True\<rparr>) else (Inl e, w')
     | (Inr None, w') \<Rightarrow> (Inl (Wrap ''unmarshal trace'' (Opaque ''unexpected end of JSON input'')), w')
     | (Inr (Some raw), w') \<Rightarrow>
         (case unmarshal_frame raw of
            Inl e \<Rightarrow> (Inl (Wrap ''unmarshal trace'' e), w')
          | Inr fr \<Rightarrow> (Inr (Some fr), w')))"

section \<open>collect\<close>

text \<open>The value a frame moves, if it is a call with a positive value.\<close>

definition frame_value_of :: "callFrame \<Rightarrow> int option" where
  "frame_value_of call =
    (if cf_Type call = ''CALL'' \<and> cf_Value call \<noteq> ''''
     then (case SetString16 (TrimPrefix (cf_Value call) ''0x'') of
             Some v \<Rightarrow> if v > 0 then Some v else None
           | None \<Rightarrow> None)
     else None)"

definition trace_event ::
  "'n TraceScanner \<Rightarrow> string \<Rightarrow> int \<Rightarrow> string \<Rightarrow> nat \<Rightarrow> callFrame \<Rightarrow> int \<Rightarrow> DepositEvent" where
  "trace_event S txHash confirmations blockTime counter call val =
    \<lparr>ev_ChainID = chain_id (ts_chain S), ev_TxHash = txHash, ev_LogIndex = wrap64 (traceLogIndexBase - int counter),
     ev_FromAddress = addr_Hex (ts_lib S) (HexToAddress (ts_lib S) (cf_From call)),
     ev_ToAddress = addr_Hex (ts_lib S) (HexToAddress (ts_lib S) (cf_To call)),
     ev_Amount = Some val, ev_Symbol = cc_Native (ts_chain S), ev_Decimals = cc_Decimals (ts_chain S),
     ev_Confirmations = confirmations, ev_TransactionDatetime = blockTime\<rparr>"

text \<open>The two pointers \<^verbatim>\<open>counter\<close> and \<^verbatim>\<open>out\<close>, and the world.\<close>

type_synonym 'n collect_state = "nat \<times> DepositEvent list \<times> 'n tworld"

definition visit :: "'n TraceScanner \<Rightarrow> string \<Rightarrow> int \<Rightarrow> string \<Rightarrow> callFrame \<Rightarrow> 'n collect_state \<Rightarrow> 'n collect_state" where
  "visit S txHash confirmations blockTime call st =
    (case st of (counter, out, w) \<Rightarrow>
     (case frame_value_of call of
        None \<Rightarrow> (counter, out, w)
      | Some val \<Rightarrow>
          (case has_one (chain_id (ts_chain S)) (addr_Hex (ts_lib S) (HexToAddress (ts_lib S) (cf_To call))) w of
             (Inr True, w') \<Rightarrow>
               (Suc counter, out @ [trace_event S txHash confirmations blockTime counter call val], w')
           | (_, w') \<Rightarrow> (counter, out, w'))))"

lemma size_cf_Calls: "size_list size (cf_Calls call) < size call"
  by (cases call) simp

function (sequential) collect ::
  "'n TraceScanner \<Rightarrow> string \<Rightarrow> int \<Rightarrow> string \<Rightarrow> int \<Rightarrow> callFrame list \<Rightarrow> 'n collect_state \<Rightarrow> 'n collect_state" where
  "collect S txHash confirmations blockTime depth [] st = st"
| "collect S txHash confirmations blockTime depth (call # calls) st =
    (if depth > maxCallFrameDepth then st
     else if cf_Error call \<noteq> '''' then collect S txHash confirmations blockTime depth calls st
     else
       let st1 = visit S txHash confirmations blockTime call st;
           st2 = (if cf_Calls call = [] then st1
                  else collect S txHash confirmations blockTime (depth + 1) (cf_Calls call) st1)
       in collect S txHash confirmations blockTime depth calls st2)"
  by pat_completeness auto

termination
  by (relation "measure (\<lambda>(S, t, k, b, d, calls, st). size_list size calls)")
    (use size_cf_Calls in \<open>auto intro: less_SucI trans_less_add1\<close>)

section \<open>ScanBlock\<close>

fun trace_txs ::
  "'n TraceScanner \<Rightarrow> int \<Rightarrow> string \<Rightarrow> Transaction list \<Rightarrow> 'n collect_state \<Rightarrow> (goerror + DepositEvent list) \<times> 'n tworld" where
  "trace_txs S confirmations blockTime [] (counter, events, w) = (Inr events, w)"
| "trace_txs S confirmations blockTime (tx # txs) (counter, events, w) =
    (case tx_To tx of
       None \<Rightarrow> trace_txs S confirmations blockTime txs (counter, events, w)
     | Some to \<Rightarrow>
         (case isContract S to w of
            (Inl e, w1) \<Rightarrow> (Inl (Wrap (''isContract '' @ addr_Hex (ts_lib S) to) e), w1)
          | (Inr False, w1) \<Rightarrow> trace_txs S confirmations blockTime txs (counter, events, w1)
          | (Inr True, w1) \<Rightarrow>
              (case traceTransaction S (tx_Hash tx) w1 of
                 (Inl e, w2) \<Rightarrow> trace_txs S confirmations blockTime txs (counter, events, w2)
               | (Inr root, w2) \<Rightarrow>
                   if traceUnsupported w2 then (Inr events, w2)
                   else (case root of
                      None \<Rightarrow> (Inr events, w2)
                    | Some fr \<Rightarrow> trace_txs S confirmations blockTime txs
                        (collect S (hash_Hex (ts_lib S) (tx_Hash tx)) confirmations blockTime 0 (cf_Calls fr) (counter, events, w2))))))"

definition trace_ScanBlock :: "'n TraceScanner \<Rightarrow> u64 \<Rightarrow> int \<Rightarrow> 'n tworld \<Rightarrow> (goerror + DepositEvent list) \<times> 'n tworld" where
  "trace_ScanBlock S blockNumber confirmations w =
    (if traceUnsupported w then (Inr [], w)
     else (case rpc_do (ts_client S) (ts_retryOpt S) None (BlockByNumber (ts_client S) blockNumber) w of
        (Inl e, w') \<Rightarrow> (Inl (Wrap (''get block '' @ show_nat (unat blockNumber)) e), w')
      | (Inr None, w') \<Rightarrow> (Inr [], w')
      | (Inr (Some block), w') \<Rightarrow>
          trace_txs S confirmations (block_time block) (Transactions block) (0, [], w')))"

definition trace_scanner :: "'n TraceScanner \<Rightarrow> 'n tworld Scanner" where
  "trace_scanner S = \<lparr>Name = ''trace'', ScanBlock = trace_ScanBlock S\<rparr>"

section \<open>The reference: transfers in call order\<close>

text \<open>The frames of a call tree in preorder, without failed calls and what they called.\<close>

function (sequential) preorder :: "callFrame list \<Rightarrow> callFrame list" where
  "preorder [] = []"
| "preorder (c # cs) = (if cf_Error c \<noteq> '''' then preorder cs else c # preorder (cf_Calls c) @ preorder cs)"
  by pat_completeness auto

termination
  by (relation "measure (size_list size)") (use size_cf_Calls in \<open>auto intro: less_SucI trans_less_add1\<close>)

text \<open>The number of levels of calls that did not fail.\<close>

function (sequential) levels :: "callFrame list \<Rightarrow> nat" where
  "levels [] = 0"
| "levels (c # cs) = max (if cf_Error c \<noteq> '''' then 0 else Suc (levels (cf_Calls c))) (levels cs)"
  by pat_completeness auto

termination
  by (relation "measure (size_list size)") (use size_cf_Calls in \<open>auto intro: less_SucI trans_less_add1\<close>)

definition pays :: "'n TraceScanner \<Rightarrow> 'n tworld \<Rightarrow> callFrame \<Rightarrow> bool" where
  "pays S w c \<longleftrightarrow> frame_value_of c \<noteq> None
     \<and> watched w (chain_id (ts_chain S)) (addr_Hex (ts_lib S) (HexToAddress (ts_lib S) (cf_To c)))"

definition events_from :: "'n TraceScanner \<Rightarrow> string \<Rightarrow> int \<Rightarrow> string \<Rightarrow> nat \<Rightarrow> callFrame list \<Rightarrow> DepositEvent list" where
  "events_from S txHash k t n fs = map (\<lambda>(i, c). trace_event S txHash k t i c (the (frame_value_of c))) (enumerate n fs)"

section \<open>Lemmas: collect\<close>

lemma has_one_served: "acc_outcomes (acc w) = [] \<Longrightarrow> has_one c a w = (Inr (watched w c a), w)"
  by (simp add: has_one_def Has_def acc_outcome_def watched_def)

lemma visit_served:
  assumes "acc_outcomes (acc w) = []"
  shows "visit S tx k t c (n, out, w) =
    (if pays S w c then (Suc n, out @ events_from S tx k t n [c], w) else (n, out, w))"
  using has_one_served [OF assms] by (auto simp: visit_def pays_def events_from_def split: option.splits)

lemma events_from_append:
  "events_from S tx k t n (xs @ ys) = events_from S tx k t n xs @ events_from S tx k t (n + length xs) ys"
  by (simp add: events_from_def enumerate_append_eq)

lemma collect_too_deep: "depth > maxCallFrameDepth \<Longrightarrow> collect S tx k t depth calls st = st"
  by (cases calls) simp_all

lemma collect_served:
  assumes "acc_outcomes (acc w) = []" and "depth + int (levels calls) \<le> maxCallFrameDepth + 1"
  shows "collect S tx k t depth calls (n, out, w) =
    (n + length (filter (pays S w) (preorder calls)), out @ events_from S tx k t n (filter (pays S w) (preorder calls)), w)"
  using assms(2)
proof (induction calls arbitrary: depth n out rule: preorder.induct)
  case 1
  then show ?case by (simp add: events_from_def)
next
  case (2 c cs)
  show ?case
  proof (cases "cf_Error c = ''''")
    case False
    then have "depth + int (levels cs) \<le> maxCallFrameDepth + 1" using 2(4) by simp
    moreover have "collect S tx k t depth (c # cs) st = collect S tx k t depth cs st" for st
      using False by (simp add: collect_too_deep)
    ultimately show ?thesis
      using 2(1) [OF False] False by (simp del: collect.simps)
  next
    case True
    define fs where "fs = filter (pays S w) [c]"
    define gs where "gs = filter (pays S w) (preorder (cf_Calls c))"
    define hs where "hs = filter (pays S w) (preorder cs)"
    have d: "\<not> depth > maxCallFrameDepth" "depth + 1 + int (levels (cf_Calls c)) \<le> maxCallFrameDepth + 1"
        "depth + int (levels cs) \<le> maxCallFrameDepth + 1"
      using 2(4) True by simp_all
    have v: "visit S tx k t c (n, out, w) = (n + length fs, out @ events_from S tx k t n fs, w)"
      by (simp add: visit_served [OF assms(1)] fs_def) (simp add: events_from_def)
    have sub: "(if cf_Calls c = [] then (n + length fs, out @ events_from S tx k t n fs, w)
        else collect S tx k t (depth + 1) (cf_Calls c) (n + length fs, out @ events_from S tx k t n fs, w))
      = (n + length (fs @ gs), out @ events_from S tx k t n (fs @ gs), w)"
      using 2(2) [OF _ d(2)] True by (cases "cf_Calls c = []") (simp_all add: gs_def events_from_append)
    have rest: "collect S tx k t depth cs (n + length (fs @ gs), out @ events_from S tx k t n (fs @ gs), w)
      = (n + length ((fs @ gs) @ hs), out @ events_from S tx k t n ((fs @ gs) @ hs), w)"
      using 2(3) [OF _ d(3)] True by (simp add: hs_def events_from_append add.assoc)
    have "filter (pays S w) (preorder (c # cs)) = (fs @ gs) @ hs"
      using True by (simp add: fs_def gs_def hs_def)
    then show ?thesis
      using True d(1) by (simp only: collect.simps v Let_def sub rest) simp
  qed
qed

section \<open>Lemmas: any run of collect\<close>

text \<open>The events so far carry the indices base, base - 1, and so on.\<close>

definition numbered :: "'n collect_state \<Rightarrow> bool" where
  "numbered st = (case st of (n, out, w) \<Rightarrow> length out = n
     \<and> map ev_LogIndex out = map (\<lambda>i. wrap64 (traceLogIndexBase - int i)) [0..<n])"

definition all_typed :: "'n collect_state \<Rightarrow> bool" where
  "all_typed st = list_all typed_event (fst (snd st))"

definition cache_ok :: "'n tworld \<Rightarrow> bool" where
  "cache_ok w \<longleftrightarrow> distinct (map fst (codeCache w)) \<and> int (length (codeCache w)) \<le> codeCacheMaxEntries"

text \<open>What a visit does to the state.\<close>

lemma visit_cases:
  obtains w' where "visit S tx k t c (n, out, w) = (n, out, w')" and "codeCache w' = codeCache w"
  | w' v where "visit S tx k t c (n, out, w) = (Suc n, out @ [trace_event S tx k t n c v], w')" and "codeCache w' = codeCache w"
proof -
  have h: "codeCache (snd (has_one x a w)) = codeCache w" for x a
    by (simp add: has_one_def split: prod.split)
  show thesis
  proof (cases "frame_value_of c")
    case None
    then show thesis using that(1) [of w] by (simp add: visit_def)
  next
    case (Some v)
    let ?h = "has_one (chain_id (ts_chain S)) (addr_Hex (ts_lib S) (HexToAddress (ts_lib S) (cf_To c))) w"
    show thesis
    proof (cases "fst ?h = Inr True")
      case True
      then obtain w' where w': "?h = (Inr True, w')" by (cases ?h) auto
      then have "codeCache w' = codeCache w" using h by (metis snd_conv)
      then show thesis using that(2) [of v w'] Some w' by (simp add: visit_def)
    next
      case False
      then have "visit S tx k t c (n, out, w) = (n, out, snd ?h)"
        using Some by (auto simp: visit_def split: prod.splits sum.splits bool.splits)
      then show thesis using that(1) h by blast
    qed
  qed
qed

text \<open>A property of the state that every visit keeps is kept by the whole traversal.\<close>

lemma collect_invariant:
  assumes "\<And>c st. I st \<Longrightarrow> I (visit S tx k t c st)" and "I st"
  shows "I (collect S tx k t depth calls st)"
  using assms(2)
proof (induction calls arbitrary: depth st rule: preorder.induct)
  case (2 c cs)
  show ?case
  proof (cases "cf_Error c = ''''")
    case False
    with 2(1) 2(4) show ?thesis by simp
  next
    case True
    have "I (if cf_Calls c = [] then visit S tx k t c st else collect S tx k t (depth + 1) (cf_Calls c) (visit S tx k t c st))"
      using 2(2) True assms(1) [OF 2(4)] by simp
    from 2(3) [OF _ this] True 2(4) show ?thesis by (simp add: Let_def)
  qed
qed simp

section \<open>Lemmas: the scan of a block\<close>

lemma numbered_visit: "numbered st \<Longrightarrow> numbered (visit S tx k t c st)"
  by (cases st; rule visit_cases [of S tx k t c "fst st" "fst (snd st)" "snd (snd st)"])
    (auto simp: numbered_def trace_event_def)

lemma typed_visit: "in_i64 k \<Longrightarrow> all_typed st \<Longrightarrow> all_typed (visit S tx k t c st)"
  by (cases st; rule visit_cases [of S tx k t c "fst st" "fst (snd st)" "snd (snd st)"])
    (auto simp: all_typed_def trace_event_def typed_event_def)

lemma cache_visit: "cache_ok (snd (snd st)) \<Longrightarrow> cache_ok (snd (snd (visit S tx k t c st)))"
  by (cases st; rule visit_cases [of S tx k t c "fst st" "fst (snd st)" "snd (snd st)"])
    (auto simp: cache_ok_def)

lemma rpc_do_cache: "rpc_do cl opt z call w = (r, w') \<Longrightarrow> codeCache w' = codeCache w"
  by (auto simp: rpc_do_def split: prod.splits)

lemma isContract_cache:
  assumes "isContract S a w = (r, w')" and "cache_ok w"
  shows "cache_ok w'"
proof (cases "map_of (codeCache w) a")
  case (Some v)
  with assms show ?thesis by (auto simp: isContract_def)
next
  case None
  obtain x w1 where x: "rpc_do (ts_client S) (ts_retryOpt S) [] (CodeAt (ts_client S) a) w = (x, w1)" by fastforce
  note c = rpc_do_cache [OF x]
  show ?thesis
  proof (cases x)
    case (Inl e)
    with assms None x c show ?thesis by (auto simp: isContract_def cache_ok_def)
  next
    case (Inr code)
    define cache where "cache = (if int (length (codeCache w)) \<ge> codeCacheMaxEntries then [] else codeCache w)"
    have "codeCache w' = AList.update a (length code > 0) cache"
      using assms(1) None x Inr c by (auto simp: isContract_def Let_def cache_def)
    moreover have "distinct (map fst cache)" "int (length cache) + 1 \<le> codeCacheMaxEntries"
      using assms(2) by (auto simp: cache_ok_def cache_def codeCacheMaxEntries_def)
    ultimately show ?thesis
      using distinct_update [of cache a "length code > 0"] length_update_alist [of a "length code > 0" cache]
      by (auto simp: cache_ok_def)
  qed
qed

lemma traceTransaction_cache: "traceTransaction S h w = (r, w') \<Longrightarrow> cache_ok w \<Longrightarrow> cache_ok w'"
  by (auto simp: traceTransaction_def cache_ok_def dest: rpc_do_cache split: prod.splits sum.splits option.splits if_splits)

text \<open>A property of the state that the steps of a scan keep holds of its result.\<close>

lemma trace_txs_invariant:
  assumes "trace_txs S k t txs st = (r, w')" and "I st"
    and visit: "\<And>tx c st. I st \<Longrightarrow> I (visit S tx k t c st)"
    and frame: "\<And>n out w a x w'. I (n, out, w) \<Longrightarrow> isContract S a w = (x, w') \<Longrightarrow> I (n, out, w')"
    and trace: "\<And>n out w h y w'. I (n, out, w) \<Longrightarrow> traceTransaction S h w = (y, w') \<Longrightarrow> I (n, out, w')"
  shows "\<exists>n out. I (n, out, w') \<and> (\<forall>evs. r = Inr evs \<longrightarrow> evs = out)"
  using assms(1,2)
proof (induction txs arbitrary: st)
  case Nil
  then show ?case by (cases st) auto
next
  case (Cons tx txs)
  obtain n out w where st: "st = (n, out, w)" by (cases st)
  show ?case
  proof (cases "tx_To tx")
    case None
    with Cons st show ?thesis by simp
  next
    case (Some a)
    obtain x w1 where x: "isContract S a w = (x, w1)" by fastforce
    have i1: "I (n, out, w1)" using frame Cons.prems(2) st x by blast
    show ?thesis
    proof (cases "x = Inr True")
      case False
      with Cons Some st x i1 show ?thesis by (cases x) (auto split: bool.splits)
    next
      case True
      obtain y w2 where y: "traceTransaction S (tx_Hash tx) w1 = (y, w2)" by fastforce
      have i2: "I (n, out, w2)" using trace i1 y by blast
      have i3: "I (collect S (hash_Hex (ts_lib S) (tx_Hash tx)) k t 0 (cf_Calls fr) (n, out, w2))" for fr
        using visit i2 by (rule collect_invariant)
      have "trace_txs S k t (tx # txs) st = (case y of
          Inl e \<Rightarrow> trace_txs S k t txs (n, out, w2)
        | Inr root \<Rightarrow> if traceUnsupported w2 then (Inr out, w2)
            else (case root of None \<Rightarrow> (Inr out, w2) | Some fr \<Rightarrow> trace_txs S k t txs
              (collect S (hash_Hex (ts_lib S) (tx_Hash tx)) k t 0 (cf_Calls fr) (n, out, w2))))"
        using Some st x True y by simp
      with Cons i2 i3 show ?thesis
        by (auto split: sum.splits if_splits option.splits)
    qed
  qed
qed

lemma trace_ScanBlock_invariant:
  assumes "trace_ScanBlock S b k w = (r, w')"
    and init: "\<And>w1. codeCache w1 = codeCache w \<Longrightarrow> I (0, [], w1)"
    and visit: "\<And>t tx c st. I st \<Longrightarrow> I (visit S tx k t c st)"
    and frame: "\<And>n out w a x w'. I (n, out, w) \<Longrightarrow> isContract S a w = (x, w') \<Longrightarrow> I (n, out, w')"
    and trace: "\<And>n out w h y w'. I (n, out, w) \<Longrightarrow> traceTransaction S h w = (y, w') \<Longrightarrow> I (n, out, w')"
  shows "\<exists>n out. I (n, out, w') \<and> (\<forall>evs. r = Inr evs \<longrightarrow> evs = out)"
proof (cases "traceUnsupported w")
  case True
  with assms(1) init [of w] show ?thesis by (auto simp: trace_ScanBlock_def)
next
  case False
  obtain x w1 where x: "rpc_do (ts_client S) (ts_retryOpt S) None (BlockByNumber (ts_client S) b) w = (x, w1)" by fastforce
  have i: "I (0, [], w1)" using init rpc_do_cache [OF x] by blast
  show ?thesis
  proof (cases "\<exists>block. x = Inr (Some block)")
    case True
    then obtain block where "trace_txs S k (block_time block) (Transactions block) (0, [], w1) = (r, w')"
      using assms(1) False x by (auto simp: trace_ScanBlock_def)
    from trace_txs_invariant [where I = I, OF this i visit frame trace] show ?thesis .
  next
    case no: False
    with assms(1) False x i show ?thesis
      by (auto simp: trace_ScanBlock_def split: sum.splits option.splits)
  qed
qed

section \<open>The interface\<close>

interpretation trace_scanner: typed_scanner "trace_scanner S" for S :: "'n TraceScanner"
proof
  fix b k and s s' :: "'n tworld" and events
  assume s: "ScanBlock (trace_scanner S) b k s = (Inr events, s')" and k: "in_i64 k"
  then have "trace_ScanBlock S b k s = (Inr events, s')" by (simp add: trace_scanner_def)
  from trace_ScanBlock_invariant [where I = all_typed, OF this] typed_visit [OF k] show "list_all typed_event events"
    by (fastforce simp: all_typed_def)
qed

text \<open>Every index lies at or below the base.\<close>

lemma trace_scan_indices:
  assumes "trace_ScanBlock T b k w = (Inr evs, w')" and "length evs < 2 ^ 62" and "e \<in> set evs"
  shows "ev_LogIndex e \<le> -100000"
proof -
  obtain n where n: "numbered (n, evs, w')"
    using trace_ScanBlock_invariant [where I = numbered, OF assms(1) _ numbered_visit] by (auto simp: numbered_def)
  have "ev_LogIndex e \<in> set (map ev_LogIndex evs)" using assms(3) by simp
  then obtain i where "i < n" "ev_LogIndex e = wrap64 (traceLogIndexBase - int i)"
    using n that by (simp add: numbered_def del: set_map) (auto simp: in_set_conv_nth)
  moreover have "int i < 2 ^ 62"
    using \<open>i < n\<close> n assms(2) by (simp add: numbered_def)
  ultimately show ?thesis by (simp add: traceLogIndexBase_def wrap64_id)
qed

section \<open>Lemmas: a node that answers\<close>

text \<open>
  A node that answers \<^verbatim>\<open>eth_getCode\<close> from \<open>code\<close> and every trace with the tree \<open>tree\<close>, and a cache that
  holds no wrong entry.
\<close>

definition node_answers :: "'n TraceScanner \<Rightarrow> (address \<Rightarrow> byte list) \<Rightarrow> (hash \<Rightarrow> callFrame) \<Rightarrow> bool" where
  "node_answers S code tree \<longleftrightarrow> 0 \<le> MaxRetries (ts_retryOpt S) \<and> (\<forall>a n. CodeAt (ts_client S) a n = (Inr (code a), n))
    \<and> (\<forall>h n. \<exists>raw. ts_trace S (hash_Hex (ts_lib S) h) n = (Inr (Some raw), n) \<and> unmarshal_frame raw = Inr (tree h))"

definition cache_agrees :: "(address \<Rightarrow> byte list) \<Rightarrow> 'n tworld \<Rightarrow> bool" where
  "cache_agrees code w \<longleftrightarrow> (\<forall>(a, v) \<in> set (codeCache w). v = (code a \<noteq> []))"

text \<open>The payments of a block: for every transaction to a contract, in order, its paying calls in preorder.\<close>

definition payments :: "'n TraceScanner \<Rightarrow> (address \<Rightarrow> byte list) \<Rightarrow> (hash \<Rightarrow> callFrame) \<Rightarrow> 'n tworld \<Rightarrow> Transaction list
    \<Rightarrow> (string \<times> callFrame) list" where
  "payments S code tree w txs = concat (map (\<lambda>tx.
     if \<exists>a. tx_To tx = Some a \<and> code a \<noteq> []
     then map (Pair (hash_Hex (ts_lib S) (tx_Hash tx))) (filter (pays S w) (preorder (cf_Calls (tree (tx_Hash tx)))))
     else []) txs)"

definition payment_events :: "'n TraceScanner \<Rightarrow> int \<Rightarrow> string \<Rightarrow> nat \<Rightarrow> (string \<times> callFrame) list \<Rightarrow> DepositEvent list" where
  "payment_events S k t n ps = map (\<lambda>(i, h, c). trace_event S h k t i c (the (frame_value_of c))) (enumerate n ps)"

lemma payment_events_append:
  "payment_events S k t n (xs @ ys) = payment_events S k t n xs @ payment_events S k t (n + length xs) ys"
  by (simp add: payment_events_def enumerate_append_eq)

lemma payment_events_one_tx: "payment_events S k t n (map (Pair h) fs) = events_from S h k t n fs"
  by (induction fs arbitrary: n) (simp_all add: payment_events_def events_from_def)

lemma rpc_do_answered:
  "0 \<le> MaxRetries opt \<Longrightarrow> call (eth_node w) = (Inr v, eth_node w) \<Longrightarrow> rpc_do cl opt z call w = (Inr v, w)"
  by (simp add: rpc_do_def Do_first_attempt)

lemma pays_cong: "acc w' = acc w \<Longrightarrow> pays S w' = pays S w"
  by (simp add: fun_eq_iff pays_def watched_def)

lemma isContract_answered:
  assumes "node_answers S code tree" and "cache_agrees code w"
  shows "\<exists>cache. isContract S a w = (Inr (code a \<noteq> []), w\<lparr>codeCache := cache\<rparr>) \<and> cache_agrees code (w\<lparr>codeCache := cache\<rparr>)"
proof (cases "map_of (codeCache w) a")
  case (Some v)
  then have "v = (code a \<noteq> [])" using assms(2) by (auto simp: cache_agrees_def dest: map_of_SomeD)
  then show ?thesis using Some assms(2) by (intro exI [of _ "codeCache w"]) (simp add: isContract_def)
next
  case None
  define cache where "cache = AList.update a (code a \<noteq> []) (if int (length (codeCache w)) \<ge> codeCacheMaxEntries then [] else codeCache w)"
  have "rpc_do (ts_client S) (ts_retryOpt S) [] (CodeAt (ts_client S) a) w = (Inr (code a), w)"
    using assms(1) by (intro rpc_do_answered) (auto simp: node_answers_def)
  then have "isContract S a w = (Inr (code a \<noteq> []), w\<lparr>codeCache := cache\<rparr>)"
    using None by (simp add: isContract_def Let_def cache_def)
  moreover have "cache_agrees code (w\<lparr>codeCache := cache\<rparr>)"
    using assms(2) set_update_alist [of a "code a \<noteq> []" "codeCache w"] unfolding cache_agrees_def cache_def by auto
  ultimately show ?thesis by blast
qed

lemma traceTransaction_answered:
  assumes "node_answers S code tree"
  shows "traceTransaction S h w = (Inr (Some (tree h)), w)"
proof -
  obtain raw where raw: "ts_trace S (hash_Hex (ts_lib S) h) (eth_node w) = (Inr (Some raw), eth_node w)" "unmarshal_frame raw = Inr (tree h)"
    using assms unfolding node_answers_def by meson
  have "rpc_do (ts_client S) (ts_retryOpt S) None (ts_trace S (hash_Hex (ts_lib S) h)) w = (Inr (Some raw), w)"
    using assms raw by (intro rpc_do_answered) (auto simp: node_answers_def)
  then show ?thesis using raw by (simp add: traceTransaction_def)
qed

lemma trace_txs_answered:
  assumes "node_answers S code tree" and "\<forall>tx \<in> set txs. int (levels (cf_Calls (tree (tx_Hash tx)))) \<le> maxCallFrameDepth + 1"
    and "cache_agrees code w" and "acc_outcomes (acc w) = []" and "\<not> traceUnsupported w"
  shows "fst (trace_txs S k t txs (n, out, w)) = Inr (out @ payment_events S k t n (payments S code tree w txs))"
  using assms(2-5)
proof (induction txs arbitrary: n out w)
  case Nil
  then show ?case by (simp add: payments_def payment_events_def)
next
  case (Cons tx txs)
  show ?case
  proof (cases "tx_To tx")
    case None
    with Cons show ?thesis by (simp add: payments_def)
  next
    case (Some a)
    obtain cache where c: "isContract S a w = (Inr (code a \<noteq> []), w\<lparr>codeCache := cache\<rparr>)" "cache_agrees code (w\<lparr>codeCache := cache\<rparr>)"
      using isContract_answered [OF assms(1) Cons.prems(2)] by blast
    let ?w = "w\<lparr>codeCache := cache\<rparr>"
    define h where "h = hash_Hex (ts_lib S) (tx_Hash tx)"
    define fs where "fs = filter (pays S w) (preorder (cf_Calls (tree (tx_Hash tx))))"
    have p: "payments S code tree w (tx # txs) = (if code a \<noteq> [] then map (Pair h) fs else []) @ payments S code tree ?w txs"
      using Some pays_cong [of ?w w S] by (simp add: payments_def h_def fs_def cong: if_cong)
    have rest: "fst (trace_txs S k t txs (m, out', ?w)) = Inr (out' @ payment_events S k t m (payments S code tree ?w txs))" for m out'
      using Cons.prems c(2) by (intro Cons.IH) simp_all
    show ?thesis
    proof (cases "code a = []")
      case True
      with rest [of n out] p show ?thesis using Some c(1) by simp
    next
      case False
      have "collect S h k t 0 (cf_Calls (tree (tx_Hash tx))) (n, out, ?w) = (n + length fs, out @ events_from S h k t n fs, ?w)"
        using collect_served [of ?w 0 "cf_Calls (tree (tx_Hash tx))" S h k t n out] Cons.prems pays_cong [of ?w w S] by (simp add: fs_def)
      then have "fst (trace_txs S k t (tx # txs) (n, out, w)) = fst (trace_txs S k t txs (n + length fs, out @ events_from S h k t n fs, ?w))"
        using Some c(1) False traceTransaction_answered [OF assms(1), of "tx_Hash tx" ?w] Cons.prems(4) by (simp add: h_def)
      then show ?thesis
        using rest p False by (simp add: payment_events_append payment_events_one_tx)
    qed
  qed
qed

lemma trace_ScanBlock_answered:
  assumes "node_answers S code tree" and "BlockByNumber (ts_client S) b (eth_node w) = (Inr (Some block), eth_node w)"
    and "\<forall>tx \<in> set (Transactions block). int (levels (cf_Calls (tree (tx_Hash tx)))) \<le> 1025"
    and "cache_agrees code w" and "acc_outcomes (acc w) = []" and "\<not> traceUnsupported w"
  shows "fst (trace_ScanBlock S b k w) = Inr (payment_events S k (block_time block) 0 (payments S code tree w (Transactions block)))"
proof -
  have "rpc_do (ts_client S) (ts_retryOpt S) None (BlockByNumber (ts_client S) b) w = (Inr (Some block), w)"
    using assms(1,2) by (intro rpc_do_answered) (auto simp: node_answers_def)
  moreover note trace_txs_answered [OF assms(1) _ assms(4-6), of "Transactions block" k "block_time block" 0 "[]"]
  ultimately show ?thesis
    using assms(3,6) by (simp add: trace_ScanBlock_def maxCallFrameDepth_def)
qed

section \<open>Properties\<close>


text \<open>A contract (address 9) that pays address 7 twice, once in a nested call; a failed call pays too.\<close>

definition sample_call :: "string \<Rightarrow> string \<Rightarrow> string \<Rightarrow> callFrame list \<Rightarrow> callFrame" where
  "sample_call to val err cs = CallFrame ''CALL'' ''0x9'' to val err cs"

definition sample_tree :: callFrame where
  "sample_tree = sample_call ''0x9'' ''0x0'' ''''
     [sample_call ''0x8'' ''0x5'' '''' [sample_call ''0x7'' ''0xff'' '''' []], sample_call ''0x7'' ''0x1'' ''out of gas'' [],
      sample_call ''0x7'' ''0x10'' '''' []]"

fun frame_json :: "callFrame \<Rightarrow> json" where
  "frame_json (CallFrame t f to v e cs) =
    JObj [(''type'', JStr t), (''from'', JStr f), (''to'', JStr to), (''value'', JStr v), (''error'', JStr e), (''calls'', JArr (map frame_json cs))]"

lemma frame_value_json: "frame_value (frame_json c) = (c, True)"
proof (induction c)
  case (CallFrame t f to v e cs)
  then have "frame_list (map frame_json cs) = (cs, True)"
    by (induction cs) auto
  then show ?case by (simp add: Let_def zero_frame_def to_lower_def lower_char_def)
qed

lemma unmarshal_frame_json [simp]: "unmarshal_frame (frame_json c) = Inr c"
  by (simp add: unmarshal_frame_def frame_value_json)

definition sample_eth :: "Block ETHClient" where
  "sample_eth = \<lparr>cl_BlockNumber = (\<lambda>n. (Inr 100, n)), BlockByNumber = (\<lambda>b n. (Inr (Some n), n)), FilterLogs = (\<lambda>q n. (Inr [], n)),
     CodeAt = (\<lambda>a n. (Inr (if a = 9 then [1] else []), n)), TransactionSender = (\<lambda>tx h i n. (Inr 5, n)), ctx_wait = (\<lambda>n d. (None, n))\<rparr>"

definition sample_print :: eth_lib where
  "sample_print = \<lparr>addr_Hex = (\<lambda>a. if a = 7 then ''0x7'' else if a = 8 then ''0x8'' else ''0x9''),
     hash_Hex = (\<lambda>h. if h = 20 then ''0x20'' else ''0x21''), BytesToAddress = (\<lambda>h. 0),
     HexToAddress = (\<lambda>s. if s = ''0x7'' then 7 else if s = ''0x8'' then 8 else 9), Keccak256Hash = (\<lambda>s. 0)\<rparr>"

definition sample_tracer :: "(string \<Rightarrow> Block \<Rightarrow> (goerror + json option) \<times> Block) \<Rightarrow> Block TraceScanner" where
  "sample_tracer f = \<lparr>ts_lib = sample_print, ts_client = sample_eth, ts_trace = f,
     ts_chain = \<lparr>cc_ChainID = 1, cc_RPCURL = [], cc_Native = ''ETH'', cc_Decimals = 18, cc_BlockTimeMs = 0, cc_PollingIntervalMs = 0,
       cc_MinConfirmations = 12, cc_ChainType = ''erc20'', cc_Contracts = []\<rparr>,
     ts_retryOpt = \<lparr>MaxRetries = 0, BaseDelay = 0\<rparr>\<rparr>"

definition healthy :: "string \<Rightarrow> Block \<Rightarrow> (goerror + json option) \<times> Block" where
  "healthy h n = (Inr (Some (frame_json sample_tree)), n)"

definition traced_block :: Block where
  "traced_block = \<lparr>block_Time = 0, block_Hash = 1, Transactions =
     [\<lparr>tx_To = Some 9, tx_Data = [], tx_Value = 0, tx_Hash = 20\<rparr>, \<lparr>tx_To = Some 7, tx_Data = [], tx_Value = 4, tx_Hash = 21\<rparr>]\<rparr>"

definition traced_world :: "outcome list \<Rightarrow> Block tworld" where
  "traced_world os = \<lparr>eth_node = traced_block, acc = \<lparr>accounts = [(1, ''0X7'')], acc_outcomes = os\<rparr>, codeCache = [(7, False)], traceUnsupported = False\<rparr>"

definition transfer_of :: "DepositEvent \<Rightarrow> string \<times> int \<times> int option" where
  "transfer_of e = (ev_TxHash e, ev_LogIndex e, ev_Amount e)"

lemma healthy_answers: "node_answers (sample_tracer healthy) (\<lambda>a. if a = 9 then [1] else []) (\<lambda>h. sample_tree)"
  by (auto simp: node_answers_def sample_tracer_def sample_eth_def healthy_def)

lemma sample_lower:
  "to_lower ''0X7'' = ''0x7''" "to_lower ''0x7'' = ''0x7''" "to_lower ''0x8'' = ''0x8''" "to_lower ''0x9'' = ''0x9''"
  by code_simp+

lemma sample_pays: "pays (sample_tracer f) (traced_world os) c \<longleftrightarrow> frame_value_of c \<noteq> None \<and> cf_To c = ''0x7''"
  by (auto simp: pays_def sample_tracer_def sample_print_def traced_world_def watched_def registered_def chain_id_def to_i64_def sample_lower)

lemma sample_values:
  "frame_value_of (CallFrame ''CALL'' ''0x9'' ''0x7'' ''0xff'' '''' []) = Some 255"
  "frame_value_of (CallFrame ''CALL'' ''0x9'' ''0x7'' ''0x10'' '''' []) = Some 16"
  by code_simp+

lemma sample_setup:
  "BlockByNumber (ts_client (sample_tracer f)) b (eth_node (traced_world os)) = (Inr (Some traced_block), eth_node (traced_world os))"
  "\<forall>tx \<in> set (Transactions traced_block). int (levels (cf_Calls sample_tree)) \<le> 1025"
  "cache_agrees (\<lambda>a. if a = 9 then [1] else []) (traced_world os)" "acc_outcomes (acc (traced_world [])) = []" "\<not> traceUnsupported (traced_world os)"
  by (simp_all add: sample_tracer_def sample_eth_def traced_world_def cache_agrees_def sample_tree_def sample_call_def)

lemma sample_payments:
  "payments (sample_tracer f) (\<lambda>a. if a = 9 then [1] else []) (\<lambda>h. sample_tree) (traced_world os) (Transactions traced_block) =
    [(''0x20'', sample_call ''0x7'' ''0xff'' '''' []), (''0x20'', sample_call ''0x7'' ''0x10'' '''' [])]"
proof -
  have "filter (pays (sample_tracer f) (traced_world os)) (preorder (cf_Calls sample_tree)) =
      [sample_call ''0x7'' ''0xff'' '''' [], sample_call ''0x7'' ''0x10'' '''' []]"
    by (simp add: sample_tree_def sample_call_def sample_pays sample_values)
  moreover have "hash_Hex (ts_lib (sample_tracer f)) 20 = ''0x20''"
    by (simp add: sample_tracer_def sample_print_def)
  ultimately show ?thesis by (simp add: payments_def traced_block_def)
qed

definition sample_events :: "DepositEvent list" where
  "sample_events = [trace_event (sample_tracer healthy) ''0x20'' 12 (block_time traced_block) 0 (sample_call ''0x7'' ''0xff'' '''' []) 255,
     trace_event (sample_tracer healthy) ''0x20'' 12 (block_time traced_block) 1 (sample_call ''0x7'' ''0x10'' '''' []) 16]"

lemma payment_sample_events:
  "payment_events (sample_tracer healthy) 12 (block_time traced_block) 0
    [(''0x20'', sample_call ''0x7'' ''0xff'' '''' []), (''0x20'', sample_call ''0x7'' ''0x10'' '''' [])] = sample_events"
  by (simp add: payment_events_def sample_events_def sample_values sample_call_def)

lemma transfers_sample_events: "map transfer_of sample_events = [(''0x20'', -100000, Some 255), (''0x20'', -100001, Some 16)]"
  by (simp add: sample_events_def transfer_of_def trace_event_def traceLogIndexBase_def wrap64_id)

lemma sample_scan: "fst (trace_ScanBlock (sample_tracer healthy) 5 12 (traced_world [])) = Inr sample_events"
  using trace_ScanBlock_answered [OF healthy_answers sample_setup, of 5 12]
  by (simp add: sample_payments payment_sample_events)


text \<open>
  C37. The index space of the trace scanner. Whatever fails during the scan, the events of a block carry the indices
  -100000, -100001 and so on, without gaps.
\<close>

theorem trace_indices:
  assumes "trace_ScanBlock S b k w = (Inr evs, w')"
  shows "map ev_LogIndex evs = map (\<lambda>i. wrap64 (-100000 - int i)) [0..<length evs]"
proof -
  obtain n out where "numbered (n, out, w')" "evs = out"
    using trace_ScanBlock_invariant [where I = numbered, OF assms _ numbered_visit] by (auto simp: numbered_def)
  then show ?thesis by (auto simp: numbered_def traceLogIndexBase_def)
qed

theorem trace_indices_witness: "map ev_LogIndex sample_events = [-100000, -100001]"
proof -
  obtain w' where "trace_ScanBlock (sample_tracer healthy) 5 12 (traced_world []) = (Inr sample_events, w')"
    using sample_scan by (metis fst_conv surj_pair)
  from trace_indices [OF this] show ?thesis
    by (simp add: sample_events_def wrap64_id)
qed

text \<open>
  The contract cache stays bounded: every scan, successful or not, leaves at most 10000 entries, one per address.
\<close>

theorem trace_cache_bounded:
  assumes "trace_ScanBlock S b k w = (r, w')"
    and "distinct (map fst (codeCache w))" and "length (codeCache w) \<le> 10000"
  shows "distinct (map fst (codeCache w')) \<and> length (codeCache w') \<le> 10000"
proof -
  have "cache_ok w" using assms(2,3) by (simp add: cache_ok_def codeCacheMaxEntries_def)
  then have init: "cache_ok w1" if "codeCache w1 = codeCache w" for w1
    using that by (simp add: cache_ok_def)
  have "\<exists>(n :: nat) out. cache_ok (snd (snd (n, out, w'))) \<and> (\<forall>evs. r = Inr evs \<longrightarrow> evs = out)"
    by (rule trace_ScanBlock_invariant [where I = "\<lambda>st. cache_ok (snd (snd st))", OF assms(1)])
      (auto simp: init cache_visit intro: isContract_cache traceTransaction_cache)
  then show ?thesis by (simp add: cache_ok_def codeCacheMaxEntries_def)
qed

theorem trace_cache_bounded_witness:
  "length (codeCache (snd (trace_ScanBlock (sample_tracer healthy) 5 12 (traced_world [])))) \<le> 10000"
proof -
  have "trace_ScanBlock (sample_tracer healthy) 5 12 (traced_world []) = (fst (trace_ScanBlock (sample_tracer healthy) 5 12 (traced_world [])),
      snd (trace_ScanBlock (sample_tracer healthy) 5 12 (traced_world [])))"
    by simp
  from trace_cache_bounded [OF this] show ?thesis by (simp add: traced_world_def)
qed

text \<open>
  One error that looks like a missing method ends tracing for good: the scan of the block returns the events found before it
  as if the block were done, and every later block is reported empty.
\<close>

theorem trace_disabled_for_good:
  assumes "tx_To tx = Some a" and "isContract S a w = (Inr True, w1)"
    and "rpc_do (ts_client S) (ts_retryOpt S) None (ts_trace S (hash_Hex (ts_lib S) (tx_Hash tx))) w1 = (Inl e, w2)"
    and "isMethodNotFound e"
  shows "\<exists>w3. trace_txs S k t (tx # txs) (n, evs, w) = (Inr evs, w3)
    \<and> (\<forall>b k'. trace_ScanBlock S b k' w3 = (Inr [], w3))"
  using assms by (simp add: traceTransaction_def trace_ScanBlock_def)

definition busy_node :: "string \<Rightarrow> Block \<Rightarrow> (goerror + json option) \<times> Block" where
  "busy_node h n = (Inl (RpcError (-32000) ''trace data not available, retry later''), n)"

theorem trace_disabled_for_good_witness:
  "\<exists>w3. trace_txs (sample_tracer busy_node) 12 ''t'' (Transactions traced_block) (0, [], traced_world []) = (Inr [], w3)
    \<and> trace_ScanBlock (sample_tracer busy_node) 6 12 w3 = (Inr [], w3)"
proof -
  have "isContract (sample_tracer busy_node) 9 (traced_world []) = (Inr True, traced_world []\<lparr>codeCache := [(7, False), (9, True)]\<rparr>)"
    by (simp add: isContract_def sample_tracer_def traced_world_def sample_eth_def rpc_do_def Do_def codeCacheMaxEntries_def)
  moreover have "rpc_do (ts_client (sample_tracer busy_node)) (ts_retryOpt (sample_tracer busy_node)) None
      (ts_trace (sample_tracer busy_node) h) w = (Inl (RpcError (-32000) ''trace data not available, retry later''), w)" for h w
    by (simp add: sample_tracer_def busy_node_def rpc_do_def Do_def)
  moreover have "isMethodNotFound (RpcError (-32000) ''trace data not available, retry later'')"
    by (simp add: isMethodNotFound_def)
  ultimately show ?thesis
    using trace_disabled_for_good [where S = "sample_tracer busy_node" and a = 9 and tx = "hd (Transactions traced_block)"]
    by (fastforce simp: traced_block_def)
qed

lemma sample_nested_value: "frame_value_of (CallFrame ''CALL'' ''0x9'' ''0x8'' ''0x5'' '''' [CallFrame ''CALL'' ''0x9'' ''0x7'' ''0xff'' '''' []]) = Some 5"
  by code_simp

lemma sample_ids: "chain_id (ts_chain (sample_tracer f)) = 1" "hash_Hex (ts_lib (sample_tracer f)) 20 = ''0x20''"
    "addr_Hex (ts_lib (sample_tracer f)) (HexToAddress (ts_lib (sample_tracer f)) ''0x7'') = ''0x7''"
    "addr_Hex (ts_lib (sample_tracer f)) (HexToAddress (ts_lib (sample_tracer f)) ''0x8'') = ''0x8''"
  by (simp_all add: sample_tracer_def sample_print_def chain_id_def to_i64_def)

lemma lookup_lost:
  "collect (sample_tracer healthy) ''0x20'' 12 t 0 (cf_Calls sample_tree)
      (0, [], traced_world [Served, Refused DeadlineExceeded]\<lparr>codeCache := c\<rparr>) =
    (1, [trace_event (sample_tracer healthy) ''0x20'' 12 t 0 (sample_call ''0x7'' ''0x10'' '''' []) 16], traced_world []\<lparr>codeCache := c\<rparr>)"
  by (simp add: sample_tree_def sample_call_def visit_def sample_values sample_nested_value sample_ids has_one_def Has_def
      acc_outcome_def traced_world_def registered_def sample_lower maxCallFrameDepth_def)

lemma scan_lookup_lost:
  "fst (trace_ScanBlock (sample_tracer healthy) 5 12 (traced_world [Served, Refused DeadlineExceeded])) =
    Inr [trace_event (sample_tracer healthy) ''0x20'' 12 (block_time traced_block) 0 (sample_call ''0x7'' ''0x10'' '''' []) 16]"
proof -
  let ?w = "traced_world [Served, Refused DeadlineExceeded]"
  have b: "rpc_do (ts_client (sample_tracer healthy)) (ts_retryOpt (sample_tracer healthy)) None
      (BlockByNumber (ts_client (sample_tracer healthy)) 5) ?w = (Inr (Some traced_block), ?w)"
    using healthy_answers by (intro rpc_do_answered sample_setup) (simp add: node_answers_def)
  have c: "isContract (sample_tracer healthy) 9 ?w = (Inr True, ?w\<lparr>codeCache := [(7, False), (9, True)]\<rparr>)"
    by (simp add: isContract_def sample_tracer_def traced_world_def sample_eth_def rpc_do_def Do_def codeCacheMaxEntries_def)
  have d: "isContract (sample_tracer healthy) 7 (traced_world os\<lparr>codeCache := [(7, False), (9, True)]\<rparr>) =
      (Inr False, traced_world os\<lparr>codeCache := [(7, False), (9, True)]\<rparr>)" for os
    by (simp add: isContract_def traced_world_def)
  show ?thesis
    using b c d traceTransaction_answered [OF healthy_answers, of 20 "?w\<lparr>codeCache := [(7, False), (9, True)]\<rparr>"]
      lookup_lost [of "block_time traced_block"] sample_ids(2) [of healthy] sample_setup(5) [of "[Served, Refused DeadlineExceeded]"]
    by (simp add: trace_ScanBlock_def traced_block_def)
qed

text \<open>
  The key of an internal transfer is not stable. Two scans of the same block disagree when one account lookup fails: the failed
  lookup is swallowed, the transfer it belonged to is dropped although the scan succeeds, and the next transfer takes over its index.
\<close>

theorem trace_keys_shift:
  "\<exists>evs evs'. fst (trace_ScanBlock (sample_tracer healthy) 5 12 (traced_world [])) = Inr evs
    \<and> fst (trace_ScanBlock (sample_tracer healthy) 5 12 (traced_world [Served, Refused DeadlineExceeded])) = Inr evs'
    \<and> map transfer_of evs = [(''0x20'', -100000, Some 255), (''0x20'', -100001, Some 16)]
    \<and> map transfer_of evs' = [(''0x20'', -100000, Some 16)]"
proof -
  have *: "transfer_of (trace_event S h k t 0 c v) = (h, -100000, Some v)" for S :: "Block TraceScanner" and h k t c v
    by (simp add: transfer_of_def trace_event_def traceLogIndexBase_def wrap64_id)
  show ?thesis
    by (intro exI conjI, rule sample_scan, rule scan_lookup_lost) (simp_all add: transfers_sample_events *)
qed

end
