(* ===== verification/Http_Server.thy ===== *)
theory Http_Server
  imports Go_Errors "HOL-Library.Sublist"
begin

text \<open>
  \<^verbatim>\<open>internal/httpserver/server.go\<close>: the readiness flag, the two health endpoints, the routes that \<^verbatim>\<open>Run\<close> registers, how a request
  is dispatched on them and the end of the server. The ping of the pool runs on a world of type \<^typ>\<open>'w\<close>; the handler of the
  metrics (\<^verbatim>\<open>promhttp\<close>) and those of the profiler are the argument \<^verbatim>\<open>ext\<close>.
\<close>

record Server =
  srv_ready :: bool

record response =
  status :: nat
  body :: string

definition MarkReady :: "Server \<Rightarrow> Server" where
  "MarkReady s = s\<lparr>srv_ready := True\<rparr>"

definition healthz :: "Server \<Rightarrow> response" where
  "healthz s = \<lparr>status = 200, body = ''ok''\<rparr>"

text \<open>\<^verbatim>\<open>http.Error\<close> ends the text with a newline.\<close>

definition http_Error :: "string \<Rightarrow> nat \<Rightarrow> response" where
  "http_Error msg code = \<lparr>status = code, body = msg @ [CHR 0x0A]\<rparr>"

definition readyz :: "('w \<Rightarrow> goerror option \<times> 'w) \<Rightarrow> Server \<Rightarrow> 'w \<Rightarrow> response \<times> 'w" where
  "readyz ping s w =
    (if \<not> srv_ready s then (http_Error ''not ready: initial reconcile not done'' 503, w)
     else (case ping w of
        (Some e, w') \<Rightarrow> (http_Error (''db ping failed: '' @ Error e) 503, w')
      | (None, w') \<Rightarrow> (\<lparr>status = 200, body = ''ready''\<rparr>, w')))"

text \<open>
  What the \<^verbatim>\<open>select\<close> of \<^verbatim>\<open>Run\<close> sees first: the end of the context (\<^verbatim>\<open>Shutdown\<close> then runs and its error is only logged), or the
  channel of the serving goroutine: an error, or closed after \<^verbatim>\<open>ErrServerClosed\<close>, in which case \<^verbatim>\<open>%w\<close> formats \<^verbatim>\<open>nil\<close>.
\<close>

datatype http_end = HttpCtx goerror "goerror option" | ServeFailed goerror | ServeClosed

fun http_Run :: "http_end \<Rightarrow> goerror" where
  "http_Run (HttpCtx e shutdownErr) = e"
| "http_Run (ServeFailed e) = Wrap ''http server'' e"
| "http_Run ServeClosed = Opaque ''http server: %!w(<nil>)''"

section \<open>Routes\<close>

text \<open>
  The handlers by the name of the function that \<^verbatim>\<open>Run\<close> passes, and the registration of a pattern: \<^verbatim>\<open>ServeMux\<close> panics
  (\<^const>\<open>None\<close>) for a pattern that is registered already.
\<close>

datatype handler = Healthz | Readyz | PromHandler | PprofIndex | PprofCmdline | PprofProfile | PprofSymbol | PprofTrace

type_synonym mux = "(string \<times> handler) list"

definition mux_Handle :: "string \<Rightarrow> handler \<Rightarrow> mux \<Rightarrow> mux option" where
  "mux_Handle pat h m = (if pat \<in> fst ` set m then None else Some (m @ [(pat, h)]))"

fun mux_HandleAll :: "mux \<Rightarrow> mux \<Rightarrow> mux option" where
  "mux_HandleAll [] m = Some m"
| "mux_HandleAll ((pat, h) # rs) m = Option.bind (mux_Handle pat h m) (mux_HandleAll rs)"

definition run_routes :: mux where
  "run_routes =
    [(''/healthz'', Healthz),
     (''/readyz'', Readyz),
     (''/metrics'', PromHandler),
     (''/debug/pprof/'', PprofIndex),
     (''/debug/pprof/cmdline'', PprofCmdline),
     (''/debug/pprof/profile'', PprofProfile),
     (''/debug/pprof/symbol'', PprofSymbol),
     (''/debug/pprof/trace'', PprofTrace)]"

text \<open>
  \<^verbatim>\<open>net/http\<close>: the path of a request is cleaned (\<^verbatim>\<open>path.Clean\<close> on the rooted path, a final slash kept) before it is matched.
\<close>

fun segments :: "string \<Rightarrow> string list" where
  "segments [] = [[]]"
| "segments (ch # s) = (if ch = CHR ''/'' then [] # segments s else (case segments s of x # xs \<Rightarrow> (ch # x) # xs | [] \<Rightarrow> [[ch]]))"

fun clean_segments :: "string list \<Rightarrow> string list \<Rightarrow> string list" where
  "clean_segments acc [] = rev acc"
| "clean_segments acc (x # xs) =
    (if x = [] \<or> x = ''.'' then clean_segments acc xs
     else if x = ''..'' then clean_segments (tl acc) xs
     else clean_segments (x # acc) xs)"

definition rooted :: "string list \<Rightarrow> string" where
  "rooted xs = concat (map (\<lambda>x. CHR ''/'' # x) xs)"

definition cleanPath :: "string \<Rightarrow> string" where
  "cleanPath p =
    (let np = rooted (clean_segments [] (segments p)) in
     if np = [] then ''/'' else if last p = CHR ''/'' then np @ ''/'' else np)"

text \<open>
  A pattern that ends in a slash stands for every path below it, any other only for itself; the longest pattern that matches wins. A
  path that nothing matches but that is a pattern once a slash is added is redirected there, and a path that was not clean is
  redirected to the clean one.
\<close>

datatype route = Serve handler | Redirect string | NotFound

definition pat_matches :: "string \<Rightarrow> string \<Rightarrow> bool" where
  "pat_matches pat p \<longleftrightarrow> (if last pat = CHR ''/'' then prefix pat p else pat = p)"

fun mux_match :: "mux \<Rightarrow> string \<Rightarrow> (string \<times> handler) option" where
  "mux_match [] p = None"
| "mux_match (r # rs) p =
    (case mux_match rs p of
       None \<Rightarrow> if pat_matches (fst r) p then Some r else None
     | Some r' \<Rightarrow> if pat_matches (fst r) p \<and> length (fst r') < length (fst r) then Some r else Some r')"

definition mux_handler :: "mux \<Rightarrow> string \<Rightarrow> route" where
  "mux_handler m path =
    (let p = cleanPath path in
     case mux_match m p of
       None \<Rightarrow> if p @ ''/'' \<in> fst ` set m then Redirect (p @ ''/'') else if p \<noteq> path then Redirect p else NotFound
     | Some r \<Rightarrow> if p \<noteq> path then Redirect p else Serve (snd r))"

definition serve :: "(handler \<Rightarrow> 'w \<Rightarrow> response \<times> 'w) \<Rightarrow> ('w \<Rightarrow> goerror option \<times> 'w) \<Rightarrow> Server \<Rightarrow> string \<Rightarrow> 'w
    \<Rightarrow> (response + string) \<times> 'w" where
  "serve ext ping s path w =
    (case mux_handler run_routes path of
       NotFound \<Rightarrow> (Inl (http_Error ''404 page not found'' 404), w)
     | Redirect p \<Rightarrow> (Inr p, w)
     | Serve h \<Rightarrow>
         (case (case h of Healthz \<Rightarrow> (healthz s, w) | Readyz \<Rightarrow> readyz ping s w | _ \<Rightarrow> ext h w) of (r, w') \<Rightarrow> (Inl r, w')))"

section \<open>Lemmas\<close>

lemma run_routes_register: "mux_HandleAll run_routes [] = Some run_routes"
  by (simp add: run_routes_def mux_Handle_def)

lemma segments_ne [simp]: "segments s \<noteq> []"
  by (induction s) (auto split: list.split)

lemma segments_no_slash: "x \<in> set (segments s) \<Longrightarrow> CHR ''/'' \<notin> set x"
  by (induction s arbitrary: x) (auto split: list.splits if_splits)

lemma segments_word: "CHR ''/'' \<notin> set x \<Longrightarrow> segments x = [x]"
  by (induction x) auto

lemma segments_append: "CHR ''/'' \<notin> set x \<Longrightarrow> segments (x @ CHR ''/'' # s) = x # segments s"
  by (induction x) auto

text \<open>The segments of a cleaned path: not empty, without slashes, and neither "." nor "..".\<close>

definition clean_seg :: "string \<Rightarrow> bool" where
  "clean_seg x \<longleftrightarrow> x \<noteq> [] \<and> x \<noteq> ''.'' \<and> x \<noteq> ''..'' \<and> CHR ''/'' \<notin> set x"

lemma clean_segments_clean:
  "\<forall>x \<in> set xs. CHR ''/'' \<notin> set x \<Longrightarrow> \<forall>x \<in> set acc. clean_seg x \<Longrightarrow> \<forall>x \<in> set (clean_segments acc xs). clean_seg x"
proof (induction xs arbitrary: acc)
  case (Cons x xs)
  have tl: "\<forall>x \<in> set (tl acc). clean_seg x" using Cons.prems(2) by (cases acc) auto
  have xs: "\<forall>x \<in> set xs. CHR ''/'' \<notin> set x" using Cons.prems(1) by simp
  consider "x = [] \<or> x = ''.''" | "x = ''..''" | "\<not> (x = [] \<or> x = ''.'')" "x \<noteq> ''..''" "clean_seg x"
    using Cons.prems(1) by (auto simp: clean_seg_def)
  then show ?case
  proof cases
    case 1
    then show ?thesis using Cons.IH [OF xs Cons.prems(2)] by (simp only: clean_segments.simps if_True)
  next
    case 2
    then show ?thesis using Cons.IH [OF xs tl] by simp
  next
    case 3
    then have "\<forall>y \<in> set (x # acc). clean_seg y" using Cons.prems(2) by simp
    from Cons.IH [OF xs this] 3(1,2) show ?thesis by (simp only: clean_segments.simps if_False)
  qed
qed simp

lemma clean_segments_id: "\<forall>x \<in> set xs. clean_seg x \<Longrightarrow> clean_segments acc xs = rev acc @ xs"
  by (induction acc xs rule: clean_segments.induct) (auto simp: clean_seg_def)

lemma clean_segments_append: "clean_segments acc (xs @ [[]]) = clean_segments acc xs"
  by (induction acc xs rule: clean_segments.induct) auto

lemma segments_rooted: "\<forall>x \<in> set xs. CHR ''/'' \<notin> set x \<Longrightarrow> xs \<noteq> [] \<Longrightarrow> segments (rooted xs) = [] # xs"
proof (induction xs)
  case (Cons x xs)
  then show ?case
    by (cases xs) (auto simp: rooted_def segments_word segments_append)
qed simp

lemma segments_slash: "segments (s @ ''/'') = segments s @ [[]]"
  by (induction s) (auto split: list.split)

lemma rooted_last:
  assumes "xs \<noteq> []" "\<forall>x \<in> set xs. clean_seg x"
  shows "rooted xs \<noteq> [] \<and> last (rooted xs) \<noteq> CHR ''/''"
proof (cases xs rule: rev_cases)
  case (snoc ys y)
  then have "last y \<in> set y" "rooted xs = rooted ys @ CHR ''/'' # y" "y \<noteq> []" "CHR ''/'' \<notin> set y"
    using assms(2) by (simp_all add: rooted_def clean_seg_def)
  then show ?thesis by (metis append_is_Nil_conv last_append last_ConsR list.distinct(1))
qed (use assms in simp)

lemma cleanPath_cases:
  obtains "cleanPath p = ''/''"
  | xs where "xs \<noteq> []" "\<forall>x \<in> set xs. clean_seg x" "cleanPath p = rooted xs"
  | xs where "xs \<noteq> []" "\<forall>x \<in> set xs. clean_seg x" "cleanPath p = rooted xs @ ''/''"
proof -
  have "\<forall>x \<in> set (clean_segments [] (segments p)). clean_seg x"
    by (rule clean_segments_clean) (auto dest: segments_no_slash)
  moreover have "rooted xs = [] \<longleftrightarrow> xs = []" for xs by (cases xs) (simp_all add: rooted_def)
  ultimately show thesis
    using that by (cases "clean_segments [] (segments p) = []"; cases "last p = CHR ''/''") (simp_all add: cleanPath_def Let_def)
qed

lemma cleanPath_rooted:
  assumes "xs \<noteq> []" "\<forall>x \<in> set xs. clean_seg x"
  shows "cleanPath (rooted xs) = rooted xs" "cleanPath (rooted xs @ ''/'') = rooted xs @ ''/''"
proof -
  have seg: "segments (rooted xs) = [] # xs"
    using assms by (intro segments_rooted) (auto simp: clean_seg_def)
  have "clean_segments [] ([] # xs) = xs" using assms(2) by (simp add: clean_segments_id)
  moreover have "clean_segments [] ([] # xs @ [[]]) = xs"
    using clean_segments_append [of "[]" "[] # xs"] assms(2) by (simp add: clean_segments_id)
  ultimately show "cleanPath (rooted xs) = rooted xs" "cleanPath (rooted xs @ ''/'') = rooted xs @ ''/''"
    using rooted_last [OF assms] by (simp_all add: cleanPath_def Let_def seg segments_slash)
qed

lemma cleanPath_idem: "cleanPath (cleanPath p) = cleanPath p"
proof (cases p rule: cleanPath_cases)
  case 1
  then show ?thesis by (simp add: cleanPath_def rooted_def)
qed (simp_all add: cleanPath_rooted)

lemma mux_match_in: "mux_match m p = Some r \<Longrightarrow> r \<in> set m \<and> pat_matches (fst r) p"
  by (induction m arbitrary: r) (auto split: option.splits if_splits)

lemma mux_match_longest: "r \<in> set m \<Longrightarrow> pat_matches (fst r) p \<Longrightarrow> \<exists>r'. mux_match m p = Some r' \<and> length (fst r) \<le> length (fst r')"
  by (induction m) (fastforce split: option.splits if_splits)+

lemma index_match: "pat_matches ''/debug/pprof/'' p \<longleftrightarrow> prefix ''/debug/pprof/'' p"
  by (simp add: pat_matches_def)

lemma exact_match: "(pat, h) \<in> set run_routes \<Longrightarrow> h \<noteq> PprofIndex \<Longrightarrow> pat_matches pat p \<longleftrightarrow> pat = p"
  by (auto simp: pat_matches_def run_routes_def)

lemma run_routes_index: "(pat, PprofIndex) \<in> set run_routes \<longleftrightarrow> pat = ''/debug/pprof/''"
  by (simp add: run_routes_def)

lemma run_routes_clean: "(pat, h) \<in> set run_routes \<Longrightarrow> cleanPath pat = pat"
  by (auto simp: run_routes_def cleanPath_def rooted_def)

lemma run_routes_unique: "(pat, h) \<in> set run_routes \<Longrightarrow> (pat, h') \<in> set run_routes \<Longrightarrow> h = h'"
  by (auto simp: run_routes_def)

lemma exact_routes: "list_all (\<lambda>(p, h). mux_match run_routes p = Some (p, h)) run_routes"
  by code_simp

lemma exact_route: "(p, h) \<in> set run_routes \<Longrightarrow> mux_match run_routes p = Some (p, h)"
  using exact_routes by (auto simp: list_all_iff)

lemma index_route:
  assumes "prefix ''/debug/pprof/'' p" "p \<notin> fst ` set run_routes"
  shows "mux_match run_routes p = Some (''/debug/pprof/'', PprofIndex)"
proof -
  have "(''/debug/pprof/'', PprofIndex) \<in> set run_routes" by (simp add: run_routes_index)
  with assms(1) mux_match_longest [OF this, of p] obtain r where r: "mux_match run_routes p = Some r"
    by (auto simp: index_match)
  with mux_match_in [OF r] assms(2) exact_match [of "fst r" "snd r" p] have "snd r = PprofIndex"
    by (metis image_eqI prod.collapse)
  with mux_match_in [OF r] run_routes_index [of "fst r"] show ?thesis
    by (metis prod.collapse r)
qed

definition answers :: "string \<Rightarrow> handler \<Rightarrow> bool" where
  "answers p h \<longleftrightarrow> (p, h) \<in> set run_routes \<or> h = PprofIndex \<and> prefix ''/debug/pprof/'' p \<and> p \<notin> fst ` set run_routes"

lemma mux_match_answers: "(\<exists>pat. mux_match run_routes p = Some (pat, h)) \<longleftrightarrow> answers p h"
proof
  assume "\<exists>pat. mux_match run_routes p = Some (pat, h)"
  then obtain pat where m: "mux_match run_routes p = Some (pat, h)" ..
  from mux_match_in [OF this] have pat: "(pat, h) \<in> set run_routes" "pat_matches pat p" by simp_all
  show "answers p h"
  proof (cases "p \<in> fst ` set run_routes")
    case True
    then show ?thesis using m exact_route by (fastforce simp: answers_def)
  next
    case False
    have "h = PprofIndex" using exact_match [OF pat(1), of p] pat False by (metis fst_conv image_eqI)
    with pat False show ?thesis by (auto simp: answers_def run_routes_index index_match)
  qed
qed (auto simp: answers_def exact_route index_route)

section \<open>Properties\<close>

text \<open>
  \<^verbatim>\<open>/readyz\<close> answers 200 exactly when the server was marked ready and the database answers the ping of this very request;
  otherwise it answers 503, and before the mark it does not touch the database. \<^verbatim>\<open>/healthz\<close> answers 200 always.
\<close>

theorem readyz_exact:
  "(status (fst (readyz ping s w)) = 200 \<longleftrightarrow> srv_ready s \<and> fst (ping w) = None)
    \<and> status (fst (readyz ping s w)) \<in> {200, 503}
    \<and> snd (readyz ping s w) = (if srv_ready s then snd (ping w) else w)
    \<and> status (healthz s) = 200"
  by (cases "ping w") (auto simp: readyz_def http_Error_def healthz_def split: option.splits)



end
