(* ===== verification/Settings.thy ===== *)
theory Settings
  imports Decryption
begin

text \<open>
  \<^verbatim>\<open>internal/config/config.go\<close> and \<^verbatim>\<open>internal/common/logger/logger.go\<close>. The package \<^verbatim>\<open>env\<close> that reads the environment is a
  parameter: the parse itself, and what \<^verbatim>\<open>errors.As\<close> finds in its error. Log records are not modelled, the level is.
\<close>

section \<open>Config\<close>

record Config =
  DatabaseURL :: string
  WSTarget :: string
  RPCMaxRetries :: int
  RPCRetryBaseDelayMs :: int
  cfg_MaxBlocksPerPoll :: int
  cfg_BlockDelayMs :: int
  cfg_ReconnectIntervalMs :: int
  cfg_DrainTimeoutMs :: int
  ManagerPollIntervalMs :: int
  HTTPAddr :: string
  BufferStatsIntervalS :: int
  PublisherRequireACK :: bool
  PublisherACKTimeoutMs :: int
  PublisherMaxInFlight :: int
  AuditEnabled :: bool
  AuditIntervalS :: int
  AuditWindowBlocks :: int
  AuditSafetyMargin :: int
  AuditSamplesPerCycle :: int
  EERCAuditorPrivateKey :: string
  LogLevel :: string

text \<open>The \<^verbatim>\<open>env\<close> tags of the struct, by field.\<close>

definition env_tags :: "(string \<times> string) list" where
  "env_tags =
    [(''DatabaseURL'', ''DATABASE_URL,required''), (''WSTarget'', ''WS_TARGET,required''),
     (''RPCMaxRetries'', ''RPC_MAX_RETRIES''), (''RPCRetryBaseDelayMs'', ''RPC_RETRY_BASE_DELAY_MS''),
     (''MaxBlocksPerPoll'', ''MAX_BLOCKS_PER_POLL''), (''BlockDelayMs'', ''BLOCK_DELAY_MS''),
     (''ReconnectIntervalMs'', ''RECONNECT_INTERVAL_MS''), (''DrainTimeoutMs'', ''DRAIN_TIMEOUT_MS''),
     (''ManagerPollIntervalMs'', ''MANAGER_POLL_INTERVAL_MS''), (''HTTPAddr'', ''HTTP_ADDR''),
     (''BufferStatsIntervalS'', ''BUFFER_STATS_INTERVAL_S''), (''PublisherRequireACK'', ''PUBLISHER_REQUIRE_ACK''),
     (''PublisherACKTimeoutMs'', ''PUBLISHER_ACK_TIMEOUT_MS''), (''PublisherMaxInFlight'', ''PUBLISHER_MAX_IN_FLIGHT''),
     (''AuditEnabled'', ''AUDIT_ENABLED''), (''AuditIntervalS'', ''AUDIT_INTERVAL_S''),
     (''AuditWindowBlocks'', ''AUDIT_WINDOW_BLOCKS''), (''AuditSafetyMargin'', ''AUDIT_SAFETY_MARGIN''),
     (''AuditSamplesPerCycle'', ''AUDIT_SAMPLES_PER_CYCLE''), (''EERCAuditorPrivateKey'', ''EERC_AUDITOR_PRIVATE_KEY''),
     (''LogLevel'', ''LOG_LEVEL'')]"

text \<open>The configuration when only the required variables are set.\<close>

definition default_config :: "string \<Rightarrow> string \<Rightarrow> Config" where
  "default_config dsn ws = \<lparr>DatabaseURL = dsn, WSTarget = ws, RPCMaxRetries = 5, RPCRetryBaseDelayMs = 1000, cfg_MaxBlocksPerPoll = 50,
     cfg_BlockDelayMs = 100, cfg_ReconnectIntervalMs = 3000, cfg_DrainTimeoutMs = 5000, ManagerPollIntervalMs = 300000, HTTPAddr = '':8080'',
     BufferStatsIntervalS = 15, PublisherRequireACK = False, PublisherACKTimeoutMs = 30000, PublisherMaxInFlight = 100, AuditEnabled = True,
     AuditIntervalS = 3600, AuditWindowBlocks = 1000, AuditSafetyMargin = 50, AuditSamplesPerCycle = 5, EERCAuditorPrivateKey = '''',
     LogLevel = ''warn''\<rparr>"

definition envTagOf :: "string \<Rightarrow> string" where
  "envTagOf fieldName =
    (case map_of env_tags fieldName of
       None \<Rightarrow> fieldName
     | Some tag \<Rightarrow> let t = takeWhile (\<lambda>c. c \<noteq> CHR '','') tag in if t = '''' then fieldName else t)"

text \<open>An error of the package \<^verbatim>\<open>env\<close>: its text, and the missing variable or the field and text of a parse error it wraps.\<close>

record env_error =
  env_text :: string
  as_VarIsNotSet :: "string option"
  as_ParseError :: "(string \<times> string) option"

definition toConfigError :: "env_error \<Rightarrow> goerror" where
  "toConfigError err =
    (case as_VarIsNotSet err of
       Some key \<Rightarrow> ConfigError key ''required''
     | None \<Rightarrow>
         (case as_ParseError err of
            Some (name, msg) \<Rightarrow> ConfigError (envTagOf name) msg
          | None \<Rightarrow> ConfigError ''ENV'' (env_text err)))"

definition Load :: "('e \<Rightarrow> env_error + Config) \<Rightarrow> 'e \<Rightarrow> goerror + Config" where
  "Load env_Parse environ = (case env_Parse environ of Inl err \<Rightarrow> Inl (toConfigError err) | Inr cfg \<Rightarrow> Inr cfg)"

section \<open>Logger\<close>

datatype slog_Level = LevelDebug | LevelInfo | LevelWarn | LevelError

definition parseLevel :: "string \<Rightarrow> slog_Level" where
  "parseLevel s =
    (let t = to_lower (TrimSpace s) in
     if t = ''debug'' then LevelDebug else if t = ''info'' then LevelInfo
     else if t = ''error'' then LevelError else LevelWarn)"

definition level_String :: "slog_Level \<Rightarrow> string" where
  "level_String l = (case l of LevelDebug \<Rightarrow> ''DEBUG'' | LevelInfo \<Rightarrow> ''INFO'' | LevelWarn \<Rightarrow> ''WARN'' | LevelError \<Rightarrow> ''ERROR'')"

datatype slog_Value = LevelValue slog_Level | StringValue string

definition lowercaseLevel :: "string \<times> slog_Value \<Rightarrow> string \<times> slog_Value" where
  "lowercaseLevel a =
    (if fst a = ''level''
     then (case snd a of LevelValue lv \<Rightarrow> (fst a, StringValue (to_lower (level_String lv))) | StringValue s \<Rightarrow> a)
     else a)"

text \<open>
  \<^verbatim>\<open>New\<close>: the handler by \<^verbatim>\<open>LOG_PRETTY\<close>, its level by \<^verbatim>\<open>LOG_LEVEL\<close>, and the attributes every record carries. An unset variable
  reads as the empty string. \<^verbatim>\<open>slog\<close> drops a record below the level of its handler and passes the attributes it adds itself,
  the level among them, through \<^verbatim>\<open>lowercaseLevel\<close>; the time stamp is left out here.
\<close>

datatype slog_Handler = TextHandler slog_Level | JSONHandler slog_Level

record slog_Logger =
  lg_handler :: slog_Handler
  lg_attrs :: "(string \<times> slog_Value) list"

definition lg_With :: "string \<Rightarrow> string \<Rightarrow> slog_Logger \<Rightarrow> slog_Logger" where
  "lg_With k v l = l\<lparr>lg_attrs := lg_attrs l @ [(k, StringValue v)]\<rparr>"

definition logger_New :: "(string \<Rightarrow> string) \<Rightarrow> string \<Rightarrow> slog_Logger" where
  "logger_New Getenv module =
    (let lvl = parseLevel (Getenv ''LOG_LEVEL'');
         h = (if TrimSpace (Getenv ''LOG_PRETTY'') = ''true'' then TextHandler lvl else JSONHandler lvl);
         log = lg_With ''module'' module \<lparr>lg_handler = h, lg_attrs = []\<rparr>;
         chainID = TrimSpace (Getenv ''CHAIN_ID'')
     in if chainID \<noteq> '''' then lg_With ''chainId'' chainID log else log)"

fun handler_level :: "slog_Handler \<Rightarrow> slog_Level" where
  "handler_level (TextHandler l) = l"
| "handler_level (JSONHandler l) = l"

text \<open>The levels are ordered by the numbers \<^verbatim>\<open>slog\<close> gives them.\<close>

definition level_num :: "slog_Level \<Rightarrow> int" where
  "level_num l = (case l of LevelDebug \<Rightarrow> - 4 | LevelInfo \<Rightarrow> 0 | LevelWarn \<Rightarrow> 4 | LevelError \<Rightarrow> 8)"

instantiation slog_Level :: linorder
begin

definition less_eq_slog_Level :: "slog_Level \<Rightarrow> slog_Level \<Rightarrow> bool" where
  "less_eq_slog_Level l m \<longleftrightarrow> level_num l \<le> level_num m"

definition less_slog_Level :: "slog_Level \<Rightarrow> slog_Level \<Rightarrow> bool" where
  "less_slog_Level l m \<longleftrightarrow> level_num l < level_num m"

instance
  by standard (auto simp: less_eq_slog_Level_def less_slog_Level_def level_num_def split: slog_Level.splits)

end

definition log_record :: "slog_Logger \<Rightarrow> slog_Level \<Rightarrow> string \<Rightarrow> (string \<times> slog_Value) list option" where
  "log_record lg l msg =
    (if l < handler_level (lg_handler lg) then None
     else Some (map lowercaseLevel ([(''level'', LevelValue l), (''msg'', StringValue msg)] @ lg_attrs lg)))"

section \<open>Lemmas\<close>

lemma TrimSpace_pad:
  assumes "list_all is_space l" and "list_all is_space r" and "s \<noteq> []" and "\<not> is_space (hd s)" and "\<not> is_space (last s)"
  shows "TrimSpace (l @ s @ r) = s"
proof -
  have drop: "dropWhile is_space (xs @ ys) = dropWhile is_space ys" if "list_all is_space xs" for xs ys
    using that by (induction xs) auto
  have keep: "dropWhile is_space (ys @ zs) = ys @ zs" if "ys \<noteq> []" "\<not> is_space (hd ys)" for ys zs
    using that by (cases ys) auto
  have "dropWhile is_space (l @ s @ r) = s @ r" using drop [OF assms(1)] keep [OF assms(3,4)] by simp
  moreover have "dropWhile is_space (rev r @ rev s) = rev s"
    using drop [of "rev r"] keep [of "rev s" "[]"] assms(2,3,5) by (simp add: hd_rev)
  ultimately show ?thesis by (simp add: TrimSpace_def)
qed

section \<open>Properties\<close>

text \<open>
  Every failure of \<^verbatim>\<open>Load\<close> is a \<^verbatim>\<open>ConfigError\<close> that names an environment variable: the missing one, the variable of the field that
  did not parse (its tag without options), or "ENV"; for a field of the struct that is never the Go name.
\<close>

theorem Load_errors:
  "(case Load env_Parse environ of
      Inr cfg \<Rightarrow> env_Parse environ = Inr cfg
    | Inl e \<Rightarrow> \<exists>err k m. env_Parse environ = Inl err \<and> e = ConfigError k m
        \<and> (k = ''ENV'' \<or> as_VarIsNotSet err = Some k \<or> (\<exists>name. as_ParseError err = Some (name, m) \<and> k = envTagOf name)))
   \<and> map (\<lambda>(field, tag). envTagOf field) env_tags = map (\<lambda>(field, tag). takeWhile (\<lambda>c. c \<noteq> CHR '','') tag) env_tags
   \<and> (field \<in> fst ` set env_tags \<or> envTagOf field = field)"
proof -
  have "map (\<lambda>(field, tag). envTagOf field) env_tags = map (\<lambda>(field, tag). takeWhile (\<lambda>c. c \<noteq> CHR '','') tag) env_tags"
    by (simp add: env_tags_def envTagOf_def)
  moreover have "envTagOf field = field" if "field \<notin> fst ` set env_tags"
  proof -
    have "map_of env_tags field = None" using that by (simp add: map_of_eq_None_iff)
    then show ?thesis by (simp add: envTagOf_def)
  qed
  moreover have "case Load env_Parse environ of
      Inr cfg \<Rightarrow> env_Parse environ = Inr cfg
    | Inl e \<Rightarrow> \<exists>err k m. env_Parse environ = Inl err \<and> e = ConfigError k m
        \<and> (k = ''ENV'' \<or> as_VarIsNotSet err = Some k \<or> (\<exists>name. as_ParseError err = Some (name, m) \<and> k = envTagOf name))"
    by (cases "env_Parse environ") (auto simp: Load_def toConfigError_def split: option.splits)
  ultimately show ?thesis by blast
qed

text \<open>
  \<^verbatim>\<open>LOG_LEVEL\<close> is read without regard to case and surrounding spaces; anything else than the three other names means "warn", and
  the level is printed in lower case.
\<close>

theorem parseLevel_reads:
  assumes "list_all is_space l" and "list_all is_space r" and "s \<noteq> []" and "\<not> is_space (hd s)" and "\<not> is_space (last s)"
  shows "parseLevel (l @ s @ r) = (case find (\<lambda>lv. to_lower (level_String lv) = to_lower s) [LevelDebug, LevelInfo, LevelError] of
      Some lv \<Rightarrow> lv | None \<Rightarrow> LevelWarn)"
proof -
  have "to_lower ''DEBUG'' = ''debug''" "to_lower ''INFO'' = ''info''" "to_lower ''ERROR'' = ''error''" by code_simp+
  then show ?thesis
    using TrimSpace_pad [OF assms] by (simp add: parseLevel_def Let_def level_String_def eq_commute)
qed

theorem parseLevel_reads_witness: "parseLevel '' Debug '' = LevelDebug"
proof -
  have "to_lower ''Debug'' = ''debug''" "to_lower (level_String LevelDebug) = ''debug''" by code_simp+
  then show ?thesis
    using parseLevel_reads [of "'' ''" "'' ''" "''Debug''"] by (simp add: is_space_def)
qed

text \<open>
  What is logged: with an unset or unknown \<^verbatim>\<open>LOG_LEVEL\<close> exactly the warnings and errors appear; an error appears whatever the
  environment says; and a record that appears carries the level in lower case, the message and the module, then the chain id if
  \<^verbatim>\<open>CHAIN_ID\<close> is not blank.
\<close>

theorem log_record_exact:
  "(parseLevel (Getenv ''LOG_LEVEL'') = LevelWarn \<longrightarrow>
      (log_record (logger_New Getenv module) l msg = None \<longleftrightarrow> l = LevelDebug \<or> l = LevelInfo))
    \<and> (\<exists>rest. log_record (logger_New Getenv module) LevelError msg =
        Some ((''level'', StringValue ''error'') # (''msg'', StringValue msg) # (''module'', StringValue module) # rest)
      \<and> rest = (if TrimSpace (Getenv ''CHAIN_ID'') = [] then [] else [(''chainId'', StringValue (TrimSpace (Getenv ''CHAIN_ID'')))]))"
proof -
  have lvl: "handler_level (lg_handler (logger_New Getenv module)) = parseLevel (Getenv ''LOG_LEVEL'')"
    by (simp add: logger_New_def Let_def lg_With_def)
  have attrs: "lg_attrs (logger_New Getenv module) = (''module'', StringValue module) #
      (if TrimSpace (Getenv ''CHAIN_ID'') = [] then [] else [(''chainId'', StringValue (TrimSpace (Getenv ''CHAIN_ID'')))])"
    by (simp add: logger_New_def Let_def lg_With_def)
  have "to_lower (level_String LevelError) = ''error''" by code_simp
  moreover have "parseLevel v \<le> LevelError" for v
    by (cases "parseLevel v") (simp_all add: less_eq_slog_Level_def level_num_def)
  ultimately have "log_record (logger_New Getenv module) LevelError msg =
      Some ((''level'', StringValue ''error'') # (''msg'', StringValue msg) # lg_attrs (logger_New Getenv module))"
    by (simp add: log_record_def lvl attrs lowercaseLevel_def not_less)
  moreover have "log_record (logger_New Getenv module) l msg = None \<longleftrightarrow> l = LevelDebug \<or> l = LevelInfo"
    if "parseLevel (Getenv ''LOG_LEVEL'') = LevelWarn"
    using that by (cases l) (simp_all add: log_record_def lvl less_slog_Level_def level_num_def)
  ultimately show ?thesis by (simp add: attrs)
qed

end
