(* ===== verification/Notify.thy ===== *)
theory Notify
  imports Go_Errors
begin

text \<open>
  \<^verbatim>\<open>internal/notify/listener.go\<close>: the \<^verbatim>\<open>LISTEN\<close> worker that wakes the publisher. The connection pool and the clock are
  parameters on a world of type \<^typ>\<open>'w\<close>. The wake channel has room for one signal; the publisher may take it while the
  worker waits. Both loops may run for ever, which is \<^const>\<open>None\<close>.
\<close>

section \<open>State\<close>

record 'w ListenConn =
  Acquire_op :: "'w \<Rightarrow> goerror option \<times> 'w"
  Exec_Listen :: "string \<Rightarrow> 'w \<Rightarrow> goerror option \<times> 'w"
  WaitForNotification :: "'w \<Rightarrow> goerror option \<times> bool \<times> 'w" \<comment> \<open>whether the publisher took the signal meanwhile\<close>
  Release_op :: "'w \<Rightarrow> 'w"
  listen_ctx_Err :: "'w \<Rightarrow> goerror option"
  wait_backoff :: "int \<Rightarrow> 'w \<Rightarrow> bool \<times> 'w" \<comment> \<open>whether the context ended first\<close>

record 'w listen_state =
  lw :: 'w
  wake :: bool \<comment> \<open>the channel of capacity one is full\<close>
  NotifyReceived :: nat
  NotifyReconnects :: nat

definition initialBackoff :: int where "initialBackoff = 1000000000"
definition maxBackoff :: int where "maxBackoff = 30 * 1000000000"

definition next_backoff :: "int \<Rightarrow> int" where
  "next_backoff b = (if b < maxBackoff then (if b * 2 > maxBackoff then maxBackoff else b * 2) else b)"

section \<open>runOnce\<close>

partial_function (option) wait_loop :: "'w ListenConn \<Rightarrow> 'w listen_state \<Rightarrow> (goerror \<times> 'w listen_state) option" where
  "wait_loop C st =
    (case WaitForNotification C (lw st) of
       (Some e, taken, w) \<Rightarrow> Some (Wrap ''wait notification'' e, st\<lparr>lw := w, wake := wake st \<and> \<not> taken\<rparr>)
     | (None, taken, w) \<Rightarrow> wait_loop C (st\<lparr>lw := w, wake := True, NotifyReceived := Suc (NotifyReceived st)\<rparr>))"

definition runOnce :: "'w ListenConn \<Rightarrow> string \<Rightarrow> 'w listen_state \<Rightarrow> (goerror \<times> 'w listen_state) option" where
  "runOnce C channel st =
    (case Acquire_op C (lw st) of
       (Some e, w) \<Rightarrow> Some (Wrap ''acquire conn'' e, st\<lparr>lw := w\<rparr>)
     | (None, w) \<Rightarrow>
         (case Exec_Listen C (''LISTEN '' @ channel) w of
            (Some e, w') \<Rightarrow> Some (Wrap (''LISTEN '' @ channel) e, st\<lparr>lw := Release_op C w'\<rparr>)
          | (None, w') \<Rightarrow>
              (case wait_loop C (st\<lparr>lw := w'\<rparr>) of
                 None \<Rightarrow> None
               | Some (e, st') \<Rightarrow> Some (e, st'\<lparr>lw := Release_op C (lw st')\<rparr>))))"

section \<open>Run\<close>

partial_function (option) listen_loop :: "'w ListenConn \<Rightarrow> string \<Rightarrow> int \<Rightarrow> 'w listen_state
    \<Rightarrow> (goerror option \<times> 'w listen_state) option" where
  "listen_loop C channel backoff st =
    (case listen_ctx_Err C (lw st) of
       Some e \<Rightarrow> Some (Some e, st)
     | None \<Rightarrow>
         (case runOnce C channel st of
            None \<Rightarrow> None
          | Some (err, st1) \<Rightarrow>
              if listen_ctx_Err C (lw st1) \<noteq> None then Some (listen_ctx_Err C (lw st1), st1)
              else (case wait_backoff C backoff (lw st1) of
                 (ended, w) \<Rightarrow>
                   let st2 = st1\<lparr>lw := w, NotifyReconnects := Suc (NotifyReconnects st1)\<rparr>
                   in if ended then Some (listen_ctx_Err C w, st2) else listen_loop C channel (next_backoff backoff) st2)))"

definition Listener_Run :: "'w ListenConn \<Rightarrow> string \<Rightarrow> 'w listen_state \<Rightarrow> (goerror option \<times> 'w listen_state) option" where
  "Listener_Run C channel st = listen_loop C channel initialBackoff st"

section \<open>Lemmas\<close>

lemma wait_loop_ends:
  assumes "wait_loop C st = Some (e, st')"
  shows "\<exists>w e' taken. WaitForNotification C w = (Some e', taken, lw st')
    \<and> NotifyReceived st \<le> NotifyReceived st' \<and> NotifyReconnects st' = NotifyReconnects st
    \<and> (wake st' \<longleftrightarrow> (NotifyReceived st < NotifyReceived st' \<or> wake st) \<and> \<not> taken)"
  using assms
proof (induction C st "(e, st')" arbitrary: e st' rule: wait_loop.raw_induct [rotated, consumes 1, case_names step])
  case (step wl C st e st')
  obtain x taken w where x: "WaitForNotification C (lw st) = (x, taken, w)" by (metis prod_cases3)
  show ?case
  proof (cases x)
    case (Some err)
    with step(2) x have "st' = st\<lparr>lw := w, wake := wake st \<and> \<not> taken\<rparr>" by simp
    with x Some show ?thesis by (intro exI [of _ "lw st"] exI [of _ err] exI [of _ taken]) simp
  next
    case None
    with step(2) x have "wl C (st\<lparr>lw := w, wake := True, NotifyReceived := Suc (NotifyReceived st)\<rparr>) = Some (e, st')" by simp
    from step(1) [OF this] obtain w1 e1 t1 where "WaitForNotification C w1 = (Some e1, t1, lw st')"
        "Suc (NotifyReceived st) \<le> NotifyReceived st'" "NotifyReconnects st' = NotifyReconnects st" "wake st' \<longleftrightarrow> \<not> t1"
      by auto
    then show ?thesis by (intro exI [of _ w1] exI [of _ e1] exI [of _ t1]) auto
  qed
qed

lemma listen_loop_again:
  "listen_ctx_Err C (lw st) = None \<Longrightarrow> runOnce C channel st = Some (e, st1) \<Longrightarrow> listen_ctx_Err C (lw st1) = None \<Longrightarrow>
    wait_backoff C b (lw st1) = (False, w) \<Longrightarrow>
    listen_loop C channel b st = listen_loop C channel (next_backoff b) (st1\<lparr>lw := w, NotifyReconnects := Suc (NotifyReconnects st1)\<rparr>)"
  by (subst listen_loop.simps) simp

lemma listen_loop_ctx:
  "listen_ctx_Err C (lw st) = None \<Longrightarrow> runOnce C channel st = Some (e, st1) \<Longrightarrow> listen_ctx_Err C (lw st1) = Some ce \<Longrightarrow>
    listen_loop C channel b st = Some (Some ce, st1)"
  by (subst listen_loop.simps) simp

lemma listen_loop_result:
  assumes "listen_loop C channel b st = Some (r, st')"
  shows "r = listen_ctx_Err C (lw st')"
  using assms
proof (induction C channel b st "(r, st')" arbitrary: r st' rule: listen_loop.raw_induct [rotated, consumes 1, case_names step])
  case (step f C channel b st r st')
  show ?case
  proof (cases "listen_ctx_Err C (lw st)")
    case (Some e)
    with step(2) show ?thesis by auto
  next
    case None
    then obtain err st1 where s: "runOnce C channel st = Some (err, st1)" using step(2) by (auto split: option.splits)
    obtain ended w where w: "wait_backoff C b (lw st1) = (ended, w)" by fastforce
    show ?thesis
      using step None s w by (auto simp: Let_def split: if_splits)
  qed
qed

section \<open>Properties\<close>

text \<open>
  C38. A notification always leads to a wake-up: if at least one arrived while the connection was up, a signal is in the
  channel when the connection ends, unless the publisher has taken it since; the non-blocking send loses nothing.
\<close>

theorem notification_wakes:
  assumes "runOnce C channel st = Some (e, st')" and "NotifyReceived st < NotifyReceived st'"
  shows "\<exists>w e' taken w'. WaitForNotification C w = (Some e', taken, w') \<and> lw st' = Release_op C w' \<and> (wake st' \<longleftrightarrow> \<not> taken)"
proof -
  obtain w1 w2 where a: "Acquire_op C (lw st) = (None, w1)" "Exec_Listen C (''LISTEN '' @ channel) w1 = (None, w2)"
    using assms by (auto simp: runOnce_def split: prod.splits option.splits)
  then obtain st1 where s: "wait_loop C (st\<lparr>lw := w2\<rparr>) = Some (e, st1)" "st' = st1\<lparr>lw := Release_op C (lw st1)\<rparr>"
    using assms(1) by (auto simp: runOnce_def split: option.splits)
  from wait_loop_ends [OF s(1)] obtain w e' taken where
    "WaitForNotification C w = (Some e', taken, lw st1)" "wake st1 \<longleftrightarrow> (NotifyReceived st < NotifyReceived st1 \<or> wake st) \<and> \<not> taken" by auto
  with s(2) assms(2) show ?thesis by auto
qed

text \<open>A connection that delivers two notifications and breaks.\<close>

definition sample_conn :: "nat ListenConn" where
  "sample_conn = \<lparr>Acquire_op = (\<lambda>w. (None, w)), Exec_Listen = (\<lambda>c w. (None, w)),
     WaitForNotification = (\<lambda>w. if w < 2 then (None, False, Suc w) else (Some EOF, False, Suc w)), Release_op = (\<lambda>w. w),
     listen_ctx_Err = (\<lambda>w. if w < 5 then None else Some Canceled), wait_backoff = (\<lambda>b w. (False, w + 1))\<rparr>"

lemma sample_conn_sel:
  "Acquire_op sample_conn w = (None, w)" "Exec_Listen sample_conn c w = (None, w)" "Release_op sample_conn w = w"
  by (simp_all add: sample_conn_def)

definition sample_listen :: "nat listen_state" where
  "sample_listen = \<lparr>lw = 0, wake = False, NotifyReceived = 0, NotifyReconnects = 0\<rparr>"

lemma sample_wait:
  "wait_loop sample_conn (sample_listen\<lparr>lw := w, wake := x, NotifyReceived := n\<rparr>) =
    (if w < 2 then wait_loop sample_conn (sample_listen\<lparr>lw := Suc w, wake := True, NotifyReceived := Suc n\<rparr>)
     else Some (Wrap ''wait notification'' EOF, sample_listen\<lparr>lw := Suc w, wake := x, NotifyReceived := n\<rparr>))"
  by (subst wait_loop.simps) (simp add: sample_conn_def sample_listen_def)

lemma sample_once:
  "runOnce sample_conn ''deposits'' sample_listen =
    Some (Wrap ''wait notification'' EOF, sample_listen\<lparr>lw := 3, wake := True, NotifyReceived := 2\<rparr>)"
proof -
  have "wait_loop sample_conn sample_listen = wait_loop sample_conn (sample_listen\<lparr>lw := 0, wake := False, NotifyReceived := 0\<rparr>)"
    by (simp add: sample_listen_def)
  also have "\<dots> = Some (Wrap ''wait notification'' EOF, sample_listen\<lparr>lw := 3, wake := True, NotifyReceived := 2\<rparr>)"
    by (simp add: sample_wait numeral_3_eq_3 numeral_2_eq_2)
  finally show ?thesis
    by (simp add: runOnce_def) (simp add: sample_conn_def sample_listen_def)
qed

theorem notification_wakes_witness:
  "\<exists>w e' taken w'. WaitForNotification sample_conn w = (Some e', taken, w') \<and> Release_op sample_conn w' = 3
    \<and> (wake (sample_listen\<lparr>lw := 3, wake := True, NotifyReceived := 2\<rparr>) \<longleftrightarrow> \<not> taken)"
  using notification_wakes [OF sample_once] by (simp add: sample_listen_def)

text \<open>
  The listener gives up only with its context: whatever happened to its connections, when \<^verbatim>\<open>Run\<close> returns, it returns the
  error of the context at that moment.
\<close>

theorem Listener_Run_result:
  assumes "Listener_Run C channel st = Some (r, st')"
  shows "r = listen_ctx_Err C (lw st')"
  using listen_loop_result assms by (simp add: Listener_Run_def)

theorem Listener_Run_result_witness: "\<exists>st'. Listener_Run sample_conn ''deposits'' sample_listen = Some (Some Canceled, st')"
proof -
  let ?st2 = "\<lparr>lw = 4, wake = True, NotifyReceived = 2, NotifyReconnects = 1\<rparr> :: nat listen_state"
  let ?st3 = "\<lparr>lw = 5, wake = True, NotifyReceived = 2, NotifyReconnects = 1\<rparr> :: nat listen_state"
  have c: "listen_ctx_Err sample_conn w = (if w < 5 then None else Some Canceled)" "wait_backoff sample_conn d w = (False, w + 1)" for w d
    by (simp_all add: sample_conn_def)
  have "wait_loop sample_conn ?st2 = Some (Wrap ''wait notification'' EOF, ?st3)"
    by (subst wait_loop.simps) (simp add: sample_conn_def)
  then have again: "runOnce sample_conn ''deposits'' ?st2 = Some (Wrap ''wait notification'' EOF, ?st3)"
    by (simp add: runOnce_def sample_conn_sel)
  have "Listener_Run sample_conn ''deposits'' sample_listen = listen_loop sample_conn ''deposits'' (next_backoff initialBackoff) ?st2"
    unfolding Listener_Run_def by (subst listen_loop_again [OF _ sample_once]) (simp_all add: c sample_listen_def)
  also have "\<dots> = Some (Some Canceled, ?st3)"
    by (rule listen_loop_ctx [OF _ again]) (simp_all add: c)
  finally have run: "Listener_Run sample_conn ''deposits'' sample_listen = Some (Some Canceled, ?st3)" .
  show ?thesis using Listener_Run_result [OF run] run by (simp add: c)
qed

text \<open>
  The pause before the reconnect number \<open>k\<close> is \<open>2 ^ k\<close> seconds, and 30 seconds from the fifth on.
\<close>

theorem reconnect_backoff: "(next_backoff ^^ k) initialBackoff = min (2 ^ k * 1000000000) 30000000000"
proof (induction k)
  case (Suc k)
  show ?case
  proof (cases "k < 5")
    case True
    then have "k \<in> {0, 1, 2, 3, 4}" by auto
    with Suc show ?thesis by (auto simp: next_backoff_def maxBackoff_def)
  next
    case False
    then have "(2 :: int) ^ 5 \<le> 2 ^ k" by (intro power_increasing) auto
    with Suc show ?thesis by (simp add: next_backoff_def maxBackoff_def min_def)
  qed
qed (simp add: initialBackoff_def)

end
