(* ===== verification/Listener_Main.thy ===== *)
theory Listener_Main
  imports Supervisor Config_Repo Auditing Log_Scanner Trace_Scanner Loop Publisher Http_Server Settings Notify
begin

text \<open>
  \<^verbatim>\<open>cmd/listener/main.go\<close> and \<^verbatim>\<open>database/pool.go\<close>: how the parts are put together. Dialling an RPC endpoint is a parameter that
  yields the calls of a connection; the state of the network is of type \<^typ>\<open>'n\<close>.
\<close>

section \<open>Decoders and scanners of a chain\<close>

definition decodersForChain :: "eth_lib \<Rightarrow> string \<Rightarrow> Decryptor \<Rightarrow> Registry" where
  "decodersForChain lib chainType decryptor =
    (if chainType = ''eerc20'' then Register lib (NewEERC (Some decryptor)) NewRegistry
     else Register lib StandardERC20 NewRegistry)"

record 'n Dialed =
  d_client :: "'n ETHClient"
  d_trace :: "string \<Rightarrow> 'n \<Rightarrow> (goerror + json option) \<times> 'n"
  d_close :: "'n \<Rightarrow> 'n"

record 'n wiring =
  w_lib :: eth_lib
  w_dial :: "string \<Rightarrow> 'n \<Rightarrow> (goerror + 'n Dialed) \<times> 'n"
  w_completion :: "nativeCandidate list \<Rightarrow> nativeCandidate list"
  w_now :: "'n tworld \<Rightarrow> nat \<Rightarrow> gotime"
  w_kcpID :: int
  w_hasKcp :: bool
  w_retryOpts :: Options
  w_decryptor :: Decryptor
  w_cfg :: Config

definition NewLogScanner :: "'n wiring \<Rightarrow> 'n Dialed \<Rightarrow> ChainConfig \<Rightarrow> 'n LogScanner" where
  "NewLogScanner W d chainCfg = \<lparr>ls_lib = w_lib W, ls_client = d_client d, ls_chain = chainCfg, ls_kcpChainID = w_kcpID W, ls_hasKcp = w_hasKcp W,
     ls_retryOpt = w_retryOpts W, ls_decoders = Some (decodersForChain (w_lib W) (cc_ChainType chainCfg) (w_decryptor W)),
     completion = w_completion W\<rparr>"

definition NewTraceScanner :: "'n wiring \<Rightarrow> 'n Dialed \<Rightarrow> ChainConfig \<Rightarrow> 'n TraceScanner" where
  "NewTraceScanner W d chainCfg = \<lparr>ts_lib = w_lib W, ts_client = d_client d, ts_trace = d_trace d, ts_chain = chainCfg, ts_retryOpt = w_retryOpts W\<rparr>"

text \<open>A new trace scanner starts with an empty cache and tracing on.\<close>

definition fresh_scanners :: "'n tworld \<Rightarrow> 'n tworld" where
  "fresh_scanners w = w\<lparr>codeCache := [], traceUnsupported := False\<rparr>"

section \<open>newAuditBuilder\<close>

definition newAuditBuilder :: "'n wiring \<Rightarrow> ChainConfig \<Rightarrow> 'n tworld
    \<Rightarrow> (goerror + 'n tworld Scanner \<times> 'n tworld Scanner \<times> ('n tworld \<Rightarrow> 'n tworld)) \<times> 'n tworld" where
  "newAuditBuilder W chainCfg w =
    (case w_dial W (cc_RPCURL chainCfg) (eth_node w) of
       (Inl e, n) \<Rightarrow> (Inl (Wrap (''dial audit RPC '' @ cc_RPCURL chainCfg) e), w\<lparr>eth_node := n\<rparr>)
     | (Inr d, n) \<Rightarrow>
         (Inr (log_scanner (NewLogScanner W d chainCfg), trace_scanner (NewTraceScanner W d chainCfg),
               \<lambda>w. w\<lparr>eth_node := d_close d (eth_node w)\<rparr>), fresh_scanners (w\<lparr>eth_node := n\<rparr>)))"

section \<open>newLoopBuilder\<close>

definition loopCfgFor :: "'n wiring \<Rightarrow> ChainConfig \<Rightarrow> LoopConfig" where
  "loopCfgFor W chainCfg = \<lparr>MinConfirmations = cc_MinConfirmations chainCfg, MaxBlocksPerPoll = cfg_MaxBlocksPerPoll (w_cfg W),
     BlockDelayMs = cfg_BlockDelayMs (w_cfg W), PollingIntervalMs = cc_PollingIntervalMs chainCfg, RetryOptions = w_retryOpts W\<rparr>"

definition NewLoop :: "'n wiring \<Rightarrow> 'n Dialed \<Rightarrow> ChainConfig \<Rightarrow> 'n tworld Scanner \<Rightarrow> 'n tworld Loop" where
  "NewLoop W d chainCfg sc = \<lparr>loop_chainID = chain_id chainCfg,
     BlockNumber = (\<lambda>w. case cl_BlockNumber (d_client d) (eth_node w) of (r, n) \<Rightarrow> (r, w\<lparr>eth_node := n\<rparr>)), strategy = sc,
     loop_cfg = loopCfgFor W chainCfg,
     wait_op = (\<lambda>w t. case ctx_wait (d_client d) (eth_node w) t of (e, n) \<Rightarrow> (e, w\<lparr>eth_node := n\<rparr>)), now_op = w_now W\<rparr>"

definition newLoopBuilder :: "'n wiring \<Rightarrow> ChainConfig \<Rightarrow> 'n \<Rightarrow> (goerror + 'n Dialed \<times> 'n tworld Loop \<times> 'n tworld Loop) \<times> 'n" where
  "newLoopBuilder W chainCfg n =
    (case w_dial W (cc_RPCURL chainCfg) n of
       (Inl e, n') \<Rightarrow> (Inl (Wrap (''dial RPC '' @ cc_RPCURL chainCfg) e), n')
     | (Inr d, n') \<Rightarrow>
         (Inr (d, NewLoop W d chainCfg (log_scanner (NewLogScanner W d chainCfg)),
                  NewLoop W d chainCfg (trace_scanner (NewTraceScanner W d chainCfg))), n'))"

text \<open>The connection both loops share: each wrapped run counts down when it returns, the last one closes, once.\<close>

record 'n shared_conn =
  sc_active :: int
  sc_closed :: bool
  sc_net :: 'n

definition open_conn :: "'n \<Rightarrow> 'n shared_conn" where
  "open_conn n = \<lparr>sc_active = 2, sc_closed = False, sc_net = n\<rparr>"

definition wrap_returns :: "'n Dialed \<Rightarrow> 'n shared_conn \<Rightarrow> 'n shared_conn" where
  "wrap_returns d c =
    (let c' = c\<lparr>sc_active := sc_active c - 1\<rparr> in
     if sc_active c' = 0 \<and> \<not> sc_closed c' then c'\<lparr>sc_closed := True, sc_net := d_close d (sc_net c')\<rparr> else c')"

section \<open>readyMarkingSource\<close>

record 'c ready_state =
  rs_src :: 'c
  rs_once :: bool
  rs_srv :: Server

definition readyMarkingSource :: "'c ChainSource \<Rightarrow> 'c ready_state ChainSource" where
  "readyMarkingSource Src =
    \<lparr>ActiveChains_op = (\<lambda>s. case ActiveChains_op Src (rs_src s) of
        (Inl e, c) \<Rightarrow> (Inl e, s\<lparr>rs_src := c\<rparr>)
      | (Inr infos, c) \<Rightarrow> (Inr infos,
          if rs_once s then s\<lparr>rs_src := c\<rparr> else s\<lparr>rs_src := c, rs_once := True, rs_srv := MarkReady (rs_srv s)\<rparr>)),
     ChainConfig_op = (\<lambda>k s. case ChainConfig_op Src k (rs_src s) of (r, c) \<Rightarrow> (r, s\<lparr>rs_src := c\<rparr>))\<rparr>"

text \<open>A source next to the network that the builder dials on.\<close>

definition beside :: "'c ChainSource \<Rightarrow> ('c \<times> 'n) ChainSource" where
  "beside Src = \<lparr>ActiveChains_op = (\<lambda>(c, n). case ActiveChains_op Src c of (r, c') \<Rightarrow> (r, (c', n))),
     ChainConfig_op = (\<lambda>k (c, n). case ChainConfig_op Src k c of (r, c') \<Rightarrow> (r, (c', n)))\<rparr>"

text \<open>\<open>ends\<close> says how the run of a loop ends once its context is cancelled; \<open>ord\<close> is the order of the map range.\<close>

definition main_supervisor :: "'n wiring \<Rightarrow> hash_lib \<Rightarrow> ('n tworld Loop \<Rightarrow> loop_exit option) \<Rightarrow> ((i64 \<times> string) list \<Rightarrow> (i64 \<times> string) list)
    \<Rightarrow> (cfg_pool ready_state \<times> 'n) Supervisor" where
  "main_supervisor W H ends ord =
    \<lparr>sup_source = beside (readyMarkingSource (config_repo H)),
     sup_builder = (\<lambda>chainCfg (s, n). case newLoopBuilder W chainCfg n of
        (Inl e, n') \<Rightarrow> (Inl e, (s, n'))
      | (Inr (d, l, t), n') \<Rightarrow> (Inr (\<lparr>on_cancel = ends l\<rparr>, \<lparr>on_cancel = ends t\<rparr>), (s, n'))),
     map_order = ord, sup_PollIntervalMs = ManagerPollIntervalMs (w_cfg W)\<rparr>"

section \<open>run: setting up\<close>

definition bufferPollIntervalMs :: int where "bufferPollIntervalMs = 500"
definition bufferMaxBatchSize :: int where "bufferMaxBatchSize = 100"

definition NewPool :: "(string \<Rightarrow> goerror + 'p) \<Rightarrow> ('p \<Rightarrow> goerror option) \<Rightarrow> string \<Rightarrow> goerror + 'p" where
  "NewPool pgx_New pgx_Ping dsn =
    (case pgx_New dsn of
       Inl e \<Rightarrow> Inl (Wrap ''pgxpool.New'' e)
     | Inr p \<Rightarrow> (case pgx_Ping p of Some e \<Rightarrow> Inl (Wrap ''pgxpool.Ping'' e) | None \<Rightarrow> Inr p))"

text \<open>The no-op decryptor, or the one of the configured key.\<close>

definition choose_decryptor :: "Config \<Rightarrow> goerror + Decryptor" where
  "choose_decryptor cfg =
    (if EERCAuditorPrivateKey cfg \<noteq> ''''
     then (case NewEnvDecryptor (EERCAuditorPrivateKey cfg) of
             Inl e \<Rightarrow> Inl (Wrap ''eERC decryptor'' e)
           | Inr None \<Rightarrow> Inr NoopDecryptor
           | Inr (Some d) \<Rightarrow> Inr (Env d))
     else Inr NoopDecryptor)"

text \<open>Durations are nanoseconds, multiplied as 64-bit integers.\<close>

definition retry_options :: "Config \<Rightarrow> Options" where
  "retry_options cfg = \<lparr>MaxRetries = RPCMaxRetries cfg, BaseDelay = wrap64 (RPCRetryBaseDelayMs cfg * Millisecond)\<rparr>"

definition publisher_config :: "Config \<Rightarrow> PubConfig" where
  "publisher_config cfg = \<lparr>URL = WSTarget cfg, ReconnectIntervalMs = cfg_ReconnectIntervalMs cfg, DrainTimeoutMs = cfg_DrainTimeoutMs cfg,
     PollIntervalMs = bufferPollIntervalMs, MaxBatchSize = bufferMaxBatchSize, WriteTimeout = 0, ReadTimeout = 0, PingInterval = 0,
     RequireACK = PublisherRequireACK cfg, ACKTimeout = wrap64 (PublisherACKTimeoutMs cfg * Millisecond), MaxInFlight = PublisherMaxInFlight cfg\<rparr>"

definition audit_config :: "Config \<Rightarrow> AuditConfig" where
  "audit_config cfg = audit_New_cfg \<lparr>IntervalSeconds = AuditIntervalS cfg, WindowBlocks = to_u64 (AuditWindowBlocks cfg),
     SafetyMargin = to_u64 (AuditSafetyMargin cfg), SamplesPerCycle = AuditSamplesPerCycle cfg, BlockRescanConfs = 0, FirstCycleDelay = 0\<rparr>"

record prepared =
  st_cfg :: Config
  st_kcp :: "i64 \<times> bool"
  st_retry :: Options
  st_decryptor :: Decryptor
  st_publisher :: PubConfig
  st_audit :: "AuditConfig option" \<comment> \<open>\<^const>\<open>None\<close> when the audit is switched off\<close>

definition run_setup :: "('e \<Rightarrow> env_error + Config) \<Rightarrow> (string \<Rightarrow> goerror + cfg_pool) \<Rightarrow> (cfg_pool \<Rightarrow> goerror option) \<Rightarrow> 'e \<Rightarrow> goerror + prepared" where
  "run_setup env_Parse pgx_New pgx_Ping environ =
    (case Load env_Parse environ of
       Inl e \<Rightarrow> Inl e
     | Inr cfg \<Rightarrow>
    (case NewPool pgx_New pgx_Ping (DatabaseURL cfg) of
       Inl e \<Rightarrow> Inl (Wrap ''connect Postgres'' e)
     | Inr p \<Rightarrow>
    (case KcpChainID p of
       (Inl e, p') \<Rightarrow> Inl (Wrap ''read KCP chain ID'' e)
     | (Inr kcp, p') \<Rightarrow>
    (case choose_decryptor cfg of
       Inl e \<Rightarrow> Inl e
     | Inr dec \<Rightarrow>
         Inr \<lparr>st_cfg = cfg, st_kcp = kcp, st_retry = retry_options cfg, st_decryptor = dec,
           st_publisher = New_config (publisher_config cfg),
           st_audit = (if AuditEnabled cfg then Some (audit_config cfg) else None)\<rparr>))))"

section \<open>run: the group, and main\<close>

text \<open>\<^verbatim>\<open>errgroup.Wait\<close>: the first error in the order in which the components returned.\<close>

fun group_Wait :: "goerror option list \<Rightarrow> goerror option" where
  "group_Wait [] = None"
| "group_Wait (Some e # rs) = Some e"
| "group_Wait (None # rs) = group_Wait rs"

definition run_result :: "goerror option list \<Rightarrow> goerror option" where
  "run_result returns =
    (case group_Wait returns of
       Some e \<Rightarrow> if errors_Is e Canceled then None else Some e
     | None \<Rightarrow> None)"

datatype exit_log = ConfigFailure string string | ListenerFailure goerror | ShutdownComplete

definition main_exit :: "goerror option \<Rightarrow> nat \<times> exit_log" where
  "main_exit err =
    (case err of
       Some e \<Rightarrow>
         if errors_Is e Canceled then (0, ShutdownComplete)
         else (case errors_As as_config e of
            Some (k, m) \<Rightarrow> (1, ConfigFailure k m)
          | None \<Rightarrow> (1, ListenerFailure e))
     | None \<Rightarrow> (0, ShutdownComplete))"

section \<open>runBufferMonitor\<close>

record monitor_state =
  mon_pool :: pool
  BufferPendingTotal :: int
  BufferOldestAgeSeconds :: int

definition monitor_interval :: "int \<Rightarrow> int" where
  "monitor_interval intervalSec = (if intervalSec \<le> 0 then 15 else intervalSec)"

definition monitor_update :: "monitor_state \<Rightarrow> monitor_state" where
  "monitor_update st =
    (case Stats_query (mon_pool st) of
       (Inl e, p) \<Rightarrow> st\<lparr>mon_pool := p\<rparr>
     | (Inr s, p) \<Rightarrow> st\<lparr>mon_pool := p, BufferPendingTotal := PendingCount s, BufferOldestAgeSeconds := OldestAgeSeconds s\<rparr>)"

text \<open>
  The ticks up to the end of the context, each with what happened to the database since the last one; \<^const>\<open>None\<close> is the panic of
  the ticker, for an interval whose nanoseconds overflow.
\<close>

definition runBufferMonitor :: "int \<Rightarrow> (pool \<Rightarrow> pool) list \<Rightarrow> goerror \<Rightarrow> monitor_state \<Rightarrow> (goerror \<times> monitor_state) option" where
  "runBufferMonitor intervalSec ticks ctxErr st =
    (if ticker_ok (wrap64 (monitor_interval intervalSec * Second))
     then Some (ctxErr, fold (\<lambda>f st. monitor_update (st\<lparr>mon_pool := f (mon_pool st)\<rparr>)) ticks (monitor_update st))
     else None)"

section \<open>The sources keep their contract\<close>

context chain_source
begin

lemma ready_marking_source:
  "chain_source (readyMarkingSource Src) (\<lambda>s. chains (rs_src s)) (\<lambda>s. inv (rs_src s))"
proof
  fix s s' :: "'c ready_state" and r infos k q cfg
  assume i: "inv (rs_src s)"
  then show "distinct (map fst (chains (rs_src s)))" by (rule chains_distinct)
  show "inv (rs_src s') \<and> chains (rs_src s') = chains (rs_src s)" if "ActiveChains_op (readyMarkingSource Src) s = (r, s')"
    using that active_frame [OF i] by (auto simp: readyMarkingSource_def split: prod.splits sum.splits if_splits)
  show "map (\<lambda>i. (info_ChainID i, TokenConfigHash i)) infos = chains (rs_src s)"
    if "ActiveChains_op (readyMarkingSource Src) s = (Inr infos, s')"
    using that active_result [OF i] by (auto simp: readyMarkingSource_def split: prod.splits sum.splits)
  show "inv (rs_src s') \<and> chains (rs_src s') = chains (rs_src s)" if "ChainConfig_op (readyMarkingSource Src) k s = (q, s')"
    using that config_frame [OF i] by (auto simp: readyMarkingSource_def split: prod.splits)
  show "cc_ChainID cfg = k \<and> k \<in> fst ` set (chains (rs_src s))" if "ChainConfig_op (readyMarkingSource Src) k s = (Inr cfg, s')"
    using that config_result [OF i] by (auto simp: readyMarkingSource_def split: prod.splits)
qed

lemma beside_source: "chain_source (beside Src :: ('c \<times> 'n) ChainSource) (\<lambda>s. chains (fst s)) (\<lambda>s. inv (fst s))"
proof
  fix s s' :: "'c \<times> 'n" and r infos k q cfg
  assume i: "inv (fst s)"
  then show "distinct (map fst (chains (fst s)))" by (rule chains_distinct)
  show "inv (fst s') \<and> chains (fst s') = chains (fst s)" if "ActiveChains_op (beside Src) s = (r, s')"
    using that active_frame [OF i] by (cases s) (auto simp: beside_def split: prod.splits)
  show "map (\<lambda>i. (info_ChainID i, TokenConfigHash i)) infos = chains (fst s)" if "ActiveChains_op (beside Src) s = (Inr infos, s')"
    using that active_result [OF i] by (cases s) (auto simp: beside_def split: prod.splits)
  show "inv (fst s') \<and> chains (fst s') = chains (fst s)" if "ChainConfig_op (beside Src) k s = (q, s')"
    using that config_frame [OF i] by (cases s) (auto simp: beside_def split: prod.splits)
  show "cc_ChainID cfg = k \<and> k \<in> fst ` set (chains (fst s))" if "ChainConfig_op (beside Src) k s = (Inr cfg, s')"
    using that config_result [OF i] by (cases s) (auto simp: beside_def split: prod.splits)
qed

end

interpretation ready_repo: chain_source "readyMarkingSource (config_repo H)"
  "\<lambda>s. map (\<lambda>c. (c_chain_id c, TokenConfigHash (info_of H (rs_src s) c))) (active_rows (rs_src s))" "\<lambda>s. cfg_inv (rs_src s)" for H
  by (rule chain_source.ready_marking_source [OF config_repo.chain_source_axioms])

interpretation main_source: chain_source "beside (readyMarkingSource (config_repo H))"
  "\<lambda>s. map (\<lambda>c. (c_chain_id c, TokenConfigHash (info_of H (rs_src (fst s)) c))) (active_rows (rs_src (fst s)))" "\<lambda>s. cfg_inv (rs_src (fst s))" for H
  by (rule chain_source.beside_source [OF ready_repo.chain_source_axioms])

interpretation main_sup: supervised "beside (readyMarkingSource (config_repo H))"
  "\<lambda>s. map (\<lambda>c. (c_chain_id c, TokenConfigHash (info_of H (rs_src (fst s)) c))) (active_rows (rs_src (fst s)))" "\<lambda>s. cfg_inv (rs_src (fst s))"
  "main_supervisor W H ends ord" for H W ends ord
  by unfold_locales (auto simp: main_supervisor_def split: prod.splits sum.splits)

section \<open>Lemmas\<close>

lemma MarkReady_ready [simp]: "srv_ready (MarkReady s)"
  by (simp add: MarkReady_def)

text \<open>The readiness flag moves only with a successful listing of the chains.\<close>

lemma main_config_flags:
  "rs_srv (fst (snd (ChainConfig_op (sup_source (main_supervisor W H ends ord)) k s))) = rs_srv (fst s)"
  by (cases s) (auto simp: main_supervisor_def beside_def readyMarkingSource_def split: prod.splits)

lemma main_builder_flags:
  "rs_srv (fst (snd (sup_builder (main_supervisor W H ends ord) cfg s))) = rs_srv (fst s)"
  by (cases s) (auto simp: main_supervisor_def split: prod.splits sum.splits)

lemma main_reconcile_ready:
  assumes "reconcile (main_supervisor W H ends ord) st = Some (e, st')" and "srv_ready (rs_srv (fst (src_st st))) = rs_once (fst (src_st st))"
  shows "srv_ready (rs_srv (fst (src_st st'))) \<longleftrightarrow> srv_ready (rs_srv (fst (src_st st))) \<or> e = None"
proof -
  let ?S = "main_supervisor W H ends ord"
  obtain s n where s: "src_st st = (s, n)" by (cases "src_st st")
  obtain x c where x: "ActiveChains (H :: hash_lib) (rs_src s) = (x, c)" by fastforce
  show ?thesis
  proof (cases x)
    case (Inl err)
    then have "ActiveChains_op (sup_source ?S) (src_st st) = (Inl err, (s\<lparr>rs_src := c\<rparr>, n))"
      using s x by (simp add: main_supervisor_def beside_def readyMarkingSource_def config_repo_def)
    then have "st' = st\<lparr>src_st := (s\<lparr>rs_src := c\<rparr>, n)\<rparr>" "e = Some (Wrap ''ActiveChains'' err)"
      using assms(1) by (auto simp: reconcile_def)
    then show ?thesis using s by simp
  next
    case (Inr infos)
    define s1 where "s1 = (if rs_once s then s\<lparr>rs_src := c\<rparr> else s\<lparr>rs_src := c, rs_once := True, rs_srv := MarkReady (rs_srv s)\<rparr>)"
    have "ActiveChains_op (sup_source ?S) (src_st st) = (Inr infos, (s1, n))"
      using s x Inr by (simp add: main_supervisor_def beside_def readyMarkingSource_def config_repo_def s1_def)
    then obtain st1 where r: "reconcile_chains ?S (map_order ?S (active_map infos)) (stop_inactive (active_map infos) (st\<lparr>src_st := (s1, n)\<rparr>)) = Some st1"
        "st' = st1\<lparr>sup_m := (sup_m st1)\<lparr>ChainsRunning := length (running st1)\<rparr>\<rparr>" "e = None"
      using assms(1) by (auto simp: reconcile_def split: Option.bind_splits)
    have "srv_ready (rs_srv s1)" using assms(2) s by (simp add: s1_def)
    then have "srv_ready (rs_srv (fst (src_st st1)))"
      by (intro reconcile_chains_source [OF r(1), where P = "\<lambda>z. srv_ready (rs_srv (fst z))"])
        (simp_all add: stop_inactive_def main_config_flags main_builder_flags)
    then show ?thesis using r(2,3) by simp
  qed
qed

section \<open>Properties\<close>


text \<open>The sample tables, a network that refuses to dial: the chain cannot start, the server is ready all the same.\<close>

definition down_wiring :: "unit wiring" where
  "down_wiring = \<lparr>w_lib = sample_lib, w_dial = (\<lambda>url n. (Inl ECONNREFUSED, n)), w_completion = (\<lambda>cs. cs), w_now = (\<lambda>w i. \<lparr>Unix = 0, Nanosecond = 0\<rparr>),
     w_kcpID = 0, w_hasKcp = False, w_retryOpts = \<lparr>MaxRetries = 5, BaseDelay = 1000\<rparr>, w_decryptor = NoopDecryptor, w_cfg = default_config ''dsn'' ''ws''\<rparr>"

definition idle_listener :: "(cfg_pool ready_state \<times> unit) sup_state" where
  "idle_listener = new_supervisor (\<lparr>rs_src = sample_tables ''u'' 12, rs_once = False, rs_srv = \<lparr>srv_ready = False\<rparr>\<rparr>, ())"

lemma idle_reconcile:
  "\<exists>st'. reconcile (main_supervisor down_wiring sample_hash (\<lambda>l. None) (\<lambda>xs. xs)) idle_listener = Some (None, st') \<and> handle st' 1 = None"
proof -
  have "c_chain_id (hd (chain_tbl (sample_tables ''u'' 12))) = 1" by (simp add: sample_tables_def)
  then show ?thesis
  by (simp add: reconcile_def idle_listener_def new_supervisor_def main_supervisor_def beside_def readyMarkingSource_def config_repo_def
      sample_active sample_config newLoopBuilder_def down_wiring_def active_map_def info_of_def stop_inactive_def reconcile_chain_def
      startChain_def handle_def)
qed


text \<open>
  The tickers of the publisher never panic: for every configuration, the intervals that \<^verbatim>\<open>New\<close> leaves are positive, a third of the
  ACK timeout included (a timeout that overflows is a multiple of 64 nanoseconds or replaced by the default).
\<close>

lemma wrap64_dvd: "64 dvd wrap64 (x * Millisecond)"
proof -
  have "take_bit 6 (wrap64 y) = take_bit 6 y" for y
    by (simp add: wrap64_def to_i64_def to_u64_def sint_sbintrunc' take_bit_signed_take_bit)
  moreover have "take_bit 6 (x * Millisecond) = 0"
    by (simp add: take_bit_eq_0_iff Millisecond_def)
  ultimately have "take_bit 6 (wrap64 (x * Millisecond)) = 0" by (simp only:)
  then show ?thesis by (simp add: take_bit_eq_0_iff)
qed

theorem publisher_tickers_run:
  "let cfg = New_config (publisher_config c) in
     ticker_ok (PingInterval cfg) \<and> ticker_ok (wrap64 (PollIntervalMs cfg * Millisecond)) \<and> ticker_ok (ACKTimeout cfg div 3)"
proof -
  have "3 \<le> ACKTimeout (New_config (publisher_config c))"
    using wrap64_dvd [of "PublisherACKTimeoutMs c"] zdvd_imp_le [of 64 "wrap64 (PublisherACKTimeoutMs c * Millisecond)"]
    by (auto simp: New_config_def publisher_config_def Let_def Second_def)
  then have "0 < ACKTimeout (New_config (publisher_config c)) div 3"
    by linarith
  then show ?thesis
    by (simp add: ticker_ok_def New_config_def publisher_config_def Let_def bufferPollIntervalMs_def Millisecond_def Second_def wrap64_id)
qed

text \<open>
  An interval of zero crashes the process: with \<^verbatim>\<open>AUDIT_INTERVAL_S=0\<close> and the audit enabled the auditor panics before its first
  cycle, and with \<^verbatim>\<open>MANAGER_POLL_INTERVAL_MS=0\<close> the supervisor panics after the initial reconcile, with the loops running.
\<close>

theorem zero_interval_panics:
  "(AuditIntervalS c = 0 \<longrightarrow> audit_Run (A\<lparr>au_cfg := audit_config c\<rparr>) es ast = None)
    \<and> (ManagerPollIntervalMs (w_cfg W) = 0 \<and> reconcile (main_supervisor W H ends ord) st = Some (e, st1) \<longrightarrow>
        Supervisor_Run (main_supervisor W H ends ord) evs st = Some (Sup_Panicked, st1))"
  by (auto simp: audit_Run_def audit_config_def audit_New_cfg_def Let_def Supervisor_Run_def ticker_ok_def wrap64_id main_supervisor_def)

end
