(* ===== verification/Ack_Flow.thy ===== *)
theory Ack_Flow
  imports Delivery Settings "HOL-Library.Sublist"
begin

text \<open>
  The goroutine that \<^verbatim>\<open>startReadLoop\<close> starts beside the drain loop of a connection, and how the two interact through the
  channel of ACKs: the reader puts ids on it without waiting, the drain loop takes them from its head. Also the two helpers
  around a connection attempt, \<^verbatim>\<open>dial\<close> and \<^verbatim>\<open>logReconnect\<close>.
\<close>

section \<open>The read loop\<close>

text \<open>
  The state of the goroutine: the ACK channel (\<^const>\<open>None\<close> is the nil channel of the fire-and-forget mode) with its capacity, and the
  error channel of capacity one, on which the goroutine puts its error before it returns; the events are what \<^verbatim>\<open>ReadMessage\<close>
  returns, and the drain loop taking an id, which is put on \<open>rl_taken\<close>.
\<close>

record read_loop =
  rl_cap :: int
  rl_ackCh :: "string list option"
  rl_errCh :: "goerror option"
  rl_taken :: "string list"

definition startReadLoop :: "int option \<Rightarrow> read_loop" where
  "startReadLoop cap = \<lparr>rl_cap = (case cap of None \<Rightarrow> 0 | Some n \<Rightarrow> n), rl_ackCh = map_option (\<lambda>n. []) cap, rl_errCh = None, rl_taken = []\<rparr>"

datatype read_event = Reads incoming | ReadFails goerror | AckTaken

definition read_event_step :: "read_event \<Rightarrow> read_loop \<Rightarrow> read_loop" where
  "read_event_step ev rl =
    (case ev of
       Reads m \<Rightarrow>
         (case (rl_errCh rl, rl_ackCh rl) of
            (None, Some ch) \<Rightarrow> rl\<lparr>rl_ackCh := Some (read_step (rl_cap rl) m ch)\<rparr>
          | _ \<Rightarrow> rl)
     | ReadFails e \<Rightarrow> (case rl_errCh rl of None \<Rightarrow> rl\<lparr>rl_errCh := Some e\<rparr> | Some _ \<Rightarrow> rl)
     | AckTaken \<Rightarrow>
         (case rl_ackCh rl of
            Some (mid # ch) \<Rightarrow> rl\<lparr>rl_ackCh := Some ch, rl_taken := rl_taken rl @ [mid]\<rparr>
          | _ \<Rightarrow> rl))"

definition run_read_loop :: "read_event list \<Rightarrow> read_loop \<Rightarrow> read_loop" where
  "run_read_loop evs rl = fold read_event_step evs rl"

text \<open>The ids of the ACKs that arrive, up to the error that ends the loop.\<close>

fun arriving :: "read_event list \<Rightarrow> string list" where
  "arriving [] = []"
| "arriving (Reads m # evs) = (case ack_of m of None \<Rightarrow> arriving evs | Some mid \<Rightarrow> mid # arriving evs)"
| "arriving (ReadFails e # evs) = []"
| "arriving (AckTaken # evs) = arriving evs"

definition through :: "read_loop \<Rightarrow> string list" where
  "through rl = rl_taken rl @ (case rl_ackCh rl of None \<Rightarrow> [] | Some ch \<Rightarrow> ch)"

section \<open>Reader and drain loop together\<close>

text \<open>
  One connection in ACK mode: the publisher and the channel. The Adapter acknowledges a message that is in flight and whose ACK is
  not on its way already; it may send anything else that is not an ACK; the drain loop takes the head of the channel or handles one of its
  other events. A turn of the drain loop is one step.
\<close>

inductive conn_step ::
  "'b Buffer \<Rightarrow> (frame \<Rightarrow> 'c \<Rightarrow> goerror option \<times> 'c) \<Rightarrow> PubConfig \<Rightarrow> ('b, 'c) pub \<times> string list \<Rightarrow> ('b, 'c) pub \<times> string list \<Rightarrow> bool"
  for B wr cfg where
  adapter_acks: "out_has mid (out p) \<Longrightarrow> mid \<notin> set ch \<Longrightarrow> ack_of m = Some mid \<Longrightarrow>
    conn_step B wr cfg (p, ch) (p, read_step (MaxInFlight cfg) m ch)"
| adapter_talks: "ack_of m = None \<Longrightarrow> conn_step B wr cfg (p, ch) (p, read_step (MaxInFlight cfg) m ch)"
| ack_taken: "drainACK_step B wr cfg now (AckIn mid) p = (None, p') \<Longrightarrow> conn_step B wr cfg (p, mid # ch) (p', ch)"
| other_event: "ev \<in> {Wake, PingTick, PollTick, TimeoutTick} \<Longrightarrow> drainACK_step B wr cfg now ev p = (None, p') \<Longrightarrow>
    conn_step B wr cfg (p, ch) (p', ch)"

inductive_cases conn_stepE: "conn_step B wr cfg (p, ch) s'"

text \<open>What is on the channel is in flight, once: there is room for every ACK that may still come.\<close>

definition flow_ok :: "('b, 'c) pub \<times> string list \<Rightarrow> bool" where
  "flow_ok s \<longleftrightarrow> distinct (snd s) \<and> set (snd s) \<subseteq> fst ` set (out (fst s))"

section \<open>Read deadline\<close>

text \<open>
  \<^verbatim>\<open>setupPongHandler\<close> sets the read deadline to \<^verbatim>\<open>ReadTimeout\<close> from now and again from every pong; other frames do not
  move it. A run over the frames that arrive, each with its time and whether it is a pong: \<^const>\<open>None\<close> when the deadline
  passes first, so that \<^verbatim>\<open>ReadMessage\<close> fails.
\<close>

definition setupPongHandler :: "PubConfig \<Rightarrow> int \<Rightarrow> int" where
  "setupPongHandler cfg now = now + ReadTimeout cfg"

fun read_frames :: "PubConfig \<Rightarrow> int \<Rightarrow> (int \<times> bool) list \<Rightarrow> int option" where
  "read_frames cfg deadline [] = Some deadline"
| "read_frames cfg deadline ((t, pong) # fs) =
    (if deadline < t then None else read_frames cfg (if pong then setupPongHandler cfg t else deadline) fs)"

section \<open>Dialling\<close>

text \<open>\<^verbatim>\<open>dial\<close> with the result of \<^verbatim>\<open>DialContext\<close>, and the record that \<^verbatim>\<open>logReconnect\<close> writes.\<close>

definition dial :: "PubConfig \<Rightarrow> goerror + 'c \<Rightarrow> goerror + 'c" where
  "dial cfg r = (case r of Inl e \<Rightarrow> Inl (Wrap (''dial '' @ URL cfg) e) | Inr c \<Rightarrow> Inr c)"

definition logReconnect :: "int \<Rightarrow> slog_Level \<times> string" where
  "logReconnect failures =
    (if failures \<ge> errorThreshold then (LevelError, ''WebSocket repeatedly failing, adapter may be down'')
     else (LevelWarn, ''WebSocket connect failed, scheduling reconnect''))"

text \<open>The records that \<^verbatim>\<open>Run\<close> writes about its connection attempts, in order.\<close>

fun dial_logs :: "'c round list \<Rightarrow> int \<Rightarrow> (slog_Level \<times> string) list" where
  "dial_logs [] n = []"
| "dial_logs (CtxOver e # rs) n = []"
| "dial_logs (DialFails e u interrupted # rs) n =
    logReconnect (n + 1) # (if interrupted = None then dial_logs rs (n + 1) else [])"
| "dial_logs (Connects c now evs ctx fevs # rs) n = dial_logs rs 0"

section \<open>Lemmas\<close>

lemma read_step_subseq: "subseq (read_step cap m ch) (ch @ (case ack_of m of None \<Rightarrow> [] | Some mid \<Rightarrow> [mid]))"
  by (auto simp: read_step_def split: option.split)

lemma ended_loop_through: "rl_errCh rl = Some e \<Longrightarrow> through (run_read_loop evs rl) = through rl"
proof (induction evs arbitrary: rl)
  case (Cons ev evs)
  have "rl_errCh (read_event_step ev rl) = Some e \<and> through (read_event_step ev rl) = through rl"
    using Cons.prems by (auto simp: read_event_step_def through_def split: read_event.split option.split list.split)
  then show ?case using Cons.IH by (simp add: run_read_loop_def)
qed (simp add: run_read_loop_def)

lemma read_event_through:
  assumes "rl_errCh rl = None"
  shows "rl_errCh (read_event_step (Reads m) rl) = None" "rl_errCh (read_event_step AckTaken rl) = None"
    "through (read_event_step AckTaken rl) = through rl"
    "subseq (through (read_event_step (Reads m) rl)) (through rl @ (case ack_of m of None \<Rightarrow> [] | Some mid \<Rightarrow> [mid]))"
  using assms read_step_subseq [of "rl_cap rl" m]
  by (auto simp: read_event_step_def through_def intro: list_emb_append_mono split: option.splits list.splits)

lemma run_read_subseq: "rl_errCh rl = None \<Longrightarrow> subseq (through (run_read_loop evs rl)) (through rl @ arriving evs)"
proof (induction evs arbitrary: rl)
  case Nil
  then show ?case by (simp add: run_read_loop_def)
next
  case (Cons ev evs)
  have rec: "run_read_loop (ev # evs) rl = run_read_loop evs (read_event_step ev rl)"
    by (simp add: run_read_loop_def)
  show ?case
  proof (cases ev)
    case (Reads m)
    have "subseq (through (run_read_loop (ev # evs) rl)) (through (read_event_step ev rl) @ arriving evs)"
      unfolding rec by (rule Cons.IH) (simp add: Reads read_event_through(1) Cons.prems)
    also have "subseq \<dots> ((through rl @ (case ack_of m of None \<Rightarrow> [] | Some mid \<Rightarrow> [mid])) @ arriving evs)"
      unfolding Reads by (intro list_emb_append_mono read_event_through(4) [OF Cons.prems]) simp
    finally show ?thesis by (simp add: Reads split: option.splits)
  next
    case (ReadFails e)
    then have "rl_errCh (read_event_step ev rl) = Some e" "through (read_event_step ev rl) = through rl"
      using Cons.prems by (simp_all add: read_event_step_def through_def)
    then show ?thesis unfolding rec by (simp add: ended_loop_through ReadFails)
  next
    case AckTaken
    then show ?thesis
      unfolding rec using Cons.IH [of "read_event_step ev rl"] by (simp add: read_event_through Cons.prems)
  qed
qed

lemma read_pongs:
  assumes "\<forall>k. start + int k * PingInterval cfg \<le> pong k \<and> pong k \<le> start + int k * PingInterval cfg + d"
    and "PingInterval cfg + d \<le> ReadTimeout cfg" and "start + int m * PingInterval cfg + ReadTimeout cfg \<le> dl"
  shows "read_frames cfg dl (map (\<lambda>k. (pong k, True)) [Suc m ..< Suc (m + n)]) \<noteq> None"
  using assms(3)
proof (induction n arbitrary: m dl)
  case (Suc n)
  have "pong (Suc m) \<le> start + int m * PingInterval cfg + PingInterval cfg + d"
    using assms(1) [rule_format, of "Suc m"] by (simp add: distrib_right)
  then have "pong (Suc m) \<le> dl" using Suc.prems assms(2) by linarith
  moreover have "start + int (Suc m) * PingInterval cfg + ReadTimeout cfg \<le> setupPongHandler cfg (pong (Suc m))"
    using assms(1) [rule_format, of "Suc m"] by (simp add: setupPongHandler_def)
  moreover have "[Suc m ..< Suc (m + Suc n)] = Suc m # [Suc (Suc m) ..< Suc (Suc m + n)]"
    by (simp add: upt_conv_Cons del: upt_Suc)
  ultimately show ?case
    using Suc.IH [of "Suc m" "setupPongHandler cfg (pong (Suc m))"] by (simp del: upt_Suc)
qed simp

lemma out_ids: "out_ok o1 \<Longrightarrow> fst ` set o1 = key_id ` out_keys o1"
  by (force simp: out_ok_def out_keys_def)

lemma handleAck_out: "handleAck B mid p = (r, p') \<Longrightarrow> fst ` set (out p') = fst ` set (out p) - {mid}"
  by (auto simp: handleAck_def out_take_def set_in_flight_def AList.delete_eq Let_def map_of_eq_None_iff
      split: prod.splits option.splits)

lemma flow_room:
  assumes "flow_ok (p, ch)" and "out_ok (out p)" and "out_has mid (out p)" and "mid \<notin> set ch"
  shows "int (length ch) < out_len (out p)"
proof -
  have "set (mid # ch) \<subseteq> fst ` set (out p)" using assms(1,3) by (auto simp: flow_ok_def out_has_fst)
  then have "card (set (mid # ch)) \<le> card (fst ` set (out p))" by (rule card_mono [rotated]) simp
  moreover have "card (set (mid # ch)) = Suc (length ch)"
    using assms(1,4) by (simp add: flow_ok_def distinct_card)
  moreover have "card (fst ` set (out p)) \<le> length (out p)" by (meson card_image_le card_length finite_set le_trans)
  ultimately show ?thesis by (simp add: out_len_def)
qed

context publisher_buffer
begin

lemma topUp_ids:
  assumes "topUp B wr cfg now st = (r, st')" and "inv (buf st)" and "window_ok cfg (rows (buf st)) (out st)"
  shows "fst ` set (out st) \<subseteq> fst ` set (out st')"
  using topUp_frame [OF assms] assms(3) by (auto simp: out_ids window_ok_def)

lemma ack_step_ids:
  assumes "drainACK_step B wr cfg now (AckIn mid) p = (None, p')" and "inv (buf p)" and "window_ok cfg (rows (buf p)) (out p)"
  shows "fst ` set (out p) - {mid} \<subseteq> fst ` set (out p')"
proof -
  obtain r p1 where h: "handleAck B mid p = (r, p1)" by fastforce
  then have "topUp B wr cfg now p1 = (None, p')" using assms(1) by (simp add: drainACK_step_def)
  from topUp_ids [OF this] handleAck_frame [OF h assms(2,3)] handleAck_out [OF h] show ?thesis by simp
qed

lemma other_step_ids:
  assumes "drainACK_step B wr cfg now ev p = (None, p')" and "inv (buf p)" and "window_ok cfg (rows (buf p)) (out p)"
    and "ev \<in> {Wake, PingTick, PollTick, TimeoutTick}"
  shows "fst ` set (out p) \<subseteq> fst ` set (out p')"
proof -
  consider "topUp B wr cfg now p = (None, p')" | "writePing wr p = (None, p')" | "p' = p"
    using assms(1,4) by (auto simp: drainACK_step_def split: if_splits)
  then show ?thesis
  proof cases
    case 1
    then show ?thesis by (rule topUp_ids [OF _ assms(2,3)])
  next
    case 2
    from writePing_frame [OF this] show ?thesis by simp
  qed simp
qed

lemma conn_step_ok:
  assumes "conn_step B wr cfg s s'" and "flow_ok s" and "inv (buf (fst s))" and "window_ok cfg (rows (buf (fst s))) (out (fst s))"
  shows "flow_ok s' \<and> inv (buf (fst s')) \<and> window_ok cfg (rows (buf (fst s'))) (out (fst s'))"
  using assms
proof (induction rule: conn_step.induct)
  case (adapter_acks mid p ch m)
  then show ?case by (auto simp: flow_ok_def read_step_def out_has_fst)
next
  case (adapter_talks m p ch)
  then show ?case by (simp add: read_step_def)
next
  case (ack_taken now mid p p' ch)
  then show ?case
    using ack_step_ids [OF ack_taken.hyps] drainACK_step_frame [OF ack_taken.hyps] by (auto simp: flow_ok_def)
next
  case (other_event ev now p p' ch)
  have "fst ` set (out p) \<subseteq> fst ` set (out p')"
    using other_step_ids [OF other_event.hyps(2)] other_event by simp
  then show ?case
    using drainACK_step_frame [OF other_event.hyps(2)] other_event.prems by (auto simp: flow_ok_def)
qed

lemma conn_reach_ok:
  assumes "(conn_step B wr cfg)\<^sup>*\<^sup>* s s'" and "flow_ok s" and "inv (buf (fst s))" and "window_ok cfg (rows (buf (fst s))) (out (fst s))"
  shows "flow_ok s' \<and> inv (buf (fst s')) \<and> window_ok cfg (rows (buf (fst s'))) (out (fst s'))"
  using assms by (induction rule: rtranclp_induct) (use conn_step_ok in blast)+

lemma ack_has_room:
  assumes "(conn_step B wr cfg)\<^sup>*\<^sup>* s (p, ch)" and "flow_ok s" and "inv (buf (fst s))" and "window_ok cfg (rows (buf (fst s))) (out (fst s))"
    and "out_has mid (out p)" and "mid \<notin> set ch" and "ack_of m = Some mid"
  shows "read_step (MaxInFlight cfg) m ch = ch @ [mid]"
  using conn_reach_ok [OF assms(1-4)] flow_room [OF _ _ assms(5,6)] assms(7)
  by (force simp: read_step_def window_ok_def)

end

lemma read_step_room: "int (length ch) < cap \<Longrightarrow> read_step cap m ch = ch @ (case ack_of m of None \<Rightarrow> [] | Some mid \<Rightarrow> [mid])"
  by (simp add: read_step_def split: option.split)

lemma run_read_all:
  "rl_ackCh rl = Some ch \<Longrightarrow> rl_errCh rl = None \<Longrightarrow> int (length ch + length (arriving evs)) \<le> rl_cap rl \<Longrightarrow>
    through (run_read_loop evs rl) = through rl @ arriving evs"
proof (induction evs arbitrary: rl ch)
  case Nil
  then show ?case by (simp add: run_read_loop_def)
next
  case (Cons ev evs)
  have rec: "run_read_loop (ev # evs) rl = run_read_loop evs (read_event_step ev rl)"
    by (simp add: run_read_loop_def)
  show ?case
  proof (cases ev)
    case (Reads m)
    show ?thesis
    proof (cases "ack_of m")
      case None
      then have "read_event_step ev rl = rl" using Cons.prems Reads by (simp add: read_event_step_def read_step_def)
      with Cons Reads None show ?thesis unfolding rec by simp
    next
      case (Some mid)
      then have "read_event_step ev rl = rl\<lparr>rl_ackCh := Some (ch @ [mid])\<rparr>"
        using Cons.prems Reads by (simp add: read_event_step_def read_step_room)
      with Cons.IH [of "rl\<lparr>rl_ackCh := Some (ch @ [mid])\<rparr>" "ch @ [mid]"] Cons.prems Reads Some
      show ?thesis unfolding rec by (simp add: through_def)
    qed
  next
    case (ReadFails e)
    then have "rl_errCh (read_event_step ev rl) = Some e" "through (read_event_step ev rl) = through rl"
      using Cons.prems by (simp_all add: read_event_step_def through_def)
    then show ?thesis unfolding rec by (simp add: ended_loop_through ReadFails)
  next
    case AckTaken
    show ?thesis
    proof (cases ch)
      case Nil
      then have "read_event_step ev rl = rl" using Cons.prems AckTaken by (simp add: read_event_step_def)
      with Cons AckTaken show ?thesis unfolding rec by simp
    next
      case (Cons mid ch1)
      then have "read_event_step ev rl = rl\<lparr>rl_ackCh := Some ch1, rl_taken := rl_taken rl @ [mid]\<rparr>"
        using Cons.prems AckTaken by (simp add: read_event_step_def)
      with Cons.IH [of "rl\<lparr>rl_ackCh := Some ch1, rl_taken := rl_taken rl @ [mid]\<rparr>" ch1] Cons.prems AckTaken Cons
      show ?thesis unfolding rec by (simp add: through_def)
    qed
  qed
qed

section \<open>Properties\<close>

text \<open>
  C21. No ACK is lost on its way to the drain loop. On a connection whose Adapter acknowledges each message in flight at most once, the
  channel, of capacity \<^verbatim>\<open>MaxInFlight\<close>, has room for every ACK that arrives, at any time and after any faults of the database and the
  socket: the branch of the read loop that drops an ACK is never taken.
\<close>

theorem no_ack_dropped:
  assumes "(conn_step buffer_repo wr cfg)\<^sup>*\<^sup>* (p0, []) (p, ch)" and "db_inv (store (buf p0))" and "out p0 = []"
    and "0 \<le> MaxInFlight cfg" and "out_has mid (out p)" and "mid \<notin> set ch" and "ack_of m = Some mid"
  shows "read_step (MaxInFlight cfg) m ch = ch @ [mid] \<and> int (length ch) < MaxInFlight cfg"
proof -
  have "flow_ok (p0, [])" "window_ok cfg (pending (store (buf p0))) (out p0)"
    using assms(3,4) by (simp_all add: flow_ok_def window_ok_def out_len_def)
  with publisher_buffer.ack_has_room [OF repo.publisher_buffer_axioms assms(1) _ _ _ assms(5-7)] assms(2)
  have "read_step (MaxInFlight cfg) m ch = ch @ [mid]" by simp
  with assms(7) show ?thesis by (auto simp: read_step_def split: if_splits)
qed

text \<open>The Adapter acknowledges the one stored deposit after the first wake-up.\<close>

definition sample_ack :: incoming where
  "sample_ack = InText (Some (JObj [(''type'', JStr ''ack''), (''id'', JStr ''1:0xab:-1'')]))"

lemma sample_ack_of: "ack_of sample_ack = Some ''1:0xab:-1''"
  by code_simp

lemma one_pending_woken:
  obtains p where "drainACK_step buffer_repo (\<lambda>f c. (None, c)) sample_cfg 0 Wake one_pending = (None, p)" "out_has ''1:0xab:-1'' (out p)"
proof -
  have w: "window_ok sample_cfg (pending (store (buf one_pending))) (out one_pending)"
    by (simp add: window_ok_def out_len_def)
  have key: "key_id (deposit_key sample_deposit) = ''1:0xab:-1''" by code_simp
  obtain p where p: "topUp buffer_repo (\<lambda>f c. (None, c)) sample_cfg 0 one_pending = (None, p)" "buf p = buf one_pending"
      "window_ok sample_cfg (pending (store (buf p))) (out p)"
      "out_keys (out p) = deposit_key ` set (take (batch_limit sample_cfg) (pending (store (buf p))))"
    using repo_topUp_fills [of one_pending "\<lambda>f c. (None, c)" sample_cfg 0] w by auto
  then have "out_keys (out p) = {deposit_key sample_deposit}" by (simp add: batch_limit_def)
  with p(3) key have "out_has ''1:0xab:-1'' (out p)" by (simp add: out_has_key window_ok_def)
  with p(1) that show thesis by (simp add: drainACK_step_def)
qed

theorem no_ack_dropped_witness:
  "\<exists>p. conn_step buffer_repo (\<lambda>f c. (None, c)) sample_cfg (one_pending, []) (p, []) \<and>
    read_step (MaxInFlight sample_cfg) sample_ack [] = [''1:0xab:-1'']"
proof -
  obtain p where p: "drainACK_step buffer_repo (\<lambda>f c. (None, c)) sample_cfg 0 Wake one_pending = (None, p)" "out_has ''1:0xab:-1'' (out p)"
    by (rule one_pending_woken)
  then have s: "conn_step buffer_repo (\<lambda>f c. (None, c)) sample_cfg (one_pending, []) (p, [])"
    by (intro conn_step.other_event) simp_all
  from no_ack_dropped [OF r_into_rtranclp, OF s _ _ _ p(2) _ sample_ack_of] have "read_step (MaxInFlight sample_cfg) sample_ack [] = [''1:0xab:-1'']"
    by simp
  with s show ?thesis by blast
qed

text \<open>
  The reader keeps the order and invents nothing: what the drain loop has taken, followed by what is on the channel, is a
  subsequence of the ids of the ACKs that arrived before the first read error; it is all of them when they fit the channel; and in the
  fire-and-forget mode, where the channel is nil, it is always empty.
\<close>

theorem read_loop_order:
  "subseq (through (run_read_loop evs (startReadLoop cap))) (arriving evs)
    \<and> (case cap of
         None \<Rightarrow> through (run_read_loop evs (startReadLoop cap)) = []
       | Some n \<Rightarrow> int (length (arriving evs)) \<le> n \<longrightarrow> through (run_read_loop evs (startReadLoop cap)) = arriving evs)"
proof -
  have "through (startReadLoop cap) = []" "rl_errCh (startReadLoop cap) = None"
    by (auto simp: startReadLoop_def through_def split: option.split)
  moreover have nil: "rl_ackCh rl = None \<Longrightarrow> rl_taken rl = [] \<Longrightarrow> through (run_read_loop evs rl) = []" for rl
  proof (induction evs arbitrary: rl)
    case (Cons ev evs)
    then have "rl_ackCh (read_event_step ev rl) = None" "rl_taken (read_event_step ev rl) = []"
      by (auto simp: read_event_step_def split: read_event.split option.split)
    with Cons.IH show ?case by (simp add: run_read_loop_def)
  qed (simp add: run_read_loop_def through_def)
  ultimately show ?thesis
    using run_read_subseq [of "startReadLoop cap" evs] run_read_all [of "startReadLoop cap" "[]" evs]
    by (auto simp: startReadLoop_def split: option.splits)
qed

theorem read_loop_order_witness:
  "through (run_read_loop [Reads sample_ack, Reads InOther, AckTaken, ReadFails EOF] (startReadLoop (Some 2))) = [''1:0xab:-1'']"
  using read_loop_order [of "[Reads sample_ack, Reads InOther, AckTaken, ReadFails EOF]" "Some 2"] by (simp add: sample_ack_of)

text \<open>
  Answered pings keep a connection: with the ping interval that \<^verbatim>\<open>New\<close> sets when none is configured, half the read timeout, the
  read deadline never passes as long as each ping is answered within half the read timeout.
\<close>

theorem answered_pings_keep_connection:
  assumes "PingInterval c \<le> 0" and "cfg = New_config c"
    and "\<forall>k. start + int k * PingInterval cfg \<le> pong k \<and> pong k \<le> start + int k * PingInterval cfg + ReadTimeout cfg div 2"
  shows "read_frames cfg (setupPongHandler cfg start) (map (\<lambda>k. (pong k, True)) [1 ..< Suc n]) \<noteq> None"
proof -
  have "PingInterval cfg = ReadTimeout cfg div 2" using assms(1) unfolding assms(2) New_config_def Let_def by simp
  then have "PingInterval cfg + ReadTimeout cfg div 2 \<le> ReadTimeout cfg" by linarith
  from read_pongs [OF assms(3) this, of 0 "setupPongHandler cfg start" n] show ?thesis by (simp add: setupPongHandler_def)
qed

theorem answered_pings_keep_connection_witness:
  "read_frames (New_config (sample_cfg\<lparr>PingInterval := 0\<rparr>)) (setupPongHandler (New_config (sample_cfg\<lparr>PingInterval := 0\<rparr>)) 5)
    (map (\<lambda>k. (5 + int k * PingInterval (New_config (sample_cfg\<lparr>PingInterval := 0\<rparr>)), True)) [1 ..< Suc 3]) \<noteq> None"
proof -
  let ?c = "New_config (sample_cfg\<lparr>PingInterval := 0\<rparr>)"
  have "0 < ReadTimeout ?c" unfolding New_config_def Let_def by (simp add: Second_def)
  then have "\<forall>k. 5 + int k * PingInterval ?c \<le> 5 + int k * PingInterval ?c \<and>
      5 + int k * PingInterval ?c \<le> 5 + int k * PingInterval ?c + ReadTimeout ?c div 2" by linarith
  from answered_pings_keep_connection [OF _ refl this, of 3] show ?thesis by (simp del: upt_Suc)
qed

text \<open>
  Consecutive failures: a row of dials that fail is logged as a warning up to the fourth and as an error from the fifth on, and a
  connection starts the count again.
\<close>

theorem fifth_failure_is_error:
  assumes "\<forall>x \<in> set fails. \<exists>e u. x = DialFails e u None" and "k < length fails"
  shows "map fst (dial_logs (Connects c now evs ctx fevs # fails) n) ! k = (if k < 4 then LevelWarn else LevelError)"
proof -
  have "dial_logs fails m = map (\<lambda>i. logReconnect (m + 1 + int i)) [0 ..< length fails]"
    if "\<forall>x \<in> set fails. \<exists>e u. x = DialFails e u None" for m and fails :: "'a round list"
    using that
  proof (induction fails arbitrary: m)
    case (Cons x fails)
    then obtain e u where "x = DialFails e u None" by auto
    with Cons show ?case by (simp add: map_upt_Suc ac_simps del: upt_Suc)
  qed simp
  with assms show ?thesis by (auto simp: logReconnect_def errorThreshold_def)
qed

theorem fifth_failure_is_error_witness:
  "map fst (dial_logs (Connects () 0 [] (\<lambda>i. None) [] # replicate 5 (DialFails EOF 0 None)) 3) ! 4 = LevelError"
  using fifth_failure_is_error [of "replicate 5 (DialFails EOF 0 None)" 4 "()" 0 "[]" "\<lambda>i. None" "[]" 3] by simp

end
