(* ===== verification/Wire_Log.thy ===== *)
theory Wire_Log
  imports Delivery Loop
begin

text \<open>
  What leaves the buffer went over the wire. The WebSocket library is an argument of the publisher; here it is only known to log what it
  has written: \<open>sent c\<close> are the frames written on the connection \<open>c\<close>, a write that succeeds adds its frame, and one that fails may have
  added anything.
\<close>

definition records_written :: "(frame \<Rightarrow> 'c \<Rightarrow> goerror option \<times> 'c) \<Rightarrow> ('c \<Rightarrow> frame list) \<Rightarrow> bool" where
  "records_written wr sent \<longleftrightarrow>
    (\<forall>f c e c'. wr f c = (e, c') \<longrightarrow> (e = None \<longrightarrow> f \<in> set (sent c')) \<and> set (sent c) \<subseteq> set (sent c'))"

definition message_of :: "Deposit \<Rightarrow> frame" where
  "message_of d = TextMessage (fst (encodeDeposit d))"

text \<open>A deposit with the key \<open>k\<close> went over the connection \<open>c\<close>.\<close>

definition went_out :: "('c \<Rightarrow> frame list) \<Rightarrow> 'c \<Rightarrow> dep_key \<Rightarrow> bool" where
  "went_out sent c k \<longleftrightarrow> (\<exists>d. deposit_key d = k \<and> TextMessage (fst (encodeDeposit d)) \<in> set (sent c))"

text \<open>Every row that is in flight has been written on this connection.\<close>

definition in_flight_sent :: "('c \<Rightarrow> frame list) \<Rightarrow> Deposit list \<Rightarrow> ('b, 'c) pub \<Rightarrow> bool" where
  "in_flight_sent sent rs st \<longleftrightarrow> (\<forall>d \<in> set rs. deposit_key d \<in> out_keys (out st) \<longrightarrow> message_of d \<in> set (sent (conn st)))"

section \<open>Lemmas\<close>

lemma written_grows: "records_written wr sent \<Longrightarrow> wr f c = (e, c') \<Longrightarrow> set (sent c) \<subseteq> set (sent c')"
  by (auto simp: records_written_def)

lemma topUp_loop_sent:
  assumes "records_written wr sent" and "distinct (map deposit_key rs)"
    and "topUp_loop wr now available ds st = (r, st')" and "set ds \<subseteq> set rs" and "out_ok (out st)" and "in_flight_sent sent rs st"
  shows "in_flight_sent sent rs st' \<and> set (sent (conn st)) \<subseteq> set (sent (conn st'))"
  using assms(3-6)
proof (induction ds arbitrary: available st)
  case Nil
  then show ?case by simp
next
  case (Cons d ds)
  have e: "encodeDeposit d = (fst (encodeDeposit d), key_id (deposit_key d))"
    by (metis encodeDeposit_id prod.collapse)
  consider "available \<le> 0" | "0 < available" "out_has (key_id (deposit_key d)) (out st)"
    | "0 < available" "\<not> out_has (key_id (deposit_key d)) (out st)" by linarith
  then show ?case
  proof cases
    case 1
    with Cons.prems show ?thesis by auto
  next
    case 2
    with Cons.prems(1) e have "topUp_loop wr now available ds st = (r, st')" by (simp split: prod.splits)
    from Cons.IH [OF this] Cons.prems show ?thesis by simp
  next
    case 3
    obtain w c' where w: "wr (message_of d) (conn st) = (w, c')" by fastforce
    note grow = written_grows [OF assms(1) w]
    define st1 where "st1 = st\<lparr>conn := c', out := out_add now (key_id (deposit_key d)) (ChainID d) (TxHash d) (LogIndex d) (out st)\<rparr>"
    have add: "out_ok (out st1)" "out_keys (out st1) = insert (deposit_key d) (out_keys (out st))" "conn st1 = c'"
      using out_add_ok [OF Cons.prems(3) 3(2), of "ChainID d" "TxHash d" "LogIndex d"] by (simp_all add: st1_def deposit_key_def)
    show ?thesis
    proof (cases w)
      case None
      then have "message_of d \<in> set (sent c')" using assms(1) w by (auto simp: records_written_def)
      moreover have "x = d" if "x \<in> set rs" "deposit_key x = deposit_key d" for x
        using assms(2) that Cons.prems(2) by (auto simp: distinct_map dest: inj_onD)
      ultimately have "in_flight_sent sent rs st1"
        using Cons.prems(4) grow add by (auto simp: in_flight_sent_def)
      moreover have "topUp_loop wr now (available - 1) ds st1 = (r, st')"
        using Cons.prems(1) 3 e w None by (simp add: st1_def message_of_def split: prod.splits)
      ultimately show ?thesis using Cons.IH [of "available - 1" st1] Cons.prems(2) add grow by auto
    next
      case (Some x)
      then have "conn st' = c'" "out st' = out st"
        using Cons.prems(1) 3 e w by (auto simp: message_of_def split: prod.splits)
      with Cons.prems(4) grow show ?thesis by (auto simp: in_flight_sent_def)
    qed
  qed
qed

text \<open>All rows of the start are still stored or were written on this connection, and so is what is in flight.\<close>

context publisher_buffer
begin

definition accounted :: "PubConfig \<Rightarrow> ('c \<Rightarrow> frame list) \<Rightarrow> Deposit list \<Rightarrow> ('b, 'c) pub \<Rightarrow> bool" where
  "accounted cfg sent rs0 st \<longleftrightarrow> inv (buf st) \<and> window_ok cfg (rows (buf st)) (out st) \<and> in_flight_sent sent (rows (buf st)) st
    \<and> (\<forall>d \<in> set rs0. d \<in> set (rows (buf st)) \<or> message_of d \<in> set (sent (conn st)))"

lemma topUp_accounted:
  assumes "records_written wr sent" and "topUp B wr cfg now st = (r, st')" and "accounted cfg sent rs0 st"
  shows "accounted cfg sent rs0 st'"
proof (cases "MaxInFlight cfg - out_len (out st) \<le> 0")
  case True
  with assms show ?thesis by (auto simp: topUp_def)
next
  case False
  have a: "inv (buf st)" "window_ok cfg (rows (buf st)) (out st)" "in_flight_sent sent (rows (buf st)) st"
    "\<forall>d \<in> set rs0. d \<in> set (rows (buf st)) \<or> message_of d \<in> set (sent (conn st))"
    using assms(3) by (simp_all add: accounted_def)
  define limit where "limit = (if MaxInFlight cfg > MaxBatchSize cfg then MaxBatchSize cfg else MaxInFlight cfg)"
  obtain q b' where q: "PendingAll_op B limit (buf st) = (q, b')" by fastforce
  note fr = topUp_frame [OF assms(2) a(1,2)]
  have "in_flight_sent sent (rows (buf st)) st' \<and> set (sent (conn st)) \<subseteq> set (sent (conn st'))"
  proof (cases q)
    case (Inl e)
    with assms(2) False q a(3) show ?thesis by (auto simp: topUp_def limit_def in_flight_sent_def)
  next
    case (Inr ds)
    then have ds: "ds = take (nat limit) (rows (buf st))"
      using pending_result a(1) q by blast
    obtain w st2 where l: "topUp_loop wr now (MaxInFlight cfg - out_len (out st)) ds (st\<lparr>buf := b'\<rparr>) = (w, st2)"
      by fastforce
    have "st' = st2 \<or> st' = set_in_flight st2"
      using assms(2) False q Inr l by (cases w) (auto simp: topUp_def limit_def)
    moreover have "in_flight_sent sent (rows (buf st)) st2 \<and> set (sent (conn st)) \<subseteq> set (sent (conn st2))"
      using topUp_loop_sent [OF assms(1) rows_distinct [OF a(1)] l] a(2,3)
      by (simp add: ds window_ok_def in_flight_sent_def set_take_subset)
    ultimately show ?thesis by (auto simp: in_flight_sent_def)
  qed
  with fr a show ?thesis unfolding accounted_def by (metis subsetD)
qed

lemma handleAck_accounted:
  assumes "handleAck B mid st = (r, st')" and "accounted cfg sent rs0 st"
  shows "accounted cfg sent rs0 st'"
proof -
  have a: "inv (buf st)" "window_ok cfg (rows (buf st)) (out st)" "in_flight_sent sent (rows (buf st)) st"
    "\<forall>d \<in> set rs0. d \<in> set (rows (buf st)) \<or> message_of d \<in> set (sent (conn st))"
    using assms(2) by (simp_all add: accounted_def)
  note fr = handleAck_frame [OF assms(1) a(1,2)]
  have "out_keys (out st') \<subseteq> out_keys (out st)
    \<and> (\<forall>d \<in> set (rows (buf st)). d \<in> set (rows (buf st')) \<or> deposit_key d \<in> out_keys (out st))"
  proof (cases "fst (out_take mid (out st))")
    case None
    with assms(1) show ?thesis by (auto simp: handleAck_def split: prod.splits)
  next
    case (Some m)
    then obtain o2 where t: "out_take mid (out st) = (Some m, o2)" by (cases "out_take mid (out st)") auto
    have "out_ok (out st)" using a(2) by (simp add: window_ok_def)
    note tk = out_take_Some [OF this t]
    obtain e b' where k: "Ack_op B (om_chainID m) (om_txHash m) (om_logIndex m) (buf st) = (e, b')" by fastforce
    then have "buf st' = b' \<and> out st' = o2" using assms(1) t by (cases e) (auto simp: handleAck_def)
    moreover have "(om_chainID m, om_txHash m, om_logIndex m) = om_key m" by (simp add: om_key_def)
    ultimately show ?thesis using tk(2,4) ack_keeps_others [OF a(1) k] by (metis Diff_subset)
  qed
  moreover have "set (rows (buf st')) \<subseteq> set (rows (buf st))" using fr removes_subset by blast
  ultimately show ?thesis
    using a fr unfolding accounted_def in_flight_sent_def by (metis subsetD)
qed

lemma gracefulACK_accounted:
  "accounted cfg sent rs0 st \<Longrightarrow> accounted cfg sent rs0 (gracefulACK_loop B dl turns st)"
proof (induction turns arbitrary: st)
  case (Cons x turns)
  obtain now a where x: "x = (now, a)" by fastforce
  have "accounted cfg sent rs0 (case a of Some mid \<Rightarrow> snd (handleAck B mid st) | None \<Rightarrow> st)"
    using Cons.prems handleAck_accounted [OF prod.collapse [symmetric]] by (cases a) auto
  with Cons x show ?case by simp
qed simp

lemma drain_step_accounted:
  assumes "records_written wr sent" and "drainACK_step B wr cfg now ev st = (r, st')" and "accounted cfg sent rs0 st"
  shows "accounted cfg sent rs0 st'"
proof (cases ev)
  case (CtxDone turns)
  with assms show ?thesis by (auto simp: drainACK_step_def gracefulACK_def intro: gracefulACK_accounted)
next
  case (AckIn mid)
  obtain r1 st1 where h: "handleAck B mid st = (r1, st1)" by fastforce
  with assms(2) AckIn have "topUp B wr cfg now st1 = (r, st')" by (simp add: drainACK_step_def)
  from topUp_accounted [OF assms(1) this] handleAck_accounted [OF h assms(3)] show ?thesis by blast
next
  case PingTick
  obtain e c' where w: "wr PingMessage (conn st) = (e, c')" by fastforce
  then have "st' = st\<lparr>conn := c'\<rparr>" using assms(2) PingTick by (cases e) (auto simp: drainACK_step_def writePing_def)
  with assms(3) written_grows [OF assms(1) w] show ?thesis by (auto simp: accounted_def in_flight_sent_def)
next
  case TimeoutTick
  then have "buf st' = buf st" "out st' = out st" "conn st' = conn st" using assms(2) by (auto simp: drainACK_step_def split: if_splits)
  with assms(3) show ?thesis by (simp add: accounted_def in_flight_sent_def)
qed (use assms topUp_accounted [OF assms(1), of cfg now st r st'] in \<open>auto simp: drainACK_step_def\<close>)

lemma run_events_accounted:
  assumes "records_written wr sent" and "run_events (\<lambda>(t, ev). drainACK_step B wr cfg t ev) evs st = (r, st')"
    and "accounted cfg sent rs0 st"
  shows "accounted cfg sent rs0 st'"
  using assms(2,3)
proof (induction evs arbitrary: st)
  case (Cons x evs)
  obtain t ev where x: "x = (t, ev)" by fastforce
  obtain r1 st1 where s: "drainACK_step B wr cfg t ev st = (r1, st1)" by fastforce
  with Cons drain_step_accounted [OF assms(1) s] x show ?case by (cases r1) auto
qed simp

lemma drain_accounted:
  assumes "records_written wr sent" and "drainWithACK B wr cfg now evs st = (r, st')" and "inv (buf st)" and "0 \<le> MaxInFlight cfg"
  shows "accounted cfg sent (rows (buf st)) st'"
proof -
  have "accounted cfg sent (rows (buf st)) (st\<lparr>out := []\<rparr>)"
    using assms(3,4) by (simp add: accounted_def window_ok_def out_len_def in_flight_sent_def)
  moreover obtain r1 st1 where t: "topUp B wr cfg now (st\<lparr>out := []\<rparr>) = (r1, st1)" by fastforce
  ultimately have "accounted cfg sent (rows (buf st)) st1" using topUp_accounted [OF assms(1)] by blast
  with assms(2) t run_events_accounted [OF assms(1)] show ?thesis by (cases r1) (auto simp: drainWithACK_def)
qed

end

section \<open>Lemmas: fire and forget\<close>

text \<open>All rows of the start are still stored or were written.\<close>

context publisher_buffer
begin

definition kept_or_sent :: "('c \<Rightarrow> frame list) \<Rightarrow> Deposit list \<Rightarrow> ('b, 'c) pub \<Rightarrow> bool" where
  "kept_or_sent sent rs0 st \<longleftrightarrow> inv (buf st)
    \<and> (\<forall>d \<in> set rs0. d \<in> set (rows (buf st)) \<or> TextMessage (marshal_deposit d) \<in> set (sent (conn st)))"

lemma kept_grows:
  "kept_or_sent sent rs0 st \<Longrightarrow> buf st' = buf st \<Longrightarrow> set (sent (conn st)) \<subseteq> set (sent (conn st')) \<Longrightarrow> kept_or_sent sent rs0 st'"
  by (auto simp: kept_or_sent_def)

lemma sendBatch_kept:
  assumes "records_written wr sent" and "distinct (map deposit_key R)"
  shows "sendBatch B wr ds st = (r, st') \<Longrightarrow> set ds \<subseteq> set R \<Longrightarrow> set (rows (buf st)) \<subseteq> set R \<Longrightarrow> kept_or_sent sent rs0 st \<Longrightarrow>
    kept_or_sent sent rs0 st'"
proof (induction ds arbitrary: st)
  case (Cons d ds)
  have inv: "inv (buf st)" using Cons.prems(4) by (simp add: kept_or_sent_def)
  obtain w c' where w: "wr (TextMessage (marshal_deposit d)) (conn st) = (w, c')" by fastforce
  note grow = written_grows [OF assms(1) w]
  show ?case
  proof (cases w)
    case (Some e)
    with Cons.prems(1) w have "buf st' = buf st" "conn st' = c'" by auto
    with Cons.prems(4) grow show ?thesis by (auto intro: kept_grows)
  next
    case None
    then have sent: "TextMessage (marshal_deposit d) \<in> set (sent c')" using assms(1) w by (auto simp: records_written_def)
    obtain e b' where a: "Ack_op B (ChainID d) (TxHash d) (LogIndex d) (buf st) = (e, b')" by fastforce
    obtain st1 where s1: "sendBatch B wr ds st1 = (r, st')" "buf st1 = b'" "conn st1 = c'"
      using Cons.prems(1) w None a by (cases e) auto
    have same: "x = d" if "x \<in> set (rows (buf st))" "deposit_key x = deposit_key d" for x
      using assms(2) that Cons.prems(2,3) by (auto simp: distinct_map dest: inj_onD)
    have "x \<in> set (rows b') \<or> TextMessage (marshal_deposit x) \<in> set (sent c')" if "x \<in> set rs0" for x
    proof (cases "x \<in> set (rows (buf st))")
      case True
      with same [OF True] sent ack_keeps_others [OF inv a True] show ?thesis by (auto simp: deposit_key_def)
    next
      case False
      with that Cons.prems(4) grow show ?thesis by (auto simp: kept_or_sent_def)
    qed
    then have "kept_or_sent sent rs0 st1" using s1 ack_inv [OF inv a] by (simp add: kept_or_sent_def)
    moreover have "set (rows (buf st1)) \<subseteq> set R" using ack_only_removes [OF inv a] Cons.prems(3) s1(2) by blast
    ultimately show ?thesis using Cons.IH [OF s1(1)] Cons.prems(2) by simp
  qed
qed simp

lemma flush_kept:
  assumes "flushUntilEmpty B' wr cfg ctx i st = Some (r, st')" and "B' = B" and "records_written wr sent" and "kept_or_sent sent rs0 st"
  shows "kept_or_sent sent rs0 st'"
  using assms
proof (induction B' wr cfg ctx i st "(r, st')" arbitrary: r st'
    rule: flushUntilEmpty.raw_induct [rotated, consumes 1, case_names step])
  case (step f B' wr cfg ctx i st r st')
  have inv: "inv (buf st)" using step.prems(3) by (simp add: kept_or_sent_def)
  obtain q b' where q: "PendingAll_op B (MaxBatchSize cfg) (buf st) = (q, b')" by fastforce
  note fr = pending_frame [OF inv q]
  have k1: "kept_or_sent sent rs0 (st\<lparr>buf := b'\<rparr>)" using step.prems(3) fr by (simp add: kept_or_sent_def)
  show ?case
  proof (cases "ctx i")
    case (Some e)
    with step.hyps(2) step.prems(3) show ?thesis by simp
  next
    case None
    show ?thesis
    proof (cases q)
      case (Inl e)
      with step.hyps(2) step.prems(1) None q k1 show ?thesis by simp
    next
      case (Inr ds)
      then have "ds = take (nat (MaxBatchSize cfg)) (rows (buf st))" using pending_result inv q by blast
      then have ds: "set ds \<subseteq> set (rows (buf st))" by (simp add: set_take_subset)
      obtain w st1 where b: "sendBatch B wr ds (st\<lparr>buf := b'\<rparr>) = (w, st1)" by fastforce
      have k2: "kept_or_sent sent rs0 st1"
        using sendBatch_kept [OF step.prems(2) rows_distinct [OF inv] b ds] fr k1 by simp
      show ?thesis
      proof (cases w)
        case (Some e)
        with step.hyps(2) step.prems(1) None q Inr b k1 k2 show ?thesis by (auto split: if_splits)
      next
        case w: None
        then have "ds = [] \<and> st' = st\<lparr>buf := b'\<rparr> \<or> st' = st1 \<or> f B' wr cfg ctx (Suc i) st1 = Some (r, st')"
          using step.hyps(2) step.prems(1) None q Inr b by (auto split: if_splits)
        then show ?thesis using k1 k2 step.hyps(1) [OF _ step.prems(1,2)] by blast
      qed
    qed
  qed
qed

lemma drainFaf_step_kept:
  assumes "drainFaf_step B wr cfg ev st = Some (r, st')" and "records_written wr sent" and "kept_or_sent sent rs0 st"
  shows "kept_or_sent sent rs0 st'"
proof (cases ev)
  case FafPing
  obtain e c' where w: "wr PingMessage (conn st) = (e, c')" by fastforce
  then have "buf st' = buf st" "conn st' = c'" using assms(1) FafPing by (cases e; auto simp: drainFaf_step_def writePing_def)+
  with kept_grows [OF assms(3)] written_grows [OF assms(2) w] show ?thesis by simp
next
  case (FafCtxDone dctx)
  then obtain r1 where "flushUntilEmpty B wr cfg dctx 0 st = Some (r1, st')"
    using assms(1) by (auto simp: drainFaf_step_def gracefulFireAndForget_def)
  from flush_kept [OF this refl assms(2,3)] show ?thesis .
qed (use assms flush_kept [OF _ refl assms(2,3)] in \<open>auto simp: drainFaf_step_def\<close>)

lemma drainFaf_kept:
  assumes "drainFireAndForget B wr cfg ctx evs st = Some (r, st')" and "records_written wr sent" and "inv (buf st)"
  shows "kept_or_sent sent (rows (buf st)) st'"
proof -
  have run: "run_faf B wr cfg evs s = Some (r, st') \<Longrightarrow> kept_or_sent sent rs0 s \<Longrightarrow> kept_or_sent sent rs0 st'" for s rs0
  proof (induction evs arbitrary: s)
    case (Cons ev evs)
    obtain x s1 where x: "drainFaf_step B wr cfg ev s = Some (x, s1)" using Cons.prems(1) by (auto split: option.splits)
    with Cons drainFaf_step_kept [OF x assms(2)] show ?case by (cases x) auto
  qed simp
  have "kept_or_sent sent (rows (buf st)) st" using assms(3) by (simp add: kept_or_sent_def)
  moreover obtain x s1 where x: "flushUntilEmpty B wr cfg ctx 0 st = Some (x, s1)"
    using assms(1) by (auto simp: drainFireAndForget_def split: option.splits)
  ultimately have "kept_or_sent sent (rows (buf st)) s1" using flush_kept [OF x refl assms(2)] by blast
  with assms(1) x run show ?thesis by (cases x) (auto simp: drainFireAndForget_def)
qed

end

lemmas repo_drain_accounted = publisher_buffer.drain_accounted [OF repo.publisher_buffer_axioms]
lemmas repo_faf_kept = publisher_buffer.drainFaf_kept [OF repo.publisher_buffer_axioms]

section \<open>Properties\<close>

text \<open>
  C16. A deposit leaves the buffer only after its own message went out, in both modes. Whatever happens on a connection (any events,
  any ids the Adapter sends, any faults of the database and the socket), a deposit that was stored is afterwards still stored, or
  the frame that carries exactly its fields (and in ACK mode its id) was written on this connection.
\<close>

theorem deleted_rows_were_sent:
  assumes "session buffer_repo wr cfg now evs ctx fevs st = Some (r, st')" and "records_written wr sent" and "db_inv (store (buf st))"
    and "0 < MaxInFlight cfg" and "d \<in> set (pending (store (buf st)))" and "d \<notin> set (pending (store (buf st')))"
  shows "TextMessage (if RequireACK cfg then fst (encodeDeposit d) else marshal_deposit d) \<in> set (sent (conn st'))"
proof (cases "RequireACK cfg")
  case True
  then have "drainWithACK buffer_repo wr cfg now evs st = (r, st')" using assms(1) by (simp add: session_def)
  from repo_drain_accounted [OF assms(2) this assms(3)] assms(4-6) True show ?thesis
    by (auto simp: publisher_buffer.accounted_def [OF repo.publisher_buffer_axioms] message_of_def)
next
  case False
  then have "drainFireAndForget buffer_repo wr cfg ctx fevs st = Some (r, st')" using assms(1) by (simp add: session_def)
  from repo_faf_kept [OF this assms(2,3)] assms(5,6) False show ?thesis
    by (auto simp: publisher_buffer.kept_or_sent_def [OF repo.publisher_buffer_axioms])
qed

text \<open>A connection that is the list of the frames written on it; the one stored deposit is sent and acknowledged.\<close>

definition list_write :: "frame \<Rightarrow> frame list \<Rightarrow> goerror option \<times> frame list" where
  "list_write f c = (None, c @ [f])"

lemma list_write_records: "records_written list_write (\<lambda>c. c)"
  by (auto simp: records_written_def list_write_def)

definition sample_acks :: "(int \<times> pub_event) list" where
  "sample_acks = [(0, AckIn (ackID (ChainID sample_deposit) (TxHash sample_deposit) (LogIndex sample_deposit)))]"

definition one_pending_log :: "(pool, frame list) pub" where
  "one_pending_log = \<lparr>buf = buf one_pending, conn = [], out = [], met = no_metrics\<rparr>"

theorem deleted_rows_were_sent_witness:
  "\<exists>p. session buffer_repo list_write sample_cfg 0 sample_acks (\<lambda>i. None) [] one_pending_log = Some (None, p)
    \<and> pending (store (buf p)) = [] \<and> TextMessage (fst (encodeDeposit sample_deposit)) \<in> set (conn p)"
proof -
  obtain p where p: "drainWithACK buffer_repo list_write sample_cfg 0 sample_acks one_pending_log = (None, p)" "pending (store (buf p)) = []"
    using repo_drains [of one_pending_log list_write sample_cfg 0] by (auto simp: one_pending_log_def list_write_def sample_acks_def)
  moreover have ack: "RequireACK sample_cfg" by (simp add: sample_cfg_def New_config_def)
  ultimately have s: "session buffer_repo list_write sample_cfg 0 sample_acks (\<lambda>i. None) [] one_pending_log = Some (None, p)"
    by (simp add: session_def)
  from deleted_rows_were_sent [OF s list_write_records, of sample_deposit] s p(2) ack show ?thesis by (simp add: one_pending_log_def)
qed

lemma repo_drains_sent:
  assumes "db_inv (store (buf st))" and "outcomes (buf st) = []" and "\<forall>f c. fst (wr f c) = None" and "records_written wr sent"
    and "0 < MaxInFlight cfg" and "0 < MaxBatchSize cfg"
  shows "\<exists>st'. drainWithACK buffer_repo wr cfg now
      (map (\<lambda>d. (now, AckIn (ackID (ChainID d) (TxHash d) (LogIndex d)))) (pending (store (buf st)))) st = (None, st')
    \<and> pending (store (buf st')) = [] \<and> (\<forall>d \<in> set (pending (store (buf st))). message_of d \<in> set (sent (conn st')))"
proof -
  from repo_drains [OF assms(1-3,5,6)] obtain st' where d: "drainWithACK buffer_repo wr cfg now
      (map (\<lambda>d. (now, AckIn (ackID (ChainID d) (TxHash d) (LogIndex d)))) (pending (store (buf st)))) st = (None, st')"
      "pending (store (buf st')) = []" by blast
  with repo_drain_accounted [OF assms(4) d(1) assms(1)] assms(5) show ?thesis
    by (simp add: publisher_buffer.accounted_def [OF repo.publisher_buffer_axioms])
qed

text \<open>
  C13. From the chain to the Adapter. When node, strategy, timers, database and socket answer and the stored cursor is behind the
  confirmed head, a poll and then a connection on which the Adapter acknowledges what is stored end with an empty buffer, and for
  every block from the cursor up to \<^verbatim>\<open>MaxBlocksPerPoll\<close> further or the confirmed head, each deposit that the strategy found in
  that block has gone over the wire under its key.
\<close>

theorem found_deposits_delivered:
  assumes "quiet L" and "outcomes (bpool st) = []" and "head_read L st = (Inr latest, s1)"
    and "latest \<noteq> - 1" and "confs L \<le> latest"
    and "loop_cursor L st \<noteq> 0" and "loop_cursor L st < latest - confs L"
    and "1 \<le> MaxBlocksPerPoll (loop_cfg L)" and "int (unat (loop_cursor L st)) + MaxBlocksPerPoll (loop_cfg L) < 2 ^ 63"
    and "typed_scanner (strategy L)" and "db_inv (store (bpool st))"
    and "\<forall>f c. fst (wr f c) = None" and "records_written wr sent" and "0 < MaxInFlight cfg" and "0 < MaxBatchSize cfg"
  shows "\<exists>st'. pollOnce L st = Some (Done None, st') \<and>
    int (unat (loop_cursor L st')) = min (int (unat (latest - confs L))) (int (unat (loop_cursor L st)) + MaxBlocksPerPoll (loop_cfg L)) \<and>
    (\<forall>p. buf p = bpool st' \<longrightarrow>
      (\<exists>p'. drainWithACK buffer_repo wr cfg now
          (map (\<lambda>d. (now, AckIn (ackID (ChainID d) (TxHash d) (LogIndex d)))) (pending (store (bpool st')))) p = (None, p')
        \<and> pending (store (buf p')) = []
        \<and> (\<forall>b. loop_cursor L st < b \<and> b \<le> loop_cursor L st' \<longrightarrow>
            (\<exists>ds. scan_result L latest b ds \<and>
              (\<forall>d \<in> set ds. went_out sent (conn p') (deposit_key d))))))"
proof -
  from pollOnce_quiet [OF assms(1-9)] obtain st' where st': "pollOnce L st = Some (Done None, st')" "outcomes (bpool st') = []"
      "cursor_advances L latest st st'"
      "int (unat (loop_cursor L st')) = min (int (unat (latest - confs L))) (int (unat (loop_cursor L st)) + MaxBlocksPerPoll (loop_cfg L))"
    by blast
  have inv: "db_inv (store (bpool st'))"
    using typed_scanner.pollOnce_steps [OF assms(10) st'(1) refl] assms(11) by (rule pool_steps_inv)
  then have keys: "deposit_key ` set (pending (store (bpool st'))) = buffer_keys (store (bpool st'))"
    by (metis buffer_keys_def pending_keys list.set_map)
  have "\<exists>p'. drainWithACK buffer_repo wr cfg now
        (map (\<lambda>d. (now, AckIn (ackID (ChainID d) (TxHash d) (LogIndex d)))) (pending (store (bpool st')))) p = (None, p')
      \<and> pending (store (buf p')) = []
      \<and> (\<forall>b. loop_cursor L st < b \<and> b \<le> loop_cursor L st' \<longrightarrow>
          (\<exists>ds. scan_result L latest b ds \<and>
            (\<forall>d \<in> set ds. went_out sent (conn p') (deposit_key d))))"
    if p: "buf p = bpool st'" for p
  proof -
    have "db_inv (store (buf p))" "outcomes (buf p) = []" using p inv st'(2) by simp_all
    from repo_drains_sent [OF this assms(12-15), of now] obtain p' where p': "drainWithACK buffer_repo wr cfg now
          (map (\<lambda>d. (now, AckIn (ackID (ChainID d) (TxHash d) (LogIndex d)))) (pending (store (bpool st')))) p = (None, p')"
        "pending (store (buf p')) = []" "\<forall>d \<in> set (pending (store (bpool st'))). message_of d \<in> set (sent (conn p'))"
      unfolding p by blast
    have out: "went_out sent (conn p') k" if "k \<in> buffer_keys (store (bpool st'))" for k
      using that p'(3) unfolding keys [symmetric] message_of_def went_out_def by blast
    have "\<exists>ds. scan_result L latest b ds \<and> (\<forall>d \<in> set ds. went_out sent (conn p') (deposit_key d))"
      if b: "loop_cursor L st < b \<and> b \<le> loop_cursor L st'" for b
    proof -
      obtain ds where "scan_result L latest b ds" "deposit_key ` set ds \<subseteq> buffer_keys (store (bpool st'))"
        using st'(3) b unfolding cursor_advances_def by blast
      with out show ?thesis by blast
    qed
    with p'(1,2) show ?thesis by blast
  qed
  with st'(1,4) show ?thesis by blast
qed

text \<open>A chain that pays the same transfer in every block.\<close>

definition paying_event :: "int \<Rightarrow> DepositEvent" where
  "paying_event k = \<lparr>ev_ChainID = 1, ev_TxHash = ''0xcd'', ev_LogIndex = 7, ev_FromAddress = ''0x1'', ev_ToAddress = ''0x2'', ev_Amount = Some 5,
     ev_Symbol = ''ETH'', ev_Decimals = 0, ev_Confirmations = k, ev_TransactionDatetime = ''2024-01-02T03:04:05Z''\<rparr>"

definition paying_loop :: "u64 Loop" where
  "paying_loop = sample_loop\<lparr>strategy := \<lparr>Name = ''log'', ScanBlock = (\<lambda>b k s. (Inr [paying_event k], s))\<rparr>\<rparr>"

lemma paying_converts: "\<exists>d. convertEvents now [paying_event k] m = Some [d] \<and> deposit_key d = (1, ''0xcd'', 7) \<and> LogIndex d = 7"
proof -
  have "Parse_RFC3339Nano ''2024-01-02T03:04:05Z'' \<noteq> None" "formatUnits (Some 5) 0 \<noteq> None" by code_simp+
  then show ?thesis by (auto simp: convertEvents_def ToDeposit_def paying_event_def deposit_key_def Let_def)
qed

lemma paying_sel [simp]:
  "loop_chainID paying_loop = 1" "strategy paying_loop = \<lparr>Name = ''log'', ScanBlock = (\<lambda>b k s. (Inr [paying_event k], s))\<rparr>"
  "loop_cfg paying_loop = loop_cfg sample_loop" "wait_op paying_loop = wait_op sample_loop" "BlockNumber paying_loop = BlockNumber sample_loop"
  by (simp_all add: paying_loop_def)

lemma paying_scan: "scan_result paying_loop latest b ds \<Longrightarrow> (1, ''0xcd'', 7) \<in> deposit_key ` set ds"
  unfolding scan_result_def
proof (elim exE conjE)
  fix s s' events
  assume "ScanBlock (strategy paying_loop) b (to_i64 (latest - b)) s = (Inr events, s')"
    and c: "convertEvents (now_op paying_loop s') events (MinConfirmations (loop_cfg paying_loop)) = Some ds"
  then have "events = [paying_event (to_i64 (latest - b))]" by simp
  with c paying_converts [of "now_op paying_loop s'" "to_i64 (latest - b)" "MinConfirmations (loop_cfg paying_loop)"]
  show ?thesis by auto
qed

lemma paying_quiet: "quiet paying_loop"
  using paying_converts quiet_sample by (fastforce simp: quiet_def in_i32_def)

lemma paying_typed: "typed_scanner (strategy paying_loop)"
  by unfold_locales (auto simp: typed_event_def paying_event_def in_i64_def)

lemma at_block_5_inv: "db_inv (store (bpool (at_block_5 h)))"
  by (simp add: at_block_5_def db_inv_saved db_inv_empty_db)

theorem found_deposits_delivered_witness:
  "\<exists>st'. pollOnce paying_loop (at_block_5 12) = Some (Done None, st') \<and>
    (\<exists>p'. drainWithACK buffer_repo list_write sample_cfg 0
        (map (\<lambda>d. (0, AckIn (ackID (ChainID d) (TxHash d) (LogIndex d)))) (pending (store (bpool st'))))
        \<lparr>buf = bpool st', conn = [], out = [], met = no_metrics\<rparr> = (None, p')
      \<and> went_out (\<lambda>c. c) (conn p') (1, ''0xcd'', 7))"
proof -
  obtain st' where st': "pollOnce paying_loop (at_block_5 12) = Some (Done None, st')"
      "int (unat (loop_cursor paying_loop st')) = min 10 9"
    and p: "\<forall>p. buf p = bpool st' \<longrightarrow>
      (\<exists>p'. drainWithACK buffer_repo list_write sample_cfg 0
          (map (\<lambda>d. (0, AckIn (ackID (ChainID d) (TxHash d) (LogIndex d)))) (pending (store (bpool st')))) p = (None, p')
        \<and> pending (store (buf p')) = []
        \<and> (\<forall>b. 5 < b \<and> b \<le> loop_cursor paying_loop st' \<longrightarrow>
            (\<exists>ds. scan_result paying_loop 12 b ds \<and> (\<forall>d \<in> set ds. went_out (\<lambda>c. c) (conn p') (deposit_key d)))))"
    using found_deposits_delivered [OF paying_quiet, of "at_block_5 12" 12 12 list_write "\<lambda>c. c" sample_cfg 0,
        OF _ _ _ _ _ _ _ _ paying_typed at_block_5_inv _ list_write_records]
    by (auto simp: list_write_def)
  have b: "(5::u64) < 9 \<and> 9 \<le> loop_cursor paying_loop st'" using st'(2) by (simp add: word_le_def)
  define q :: "(pool, frame list) pub" where "q = \<lparr>buf = bpool st', conn = [], out = [], met = no_metrics\<rparr>"
  then have "buf q = bpool st'" by simp
  with p obtain p' where p': "drainWithACK buffer_repo list_write sample_cfg 0
        (map (\<lambda>d. (0, AckIn (ackID (ChainID d) (TxHash d) (LogIndex d)))) (pending (store (bpool st')))) q = (None, p')"
    "\<forall>b. 5 < b \<and> b \<le> loop_cursor paying_loop st' \<longrightarrow>
        (\<exists>ds. scan_result paying_loop 12 b ds \<and> (\<forall>d \<in> set ds. went_out (\<lambda>c. c) (conn p') (deposit_key d)))" by blast
  then obtain ds where ds: "scan_result paying_loop 12 9 ds" "\<forall>d \<in> set ds. went_out (\<lambda>c. c) (conn p') (deposit_key d)"
    using b by blast
  from paying_scan [OF ds(1)] ds(2) have "went_out (\<lambda>c. c) (conn p') (1, ''0xcd'', 7)" by (metis imageE)
  with p'(1) st'(1) show ?thesis unfolding q_def by (intro exI [of _ st'] exI [of _ p'] conjI)
qed

end
