(* ===== verification/Audit_System.thy ===== *)
theory Audit_System
  imports Auditing Log_Scanner Trace_Scanner Wire_Log
begin

text \<open>
  The auditor beside the scanners of a chain: what the loops of the log and the trace scanner store, and what an audit of the same
  chain then finds. A step of the environment is a save of one of the two scanners, a save for another chain, an acknowledgement
  of the publisher, or a change of the database's fault schedule.
\<close>

section \<open>Steps\<close>

inductive feed_step :: "int \<Rightarrow> 'w set \<Rightarrow> 'w Scanner \<Rightarrow> 'w Scanner \<Rightarrow> pool \<Rightarrow> pool \<Rightarrow> bool" for c W S T where
  own_save: "X = S \<or> X = T \<Longrightarrow> w \<in> W \<Longrightarrow> ScanBlock X b k w = (Inr evs, w') \<Longrightarrow> in_i64 k \<Longrightarrow> convertEvents now evs m = Some ds \<Longrightarrow>
    SaveAndAdvance c (Name X) b ds p = (r, p') \<Longrightarrow> feed_step c W S T p p'"
| other_save: "list_all wf_deposit ds \<Longrightarrow> \<forall>d \<in> set ds. ChainID d \<noteq> c \<Longrightarrow> SaveAndAdvance c' n b ds p = (r, p') \<Longrightarrow> feed_step c W S T p p'"
| acknowledge: "Ack c' t l p = (r, p') \<Longrightarrow> feed_step c W S T p p'"
| faults: "feed_step c W S T p (p\<lparr>outcomes := os, clock := now\<rparr>)"

text \<open>
  A scanner that finds the same keys in a block whenever it scans it in a state of \<open>W\<close>, and stays in \<open>W\<close>: the blocks are final, the
  node serves them and the registered accounts do not change.
\<close>

definition settled :: "'w set \<Rightarrow> 'w Scanner \<Rightarrow> (u64 \<Rightarrow> dep_key set) \<Rightarrow> bool" where
  "settled W X K \<longleftrightarrow> (\<forall>b k w r w'. w \<in> W \<longrightarrow> ScanBlock X b k w = (r, w') \<longrightarrow>
      w' \<in> W \<and> (\<forall>evs. r = Inr evs \<longrightarrow> event_key ` set evs = K b))"

text \<open>The ranges of log indices of the two scanners.\<close>

definition indices :: "'w Scanner \<Rightarrow> (int \<Rightarrow> bool) \<Rightarrow> bool" where
  "indices X R \<longleftrightarrow> (\<forall>b k w evs w'. ScanBlock X b k w = (Inr evs, w') \<longrightarrow> (\<forall>e \<in> set evs. R (ev_LogIndex e)))"

definition row_from :: "(u64 \<Rightarrow> dep_key set) \<Rightarrow> (int \<Rightarrow> bool) \<Rightarrow> buffer_row \<Rightarrow> bool" where
  "row_from K R r \<longleftrightarrow> (\<exists>b. row_block_number r = Some (to_i64 b) \<and> row_key r \<in> K b \<and> R (row_log_index r))"

definition fed :: "int \<Rightarrow> (u64 \<Rightarrow> dep_key set) \<Rightarrow> (u64 \<Rightarrow> dep_key set) \<Rightarrow> db \<Rightarrow> bool" where
  "fed c KS KT s \<longleftrightarrow> db_inv s \<and> (\<forall>r \<in> set (deposit_buffer s). row_chain_id r = c \<longrightarrow>
      row_from KS (\<lambda>l. - 100000 < l) r \<or> row_from KT (\<lambda>l. l \<le> - 100000) r)"

section \<open>Lemmas\<close>

lemma settledD: "settled W X K \<Longrightarrow> w \<in> W \<Longrightarrow> ScanBlock X b k w = (Inr evs, w') \<Longrightarrow> event_key ` set evs = K b"
  unfolding settled_def by blast

lemma indicesD: "indices X R \<Longrightarrow> ScanBlock X b k w = (Inr evs, w') \<Longrightarrow> e \<in> set evs \<Longrightarrow> R (ev_LogIndex e)"
  unfolding indices_def by blast

lemma ToDeposit_key: "ToDeposit now e m = Converted d \<Longrightarrow> deposit_key d = event_key e \<and> LogIndex d = ev_LogIndex e"
  by (auto simp: ToDeposit_def deposit_key_def event_key_def Let_def split: option.splits)

lemma convert_from_keys:
  "convert_from now m i es = Some ds \<Longrightarrow> d \<in> set ds \<Longrightarrow> \<exists>e \<in> set es. deposit_key d = event_key e \<and> LogIndex d = ev_LogIndex e"
proof (induction es arbitrary: i ds)
  case (Cons e es)
  show ?case
  proof (cases "ToDeposit (now i) e m")
    case (Converted x)
    then obtain ds' where ds': "convert_from now m (Suc i) es = Some ds'" "ds = x # ds'" using Cons.prems by auto
    then show ?thesis using Cons.IH [OF ds'(1)] Cons.prems(2) ToDeposit_key [OF Converted] by auto
  qed (use Cons in auto)
qed simp

lemma rows_of_inserts:
  "r \<in> set (deposit_buffer (foldl (\<lambda>s d. insert_row now b d s) s ds)) \<Longrightarrow>
    r \<in> set (deposit_buffer s) \<or> (\<exists>d \<in> set ds. row_chain_id r = ChainID d \<and> row_log_index r = LogIndex d \<and> row_key r = deposit_key d
      \<and> row_block_number r = Some (to_i64 b))"
proof (induction ds arbitrary: s)
  case (Cons d ds)
  then have "r \<in> set (deposit_buffer (insert_row now b d s)) \<or> (\<exists>d \<in> set ds. row_chain_id r = ChainID d \<and> row_log_index r = LogIndex d
      \<and> row_key r = deposit_key d \<and> row_block_number r = Some (to_i64 b))" by simp
  then show ?case
    by (auto simp: insert_row_def Let_def row_key_def deposit_key_def split: if_splits)
qed simp

lemma fed_cong: "fed c KS KT s \<Longrightarrow> same_tables s s' \<Longrightarrow> fed c KS KT s'"
  using db_inv_same_tables by (auto simp: fed_def same_tablesD)

lemma fed_saved:
  assumes "fed c KS KT s" and "list_all wf_deposit ds" and "list_all (in_i32 \<circ> LogIndex) ds"
    and "\<forall>d \<in> set ds. ChainID d = c \<longrightarrow> deposit_key d \<in> KS b \<and> - 100000 < LogIndex d \<or> deposit_key d \<in> KT b \<and> LogIndex d \<le> - 100000"
  shows "fed c KS KT (saved now c' n b ds s)"
proof -
  have "row_from KS (\<lambda>l. - 100000 < l) r \<or> row_from KT (\<lambda>l. l \<le> - 100000) r"
    if r: "r \<in> set (deposit_buffer (saved now c' n b ds s))" "row_chain_id r = c" for r
  proof (cases "r \<in> set (deposit_buffer s)")
    case True
    with assms(1) r(2) show ?thesis by (simp add: fed_def)
  next
    case False
    with rows_of_inserts r(1) obtain d where d: "d \<in> set ds" "row_chain_id r = ChainID d" "row_log_index r = LogIndex d"
        "row_key r = deposit_key d" "row_block_number r = Some (to_i64 b)"
      unfolding deposit_buffer_saved by blast
    from assms(4) [rule_format, OF d(1)] r(2) d(2)
    have "deposit_key d \<in> KS b \<and> - 100000 < LogIndex d \<or> deposit_key d \<in> KT b \<and> LogIndex d \<le> - 100000" by simp
    with d(3-5) show ?thesis unfolding row_from_def by metis
  qed
  moreover have "db_inv (saved now c' n b ds s)" using assms(1-3) db_inv_saved by (simp add: fed_def)
  ultimately show ?thesis by (simp add: fed_def)
qed

lemma fed_save:
  assumes "SaveAndAdvance c' n b ds p = (r, p')" and "fed c KS KT (store p)" and "list_all wf_deposit ds"
    and "\<forall>d \<in> set ds. ChainID d = c \<longrightarrow> deposit_key d \<in> KS b \<and> - 100000 < LogIndex d \<or> deposit_key d \<in> KT b \<and> LogIndex d \<le> - 100000"
  shows "fed c KS KT (store p')"
  using SaveAndAdvance_cases [OF assms(1)]
proof (elim conjE disjE)
  assume "store p' = saved (clock p) c' n b ds (store p)" "list_all (in_i32 \<circ> LogIndex) ds"
  with fed_saved [OF assms(2,3) _ assms(4)] show ?thesis by simp
next
  assume "same_tables (store p) (store p')"
  with assms(2) show ?thesis by (rule fed_cong)
qed

lemma fed_deleted: "fed c KS KT s \<Longrightarrow> fed c KS KT (delete_row c' t l s)"
  using db_inv_delete_row by (auto simp: fed_def delete_row_def)

lemma feed_step_fed:
  assumes "feed_step c W S T p p'" and "fed c KS KT (store p)"
    and "typed_scanner S" "settled W S KS" "indices S (\<lambda>l. - 100000 < l)"
    and "typed_scanner T" "settled W T KT" "indices T (\<lambda>l. l \<le> - 100000)"
  shows "fed c KS KT (store p')"
  using assms(1,2)
proof (induction rule: feed_step.induct)
  case (own_save X w b k evs w' now m ds p r p')
  have typed: "list_all typed_event evs"
    using own_save.hyps(1,3,4) assms(3,6) by (auto intro: typed_scanner.events_typed)
  have "list_all wf_deposit ds"
    using own_save.hyps(5) typed by (auto simp: convertEvents_def intro: convert_from_wf)
  moreover have "deposit_key d \<in> KS b \<and> - 100000 < LogIndex d \<or> deposit_key d \<in> KT b \<and> LogIndex d \<le> - 100000" if d: "d \<in> set ds" for d
  proof -
    obtain e where e: "e \<in> set evs" "deposit_key d = event_key e" "LogIndex d = ev_LogIndex e"
      using convert_from_keys [OF own_save.hyps(5) [unfolded convertEvents_def] d] by blast
    from own_save.hyps(1) show ?thesis
    proof
      assume X: "X = S"
      have "event_key ` set evs = KS b" "- 100000 < ev_LogIndex e"
        using settledD [OF assms(4) own_save.hyps(2)] indicesD [OF assms(5)] own_save.hyps(3) e(1) by (auto simp: X)
      with e show ?thesis by auto
    next
      assume X: "X = T"
      have "event_key ` set evs = KT b" "ev_LogIndex e \<le> - 100000"
        using settledD [OF assms(7) own_save.hyps(2)] indicesD [OF assms(8)] own_save.hyps(3) e(1) by (auto simp: X)
      with e show ?thesis by auto
    qed
  qed
  ultimately show ?case using fed_save [OF own_save.hyps(6) own_save.prems] by blast
next
  case (other_save ds c' n b p r p')
  then show ?case using fed_save by blast
next
  case (acknowledge c' t l p r p')
  then show ?case using Ack_cases fed_deleted by metis
next
  case (faults p os now)
  then show ?case by simp
qed

lemma feed_fed:
  assumes "(feed_step c W S T)\<^sup>*\<^sup>* p p'" and "fed c KS KT (store p)"
    and "typed_scanner S" "settled W S KS" "indices S (\<lambda>l. - 100000 < l)"
    and "typed_scanner T" "settled W T KT" "indices T (\<lambda>l. l \<le> - 100000)"
  shows "fed c KS KT (store p')"
  using assms(1,2) by (induction rule: rtranclp_induct) (use feed_step_fed [OF _ _ assms(3-8)] in blast)+

text \<open>What an audit of a fed buffer sees: nothing is missing.\<close>

definition covers :: "string \<Rightarrow> (u64 \<Rightarrow> dep_key set) \<Rightarrow> int \<Rightarrow> db \<Rightarrow> bool" where
  "covers name K c s \<longleftrightarrow> (\<forall>blk. \<forall>p \<in> set (map (the \<circ> decoded) (in_range_rows c blk blk s)). ownedBy name (LogIndex p) \<longrightarrow> deposit_key p \<in> K blk)"

lemma fed_row:
  assumes "fed c KS KT s" and "p \<in> set (map (the \<circ> decoded) (in_range_rows c blk blk s))"
  shows "deposit_key p \<in> KS blk \<and> - 100000 < LogIndex p \<or> deposit_key p \<in> KT blk \<and> LogIndex p \<le> - 100000"
proof -
  obtain r where r: "r \<in> set (deposit_buffer s)" "row_chain_id r = c" "row_block_number r = Some (to_i64 blk)" "p = the (decoded r)"
    using assms(2) by (auto simp: in_range_rows_def split: option.splits)
  have "row_ok r" using assms(1) r(1) by (auto simp: fed_def db_inv_def list_all_iff)
  then have "deposit_key p = row_key r" using r(4) by (auto simp: row_ok_def split: option.splits)
  moreover from this have "LogIndex p = row_log_index r" by (simp add: deposit_key_def row_key_def)
  moreover have "row_from KS (\<lambda>l. - 100000 < l) r \<or> row_from KT (\<lambda>l. l \<le> - 100000) r" using assms(1) r(1,2) by (simp add: fed_def)
  ultimately show ?thesis using r(3) by (auto simp: row_from_def)
qed

lemma fed_covers: "fed c KS KT s \<Longrightarrow> covers ''log'' KS c s" "fed c KS KT s \<Longrightarrow> covers ''trace'' KT c s"
  using fed_row by (fastforce simp: covers_def ownedBy_def)+

lemma auditBlock_quiet:
  assumes "au_buffer A = audit_repo" and "db_inv (store (au_buf st))" and "settled W sc K" and "covers (Name sc) K c (store (au_buf st))" and "au_world st \<in> W"
  shows "MismatchPendingMissing (au_m (auditBlock A c label (Name sc) sc blk st)) = MismatchPendingMissing (au_m st)"
proof -
  obtain x w where x: "ScanBlock sc blk (BlockRescanConfs (au_cfg A)) (au_world st) = (x, w)" by fastforce
  obtain y b where y: "PendingInRange c blk blk (au_buf st) = (y, b)" by fastforce
  show ?thesis
  proof (cases x)
    case (Inl e)
    with x show ?thesis by (simp add: auditBlock_def audit_error_def on_metrics_def)
  next
    case (Inr events)
    show ?thesis
    proof (cases y)
      case (Inl e)
      with x y Inr assms(1) show ?thesis
        by (simp add: auditBlock_def audit_error_def on_metrics_def Let_def audit_repo_def)
    next
      case (Inr ps)
      have "event_key ` set events = K blk" using assms(3,5) x \<open>x = Inr events\<close> unfolding settled_def by blast
      then have "filter (\<lambda>p. ownedBy (Name sc) (LogIndex p) \<and> deposit_key p \<notin> event_key ` set events)
          (map (the \<circ> decoded) (in_range_rows c blk blk (store (au_buf st)))) = []"
        using assms(4) unfolding covers_def filter_empty_conv by blast
      with audit_repo.auditBlock_alarm [OF assms(1,2) x [unfolded \<open>x = Inr events\<close>], of c ps b label "Name sc"] y Inr
      show ?thesis by (simp add: audit_repo_def)
    qed
  qed
qed

lemma auditBlock_world: "au_world (auditBlock A c label n sc blk st) = snd (ScanBlock sc blk (BlockRescanConfs (au_cfg A)) (au_world st))"
  by (auto simp: auditBlock_def audit_error_def on_metrics_def Let_def split: prod.splits sum.splits)

text \<open>The state of an audit that will find nothing: the tables are fed and the connection is in a settled state.\<close>

definition calm :: "'w set \<Rightarrow> 'w Scanner \<Rightarrow> (u64 \<Rightarrow> dep_key set) \<Rightarrow> int \<Rightarrow> (pool, 'c, 'w, 'r) audit_state \<Rightarrow> bool" where
  "calm W sc K c st \<longleftrightarrow> db_inv (store (au_buf st)) \<and> covers (Name sc) K c (store (au_buf st)) \<and> au_world st \<in> W"

lemma auditBlock_calm:
  assumes "au_buffer A = audit_repo" and "settled W sc K" and "calm W sc K c st"
  shows "calm W sc K c (auditBlock A c label n sc blk st)"
proof -
  have "store (au_buf (auditBlock A c label n sc blk st)) = store (au_buf st)"
    using audit_repo.auditBlock_untouched [OF assms(1), of st c label n sc blk] assms(3)
    by (simp add: audit_repo.untouched_def calm_def)
  moreover have "snd (ScanBlock sc blk (BlockRescanConfs (au_cfg A)) (au_world st)) \<in> W"
    using assms(2,3) unfolding settled_def calm_def by (metis prod.collapse)
  ultimately show ?thesis using assms(3) by (simp add: calm_def auditBlock_world)
qed

lemma sample_blocks_quiet:
  assumes "au_buffer A = audit_repo" and "settled W sc K"
  shows "sample_blocks A c sc s e n tried st = Some (tried', st') \<Longrightarrow> calm W sc K c st \<Longrightarrow>
    MismatchPendingMissing (au_m st') = MismatchPendingMissing (au_m st)"
proof (induction n arbitrary: tried st)
  case (Suc n)
  obtain y st1 where y: "ctx_Err st = (y, st1)" by fastforce
  then have c1: "calm W sc K c st1" "au_m st1 = au_m st" using Suc.prems(2) by (auto simp: ctx_Err_def calm_def split: list.splits)
  show ?case
  proof (cases y)
    case (Some err)
    with y Suc.prems(1) c1 show ?thesis by simp
  next
    case None
    obtain r rnd where r: "Int63n A (to_i64 (e - s + 1)) (au_rand st1) = (r, rnd)" by fastforce
    let ?st2 = "st1\<lparr>au_rand := rnd\<rparr>" and ?blk = "s + to_u64 r"
    let ?audited = "auditBlock A c (show_int c) (Name sc) sc ?blk ?st2"
    have c2: "calm W sc K c ?st2" using c1 by (simp add: calm_def)
    have "MismatchPendingMissing (au_m ?audited) = MismatchPendingMissing (au_m ?st2)"
      using auditBlock_quiet [OF assms(1) _ assms(2)] c2 by (simp add: calm_def)
    moreover have "calm W sc K c ?audited" using assms c2 by (rule auditBlock_calm)
    moreover have "sample_blocks A c sc s e n tried ?st2 = Some (tried', st') \<or> sample_blocks A c sc s e n (?blk # tried) ?audited = Some (tried', st')"
      using Suc.prems(1) y None r by (simp add: Let_def split: if_splits)
    ultimately show ?thesis using Suc.IH c2 c1(2) by fastforce
  qed
qed simp

lemma auditScanner_quiet:
  assumes "au_buffer A = audit_repo" and "settled W sc K" and "auditScanner A c sc st = Some (tried, st')" and "calm W sc K c st"
  shows "MismatchPendingMissing (au_m st') = MismatchPendingMissing (au_m st)"
proof -
  obtain x b where x: "Cursor_op audit_repo c (Name sc) (au_buf st) = (x, b)" by fastforce
  then have "store b = store (au_buf st)" using audit_repo.cursor_frame [OF _ x] assms(4) by (simp add: calm_def)
  then have "calm W sc K c (st\<lparr>au_buf := b\<rparr>)" using assms(4) by (simp add: calm_def)
  from sample_blocks_quiet [OF assms(1,2) _ this] assms(1,3) x show ?thesis
    by (auto simp: auditScanner_def audit_error_def on_metrics_def Let_def split: sum.splits if_splits)
qed

text \<open>The index ranges of the scanners of the code.\<close>

lemma log_scanner_indices:
  fixes S :: "'n LogScanner"
  assumes "\<forall>cs. mset (completion S cs) = mset cs"
    and "\<forall>b (w :: ('n, 'z) world_scheme) block w1. rpc_do (ls_client S) (ls_retryOpt S) None (BlockByNumber (ls_client S) b) w = (Inr (Some block), w1) \<longrightarrow>
      length (Transactions block) < 100000"
    and "\<forall>q n logs n'. FilterLogs (ls_client S) q n = (Inr logs, n') \<longrightarrow> (\<forall>lg \<in> set logs. 0 \<le> to_i64 (log_Index lg))"
  shows "indices (log_scanner S :: ('n, 'z) world_scheme Scanner) (\<lambda>l. - 100000 < l)"
  unfolding indices_def
proof (intro allI impI ballI)
  fix b k evs e and w w' :: "('n, 'z) world_scheme" assume "ScanBlock (log_scanner S) b k w = (Inr evs, w')" and e: "e \<in> set evs"
  then have "log_ScanBlock S b k w = (Inr evs, w')" by (simp add: log_scanner_def)
  from log_scan_indices [OF this assms(1) _ assms(3) e] assms(2) show "- 100000 < ev_LogIndex e" by blast
qed

lemma trace_scanner_indices:
  assumes "\<forall>b k w evs w'. trace_ScanBlock T b k w = (Inr evs, w') \<longrightarrow> length evs < 2 ^ 62"
  shows "indices (trace_scanner T) (\<lambda>l. l \<le> - 100000)"
  unfolding indices_def
proof (intro allI impI ballI)
  fix b k w evs w' e assume "ScanBlock (trace_scanner T) b k w = (Inr evs, w')" and e: "e \<in> set evs"
  then have t: "trace_ScanBlock T b k w = (Inr evs, w')" by (simp add: trace_scanner_def)
  from trace_scan_indices [OF t _ e] assms t show "ev_LogIndex e \<le> - 100000" by blast
qed

section \<open>Properties\<close>

text \<open>
  C22. The audit raises no false alarm. Take a chain whose blocks are settled for a log scanner (indices above -100000) and a trace
  scanner (indices of -100000 and below), and a buffer that only these two, the scanners of other chains, the publisher and faults of the
  database have changed since it was empty. Then an audit of either scanner never counts a missing deposit, whatever blocks it draws.
\<close>

theorem no_false_alarm:
  assumes "(feed_step c W S T)\<^sup>*\<^sup>* p0 p" and "deposit_buffer (store p0) = []"
    and "Name S = ''log''" and "typed_scanner S" and "settled W S KS" and "indices S (\<lambda>l. - 100000 < l)"
    and "Name T = ''trace''" and "typed_scanner T" and "settled W T KT" and "indices T (\<lambda>l. l \<le> - 100000)"
    and "au_buffer A = audit_repo" and "au_buf st = p" and "au_world st \<in> W" and "sc = S \<or> sc = T"
    and "auditScanner A c sc st = Some (tried, st')"
  shows "MismatchPendingMissing (au_m st') = MismatchPendingMissing (au_m st)"
proof -
  have "fed c KS KT (store p0)" using assms(2) by (simp add: fed_def db_inv_def)
  from feed_fed [OF assms(1) this assms(4-6,8-10)] have fed: "fed c KS KT (store p)" .
  from assms(14) show ?thesis
  proof
    assume "sc = S"
    moreover have "calm W S KS c st" using fed fed_covers(1) [OF fed] assms(3,12,13) by (simp add: calm_def fed_def)
    ultimately show ?thesis using auditScanner_quiet [OF assms(11,5)] assms(15) by blast
  next
    assume "sc = T"
    moreover have "calm W T KT c st" using fed fed_covers(2) [OF fed] assms(7,12,13) by (simp add: calm_def fed_def)
    ultimately show ?thesis using auditScanner_quiet [OF assms(11,9)] assms(15) by blast
  qed
qed

text \<open>Two scanners that report one deposit in every block, each in its range; the log scanner has stored block 100.\<close>

definition steady :: "string \<Rightarrow> int \<Rightarrow> unit Scanner" where
  "steady n l = \<lparr>Name = n, ScanBlock = (\<lambda>b k w. (Inr [paying_event k\<lparr>ev_LogIndex := l\<rparr>], w))\<rparr>"

definition steady_auditor :: "(pool, unit, unit, int) Auditor" where
  "steady_auditor = sample_auditor 10"

definition steady_audit :: "pool \<Rightarrow> (pool, unit, unit, int) audit_state" where
  "steady_audit p = sample_audit\<lparr>au_buf := p\<rparr>"

lemma steady_props: "in_i64 l \<Longrightarrow> typed_scanner (steady n l)" "settled {()} (steady n l) (\<lambda>b. {(1, ''0xcd'', l)})" "R l \<Longrightarrow> indices (steady n l) R"
  by (unfold_locales, auto simp: steady_def typed_event_def paying_event_def in_i64_def settled_def indices_def event_key_def)

lemma steady_audit_runs: "\<exists>tried st'. auditScanner steady_auditor 1 sc (steady_audit p) = Some (tried, st')"
proof (cases "Cursor_op audit_repo 1 (Name sc) p")
  case (Pair x b)
  have "draws_ok (sample_auditor 10)" by (simp add: draws_ok_def sample_auditor_def)
  then have run: "\<exists>tried st'. sample_blocks (sample_auditor 10) 1 sc (cur - 60) (cur - 50) 5 [] st = Some (tried, st')" for cur st
    using sample_blocks_range [of "sample_auditor 10" "cur - 50" "cur - 60" 1 sc 5 "[]" st] by (auto simp: to_i64_def)
  have "au_buffer (sample_auditor 10) = audit_repo" "WindowBlocks (au_cfg (sample_auditor 10)) = 10"
    "SafetyMargin (au_cfg (sample_auditor 10)) = 50" "SamplesPerCycle (au_cfg (sample_auditor 10)) = 5"
    by (simp_all add: sample_auditor_def)
  with Pair run show ?thesis
    by (cases x) (simp_all add: auditScanner_def steady_auditor_def steady_audit_def Let_def)
qed

lemma steady_fed:
  obtains p ds where "feed_step 1 {()} (steady ''log'' 7) (steady ''trace'' (- 100000)) \<lparr>store = empty_db, outcomes = [], clock = 0\<rparr> p"
    "buffer_keys (store p) = {(1, ''0xcd'', 7)}"
proof -
  obtain d where d: "convertEvents (\<lambda>i. \<lparr>Unix = 0, Nanosecond = 0\<rparr>) [paying_event 12] 12 = Some [d]" "deposit_key d = (1, ''0xcd'', 7)" "LogIndex d = 7"
    using paying_converts by blast
  let ?p = "\<lparr>store = empty_db, outcomes = [], clock = 0\<rparr>"
  have ev: "paying_event 12\<lparr>ev_LogIndex := 7\<rparr> = paying_event 12" by (simp add: paying_event_def)
  have s: "SaveAndAdvance 1 ''log'' 100 [d] ?p = (None, ?p\<lparr>store := saved 0 1 ''log'' 100 [d] empty_db\<rparr>)"
    using SaveAndAdvance_served [of ?p "[d]"] d(3) by (simp add: in_i32_def)
  have "feed_step 1 {()} (steady ''log'' 7) (steady ''trace'' (- 100000)) ?p (?p\<lparr>store := saved 0 1 ''log'' 100 [d] empty_db\<rparr>)"
    using s by (intro own_save [of "steady ''log'' 7" _ _ "()" _ 100 12, OF _ _ _ _ d(1)]) (simp_all add: steady_def ev in_i64_def)
  moreover have "buffer_keys empty_db = {}" by (simp add: buffer_keys_def empty_db_def)
  ultimately show thesis using that d(2) by simp
qed

theorem no_false_alarm_witness:
  "\<exists>p tried st'. (1, ''0xcd'', 7) \<in> buffer_keys (store p)
    \<and> auditScanner steady_auditor 1 (steady ''log'' 7) (steady_audit p) = Some (tried, st') \<and> MismatchPendingMissing (au_m st') = []"
proof -
  obtain p where p: "feed_step 1 {()} (steady ''log'' 7) (steady ''trace'' (- 100000)) \<lparr>store = empty_db, outcomes = [], clock = 0\<rparr> p"
    "buffer_keys (store p) = {(1, ''0xcd'', 7)}" by (rule steady_fed)
  obtain tried st' where a: "auditScanner steady_auditor 1 (steady ''log'' 7) (steady_audit p) = Some (tried, st')"
    using steady_audit_runs by blast
  have "MismatchPendingMissing (au_m st') = MismatchPendingMissing (au_m (steady_audit p))"
    by (rule no_false_alarm [OF r_into_rtranclp, OF p(1) _ _ steady_props(1) steady_props(2) steady_props(3) _
          steady_props(1) steady_props(2) steady_props(3) _ _ _ _ a])
      (simp_all add: steady_def in_i64_def steady_auditor_def sample_auditor_def steady_audit_def empty_db_def)
  with p(2) a show ?thesis by (auto simp: steady_audit_def sample_audit_def)
qed

end
