(* ===== verification/Metrics.thy ===== *)
theory Metrics
  imports Prelude "HOL-Library.Sublist"
begin

text \<open>
  \<^verbatim>\<open>internal/metrics/metrics.go\<close>: the collectors that the other packages update, in the order of the file, and their registration when
  the package is initialised. The registry is the one of \<^verbatim>\<open>client_golang\<close>: registering is the argument \<^verbatim>\<open>Register\<close>, and what
  the library documents of it is the predicate \<open>registers\<close>. How the values change is in the theories of the components
  (\<^verbatim>\<open>loop_metrics\<close>, \<^verbatim>\<open>pub_metrics\<close>, \<^verbatim>\<open>audit_metrics\<close> and so on); here are also the label values each call site passes.
\<close>

section \<open>Collectors\<close>

record Opts =
  Namespace :: string
  Subsystem :: string
  opts_Name :: string
  Help :: string

datatype collector =
    NewGauge (copts: Opts)
  | NewCounter (copts: Opts)
  | NewGaugeVec (copts: Opts) (vlabels: "string list")
  | NewCounterVec (copts: Opts) (vlabels: "string list")

fun clabels :: "collector \<Rightarrow> string list" where
  "clabels (NewGaugeVec os ls) = ls"
| "clabels (NewCounterVec os ls) = ls"
| "clabels c = []"

definition namespace :: string where "namespace = ''listener''"

definition ScannerCursorBlock_desc :: collector where
  "ScannerCursorBlock_desc = NewGaugeVec
    \<lparr>Namespace = namespace, Subsystem = ''scanner'', opts_Name = ''cursor_block'',
      Help = ''Last processed block (cursor) per (chain_id, scanner).''\<rparr> [''chain_id'', ''scanner'']"

definition ScannerLatestBlock_desc :: collector where
  "ScannerLatestBlock_desc = NewGaugeVec
    \<lparr>Namespace = namespace, Subsystem = ''scanner'', opts_Name = ''latest_block'',
      Help = ''Latest block number from RPC per chain_id.''\<rparr> [''chain_id'']"

definition ScannerLagBlocks_desc :: collector where
  "ScannerLagBlocks_desc = NewGaugeVec
    \<lparr>Namespace = namespace, Subsystem = ''scanner'', opts_Name = ''lag_blocks'',
      Help = ''How many blocks behind latest per (chain_id, scanner).''\<rparr> [''chain_id'', ''scanner'']"

definition ScannerBlocksProcessed_desc :: collector where
  "ScannerBlocksProcessed_desc = NewCounterVec
    \<lparr>Namespace = namespace, Subsystem = ''scanner'', opts_Name = ''blocks_processed_total'',
      Help = ''Cumulative blocks processed per (chain_id, scanner).''\<rparr> [''chain_id'', ''scanner'']"

definition ScannerDepositsFound_desc :: collector where
  "ScannerDepositsFound_desc = NewCounterVec
    \<lparr>Namespace = namespace, Subsystem = ''scanner'', opts_Name = ''deposits_found_total'',
      Help = ''Cumulative deposit events found per (chain_id, scanner).''\<rparr> [''chain_id'', ''scanner'']"

definition ScannerErrors_desc :: collector where
  "ScannerErrors_desc = NewCounterVec
    \<lparr>Namespace = namespace, Subsystem = ''scanner'', opts_Name = ''errors_total'',
      Help = ''Cumulative scanner errors per (chain_id, scanner).''\<rparr> [''chain_id'', ''scanner'']"

definition scanner_collectors :: "collector list" where
  "scanner_collectors = [ScannerCursorBlock_desc, ScannerLatestBlock_desc, ScannerLagBlocks_desc, ScannerBlocksProcessed_desc, ScannerDepositsFound_desc, ScannerErrors_desc]"

definition BufferPendingTotal_desc :: collector where
  "BufferPendingTotal_desc = NewGauge
    \<lparr>Namespace = namespace, Subsystem = ''buffer'', opts_Name = ''pending_total'',
      Help = ''Current number of unsent rows in deposit_buffer.''\<rparr>"

definition BufferOldestAgeSeconds_desc :: collector where
  "BufferOldestAgeSeconds_desc = NewGauge
    \<lparr>Namespace = namespace, Subsystem = ''buffer'', opts_Name = ''oldest_age_seconds'',
      Help = ''Age of oldest unsent row in seconds.''\<rparr>"

definition buffer_collectors :: "collector list" where
  "buffer_collectors = [BufferPendingTotal_desc, BufferOldestAgeSeconds_desc]"

definition PublisherSent_desc :: collector where
  "PublisherSent_desc = NewCounter
    \<lparr>Namespace = namespace, Subsystem = ''publisher'', opts_Name = ''sent_total'',
      Help = ''Cumulative deposits sent over WS.''\<rparr>"

definition PublisherSendErrors_desc :: collector where
  "PublisherSendErrors_desc = NewCounter
    \<lparr>Namespace = namespace, Subsystem = ''publisher'', opts_Name = ''send_errors_total'',
      Help = ''Cumulative WS send errors.''\<rparr>"

definition PublisherConnected_desc :: collector where
  "PublisherConnected_desc = NewGauge
    \<lparr>Namespace = namespace, Subsystem = ''publisher'', opts_Name = ''connected'',
      Help = ''1 if currently connected to Adapter WS, 0 otherwise.''\<rparr>"

definition PublisherReconnects_desc :: collector where
  "PublisherReconnects_desc = NewCounter
    \<lparr>Namespace = namespace, Subsystem = ''publisher'', opts_Name = ''reconnects_total'',
      Help = ''Cumulative reconnect attempts.''\<rparr>"

definition PublisherAcksReceived_desc :: collector where
  "PublisherAcksReceived_desc = NewCounter
    \<lparr>Namespace = namespace, Subsystem = ''publisher'', opts_Name = ''acks_received_total'',
      Help = ''Cumulative ACK messages received from Adapter.''\<rparr>"

definition PublisherAckTimeouts_desc :: collector where
  "PublisherAckTimeouts_desc = NewCounter
    \<lparr>Namespace = namespace, Subsystem = ''publisher'', opts_Name = ''ack_timeouts_total'',
      Help = ''Cumulative connection drops due to ACK timeout.''\<rparr>"

definition PublisherInFlight_desc :: collector where
  "PublisherInFlight_desc = NewGauge
    \<lparr>Namespace = namespace, Subsystem = ''publisher'', opts_Name = ''in_flight'',
      Help = ''Number of messages awaiting ACK.''\<rparr>"

definition publisher_collectors :: "collector list" where
  "publisher_collectors = [PublisherSent_desc, PublisherSendErrors_desc, PublisherConnected_desc, PublisherReconnects_desc, PublisherAcksReceived_desc, PublisherAckTimeouts_desc, PublisherInFlight_desc]"

definition SupervisorChainsRunning_desc :: collector where
  "SupervisorChainsRunning_desc = NewGauge
    \<lparr>Namespace = namespace, Subsystem = ''supervisor'', opts_Name = ''chains_running'',
      Help = ''Number of currently running chains.''\<rparr>"

definition SupervisorReconciles_desc :: collector where
  "SupervisorReconciles_desc = NewCounterVec
    \<lparr>Namespace = namespace, Subsystem = ''supervisor'', opts_Name = ''reconciles_total'',
      Help = ''Cumulative reconcile cycles by result.''\<rparr> [''result'']"

definition SupervisorPanics_desc :: collector where
  "SupervisorPanics_desc = NewCounterVec
    \<lparr>Namespace = namespace, Subsystem = ''supervisor'', opts_Name = ''panics_total'',
      Help = ''Cumulative panics recovered per (chain_id, scanner).''\<rparr> [''chain_id'', ''scanner'']"

definition supervisor_collectors :: "collector list" where
  "supervisor_collectors = [SupervisorChainsRunning_desc, SupervisorReconciles_desc, SupervisorPanics_desc]"

definition AuditCycles_desc :: collector where
  "AuditCycles_desc = NewCounter
    \<lparr>Namespace = namespace, Subsystem = ''audit'', opts_Name = ''cycles_total'',
      Help = ''Cumulative audit cycles completed.''\<rparr>"

definition AuditBlocksChecked_desc :: collector where
  "AuditBlocksChecked_desc = NewCounterVec
    \<lparr>Namespace = namespace, Subsystem = ''audit'', opts_Name = ''blocks_checked_total'',
      Help = ''Cumulative blocks rescanned for audit per chain.''\<rparr> [''chain_id'']"

definition AuditMismatchPendingMissing_desc :: collector where
  "AuditMismatchPendingMissing_desc = NewCounterVec
    \<lparr>Namespace = namespace, Subsystem = ''audit'', opts_Name = ''mismatch_pending_missing_total'',
      Help = ''Pending deposits not found in rescan (suspect: reorg/RPC drift/scanner bug).''\<rparr> [''chain_id'']"

definition AuditErrors_desc :: collector where
  "AuditErrors_desc = NewCounterVec
    \<lparr>Namespace = namespace, Subsystem = ''audit'', opts_Name = ''errors_total'',
      Help = ''Cumulative errors during audit.''\<rparr> [''phase'']"

definition AuditLastCycleAgeSeconds_desc :: collector where
  "AuditLastCycleAgeSeconds_desc = NewGauge
    \<lparr>Namespace = namespace, Subsystem = ''audit'', opts_Name = ''last_cycle_age_seconds'',
      Help = ''Seconds since the last completed audit cycle (0 if just done).''\<rparr>"

definition audit_collectors :: "collector list" where
  "audit_collectors = [AuditCycles_desc, AuditBlocksChecked_desc, AuditMismatchPendingMissing_desc, AuditErrors_desc, AuditLastCycleAgeSeconds_desc]"

definition NotifyReceived_desc :: collector where
  "NotifyReceived_desc = NewCounter
    \<lparr>Namespace = namespace, Subsystem = ''notify'', opts_Name = ''received_total'',
      Help = ''Cumulative LISTEN notifications received.''\<rparr>"

definition NotifyReconnects_desc :: collector where
  "NotifyReconnects_desc = NewCounter
    \<lparr>Namespace = namespace, Subsystem = ''notify'', opts_Name = ''reconnects_total'',
      Help = ''Cumulative LISTEN connection reconnects.''\<rparr>"

definition notify_collectors :: "collector list" where
  "notify_collectors = [NotifyReceived_desc, NotifyReconnects_desc]"

definition all_metrics :: "collector list" where
  "all_metrics = scanner_collectors @ buffer_collectors @ publisher_collectors @ supervisor_collectors @ audit_collectors @ notify_collectors"

section \<open>Registration\<close>

text \<open>
  The name under which a collector is registered joins namespace, subsystem and name with underscores. \<^verbatim>\<open>promauto\<close> registers every
  collector with \<^verbatim>\<open>MustRegister\<close>, which panics when the registry refuses it (\<^const>\<open>None\<close>); the variables are initialised in the
  order in which they are declared, before \<^verbatim>\<open>main\<close> runs.
\<close>

definition fq_name :: "collector \<Rightarrow> string" where
  "fq_name c = Namespace (copts c) @ ''_'' @ Subsystem (copts c) @ ''_'' @ opts_Name (copts c)"

fun metrics_init :: "('r \<Rightarrow> collector \<Rightarrow> 'r option) \<Rightarrow> collector list \<Rightarrow> 'r \<Rightarrow> 'r option" where
  "metrics_init Register [] r = Some r"
| "metrics_init Register (c # cs) r = Option.bind (Register r c) (metrics_init Register cs)"

text \<open>
  What the registry promises: a collector whose names are well formed, whose labels differ and whose full name is not taken yet is
  accepted, and then its name is taken.
\<close>

definition letter :: "char \<Rightarrow> bool" where
  "letter ch \<longleftrightarrow> ch \<in> set ''abcdefghijklmnopqrstuvwxyzABCDEFGHIJKLMNOPQRSTUVWXYZ_''"

definition name_ok :: "string \<Rightarrow> bool" where
  "name_ok s \<longleftrightarrow> s \<noteq> [] \<and> letter (hd s) \<and> list_all (\<lambda>ch. letter ch \<or> ch \<in> set ''0123456789'') s"

definition desc_ok :: "collector \<Rightarrow> bool" where
  "desc_ok c \<longleftrightarrow> name_ok (fq_name c) \<and> list_all (\<lambda>l. name_ok l \<and> \<not> prefix ''__'' l) (clabels c) \<and> distinct (clabels c)"

definition registers :: "('r \<Rightarrow> collector \<Rightarrow> 'r option) \<Rightarrow> ('r \<Rightarrow> string set) \<Rightarrow> bool" where
  "registers Register names \<longleftrightarrow>
    (\<forall>r c. desc_ok c \<and> fq_name c \<notin> names r \<longrightarrow>
      (\<exists>r'. Register r c = Some r' \<and> names r' = insert (fq_name c) (names r)))"

section \<open>Call sites\<close>

text \<open>
  The vectors that each package updates with \<^verbatim>\<open>WithLabelValues\<close> and the values it passes, one pair for each call site in the order of
  the file. The library panics when their number is not that of the labels the vector was declared with.
\<close>

type_synonym label_use = "collector \<times> string list"

definition arity_ok :: "label_use \<Rightarrow> bool" where
  "arity_ok u \<longleftrightarrow> clabels (fst u) \<noteq> [] \<and> length (snd u) = length (clabels (fst u))"

definition loop_label_uses :: "string \<Rightarrow> string \<Rightarrow> label_use list" where
  "loop_label_uses chainLabel scannerName =
    [(ScannerErrors_desc, [chainLabel, scannerName]),
     (ScannerLatestBlock_desc, [chainLabel]),
     (ScannerErrors_desc, [chainLabel, scannerName]),
     (ScannerCursorBlock_desc, [chainLabel, scannerName]),
     (ScannerLagBlocks_desc, [chainLabel, scannerName]),
     (ScannerBlocksProcessed_desc, [chainLabel, scannerName]),
     (ScannerDepositsFound_desc, [chainLabel, scannerName])]"

definition supervisor_label_uses :: "int \<Rightarrow> string \<Rightarrow> label_use list" where
  "supervisor_label_uses chainID scannerName =
    [(SupervisorReconciles_desc, [''error'']),
     (SupervisorReconciles_desc, [''success'']),
     (SupervisorPanics_desc, [show_int chainID, scannerName])]"

definition audit_label_uses :: "string \<Rightarrow> label_use list" where
  "audit_label_uses chainLabel =
    [(AuditErrors_desc, [''db'']), (AuditErrors_desc, [''db'']), (AuditErrors_desc, [''builder'']), (AuditErrors_desc, [''db'']),
     (AuditErrors_desc, [''rescan'']), (AuditBlocksChecked_desc, [chainLabel]), (AuditErrors_desc, [''db'']),
     (AuditMismatchPendingMissing_desc, [chainLabel])]"

section \<open>Lemmas\<close>

lemma metrics_init_registers:
  assumes "registers Register names"
  shows "list_all desc_ok cs \<Longrightarrow> distinct (map fq_name cs) \<Longrightarrow> names r \<inter> set (map fq_name cs) = {} \<Longrightarrow>
    \<exists>r'. metrics_init Register cs r = Some r' \<and> names r' = names r \<union> set (map fq_name cs)"
proof (induction cs arbitrary: r)
  case (Cons c cs)
  have "desc_ok c" "fq_name c \<notin> names r" using Cons.prems by auto
  with assms obtain r1 where r1: "Register r c = Some r1" "names r1 = insert (fq_name c) (names r)"
    unfolding registers_def by blast
  moreover from Cons.IH [of r1] Cons.prems r1(2)
  obtain r' where "metrics_init Register cs r1 = Some r'" "names r' = names r1 \<union> set (map fq_name cs)"
    by auto
  ultimately show ?case by auto
qed simp

lemmas desc_defs =
  ScannerCursorBlock_desc_def ScannerLatestBlock_desc_def ScannerLagBlocks_desc_def ScannerBlocksProcessed_desc_def
  ScannerDepositsFound_desc_def ScannerErrors_desc_def BufferPendingTotal_desc_def BufferOldestAgeSeconds_desc_def
  PublisherSent_desc_def PublisherSendErrors_desc_def PublisherConnected_desc_def PublisherReconnects_desc_def
  PublisherAcksReceived_desc_def PublisherAckTimeouts_desc_def PublisherInFlight_desc_def SupervisorChainsRunning_desc_def
  SupervisorReconciles_desc_def SupervisorPanics_desc_def AuditCycles_desc_def AuditBlocksChecked_desc_def
  AuditMismatchPendingMissing_desc_def AuditErrors_desc_def AuditLastCycleAgeSeconds_desc_def NotifyReceived_desc_def
  NotifyReconnects_desc_def

lemmas group_defs =
  scanner_collectors_def buffer_collectors_def publisher_collectors_def supervisor_collectors_def audit_collectors_def notify_collectors_def

lemmas collector_defs = desc_defs group_defs

lemmas label_uses_defs = loop_label_uses_def supervisor_label_uses_def audit_label_uses_def

lemma all_metrics_ok: "list_all desc_ok all_metrics"
  by (simp add: all_metrics_def collector_defs desc_ok_def fq_name_def namespace_def name_ok_def letter_def)

lemma all_metrics_distinct: "distinct (map fq_name all_metrics)"
  by (simp add: all_metrics_def collector_defs fq_name_def namespace_def)

lemma all_metrics_length: "length all_metrics = 25"
  by (simp add: all_metrics_def group_defs)

lemma all_metrics_listener: "c \<in> set all_metrics \<Longrightarrow> prefix (namespace @ ''_'') (fq_name c)"
  by (auto simp: all_metrics_def collector_defs fq_name_def)

section \<open>Properties\<close>

text \<open>
  The package initialises: in a registry that keeps its documented promise and holds no name that starts with
  "listener_" (the default registry starts with the collectors of the Go runtime and of the process), all 25 collectors are accepted, so
  that no \<^verbatim>\<open>MustRegister\<close> panics before \<^verbatim>\<open>main\<close>; afterwards exactly their names have been added.
\<close>

theorem metrics_registered:
  assumes "registers Register names"
    and "\<forall>n \<in> names r. \<not> prefix ''listener_'' n"
  shows "\<exists>r'. metrics_init Register all_metrics r = Some r' \<and> names r' = names r \<union> fq_name ` set all_metrics
    \<and> card (fq_name ` set all_metrics) = 25"
proof -
  have "names r \<inter> set (map fq_name all_metrics) = {}"
    using assms(2) all_metrics_listener by (auto simp: namespace_def)
  moreover have "card (set (map fq_name all_metrics)) = 25"
    using distinct_card [OF all_metrics_distinct] by (simp add: all_metrics_length del: set_map)
  ultimately show ?thesis
    using metrics_init_registers [OF assms(1) all_metrics_ok all_metrics_distinct] by simp
qed

text \<open>A registry as a list of names, with two names of the Go runtime.\<close>

definition list_register :: "string list \<Rightarrow> collector \<Rightarrow> string list option" where
  "list_register ns c = (if desc_ok c \<and> fq_name c \<notin> set ns then Some (fq_name c # ns) else None)"

lemma list_registers: "registers list_register set"
  by (simp add: registers_def list_register_def)

theorem metrics_registered_witness:
  "\<exists>ns. metrics_init list_register all_metrics [''go_goroutines'', ''process_open_fds''] = Some ns
    \<and> set ns = {''go_goroutines'', ''process_open_fds''} \<union> fq_name ` set all_metrics"
  using metrics_registered [OF list_registers, of "[''go_goroutines'', ''process_open_fds'']"] by auto

text \<open>
  Every call of \<^verbatim>\<open>WithLabelValues\<close> in the loop, the supervisor and the auditor is on a registered vector and passes as many
  values as the vector has labels, whatever the values are, so none of them panics.
\<close>

theorem label_values_fit:
  "list_all (\<lambda>u. arity_ok u \<and> fst u \<in> set all_metrics)
    (loop_label_uses chainLabel scannerName @ supervisor_label_uses chainID scannerName @ audit_label_uses chainLabel)"
proof -
  let ?us = "loop_label_uses chainLabel scannerName @ supervisor_label_uses chainID scannerName @ audit_label_uses chainLabel"
  have "list_all arity_ok ?us"
    by (simp add: label_uses_defs arity_ok_def desc_defs)
  moreover have "list_all (\<lambda>u. fst u \<in> set all_metrics) ?us"
    by (simp add: label_uses_defs all_metrics_def group_defs)
  ultimately show ?thesis by (simp add: list_all_iff)
qed

end
