(* ===== verification/Shutdown.thy ===== *)
theory Shutdown
  imports Prelude
begin

text \<open>
  \<^verbatim>\<open>internal/common/shutdown/shutdown.go\<close> and the frame that \<^verbatim>\<open>main\<close> puts around it: \<^verbatim>\<open>WithSignals\<close> is
  \<^verbatim>\<open>signal.NotifyContext\<close> for SIGINT and SIGTERM. It subscribes to the two signals (\<^verbatim>\<open>signal.Notify\<close>), which replaces
  their default action, and cancels the context at the first one; the subscription ends only with the returned \<^verbatim>\<open>stop\<close>
  function, which \<^verbatim>\<open>main\<close> defers until \<^verbatim>\<open>run\<close> has returned.
\<close>

datatype os_signal = SIGINT | SIGTERM | SIGHUP | SIGKILL

record process =
  pr_alive :: bool                  \<comment> \<open>the process has not been ended by a signal\<close>
  pr_notify :: "os_signal list"     \<comment> \<open>the signals whose default action is replaced\<close>
  pr_ctx :: "os_signal option"      \<comment> \<open>the signal that cancelled the context\<close>

text \<open>A process at its start: every signal has its default action, which for these four ends the process.\<close>

definition fresh_process :: process where
  "fresh_process = \<lparr>pr_alive = True, pr_notify = [], pr_ctx = None\<rparr>"

definition WithSignals :: "process \<Rightarrow> process" where
  "WithSignals p = p\<lparr>pr_notify := [SIGINT, SIGTERM], pr_ctx := None\<rparr>"

definition stop_signals :: "process \<Rightarrow> process" where
  "stop_signals p = p\<lparr>pr_notify := []\<rparr>"

text \<open>
  The runtime delivers a subscribed signal to the goroutine of \<^verbatim>\<open>NotifyContext\<close>, which takes one and cancels; SIGKILL cannot be
  subscribed to.
\<close>

definition deliver :: "os_signal \<Rightarrow> process \<Rightarrow> process" where
  "deliver s p =
    (if \<not> pr_alive p then p
     else if s \<in> set (pr_notify p) \<and> s \<noteq> SIGKILL then p\<lparr>pr_ctx := (case pr_ctx p of None \<Rightarrow> Some s | Some s' \<Rightarrow> Some s')\<rparr>
     else p\<lparr>pr_alive := False\<rparr>)"

definition deliver_all :: "os_signal list \<Rightarrow> process \<Rightarrow> process" where
  "deliver_all ss p = fold deliver ss p"

section \<open>Properties\<close>

lemma deliver_captured:
  "pr_alive p \<Longrightarrow> pr_notify p = [SIGINT, SIGTERM] \<Longrightarrow> set ss \<subseteq> {SIGINT, SIGTERM} \<Longrightarrow>
    deliver_all ss p = p\<lparr>pr_ctx := (case pr_ctx p of None \<Rightarrow> (case ss of [] \<Rightarrow> None | s # _ \<Rightarrow> Some s) | Some s \<Rightarrow> Some s)\<rparr>"
proof (induction ss arbitrary: p)
  case (Cons s ss)
  have "deliver s p = p\<lparr>pr_ctx := (case pr_ctx p of None \<Rightarrow> Some s | Some s' \<Rightarrow> Some s')\<rparr>"
    using Cons.prems by (auto simp: deliver_def)
  then show ?case using Cons.IH [of "deliver s p"] Cons.prems by (simp add: deliver_all_def split: option.splits)
qed (simp add: deliver_all_def split: option.splits)

text \<open>
  As long as \<^verbatim>\<open>stop\<close> has not been called, no number of SIGINT and SIGTERM ends the process: the first one cancels the
  context and every later one is swallowed. Only after \<^verbatim>\<open>stop\<close> does such a signal end it.
\<close>

theorem second_signal_swallowed:
  assumes "set ss \<subseteq> {SIGINT, SIGTERM}" and "s \<in> {SIGINT, SIGTERM}"
  shows "pr_alive (deliver_all (s # ss) (WithSignals fresh_process))
    \<and> pr_ctx (deliver_all (s # ss) (WithSignals fresh_process)) = Some s
    \<and> \<not> pr_alive (deliver s (stop_signals (deliver_all ss (WithSignals fresh_process))))"
  using assms
  by (subst (1 2 3) deliver_captured) (auto simp: WithSignals_def fresh_process_def stop_signals_def deliver_def)

theorem second_signal_swallowed_witness:
  "pr_alive (deliver_all [SIGTERM, SIGINT, SIGINT] (WithSignals fresh_process))
    \<and> pr_ctx (deliver_all [SIGTERM, SIGINT, SIGINT] (WithSignals fresh_process)) = Some SIGTERM"
  using second_signal_swallowed [of "[SIGINT, SIGINT]" SIGTERM] by simp

end
