(* ===== verification/Spec2Isabelle.thy ===== *)
theory Spec2Isabelle
  imports System Delivery Listener_Main Ack_Flow Wire_Log Audit_System Metrics Shutdown
begin

text \<open>
  Verification of \<^verbatim>\<open>listener-go\<close>, a service that watches EVM chains for deposits to registered addresses and delivers them
  to an Adapter over a WebSocket. This theory is the root of the development; paths below are relative to \<^verbatim>\<open>src/\<close>.

  \<^bold>\<open>The program.\<close> A supervisor (\<^verbatim>\<open>internal/supervisor\<close>) reads the active chains from Postgres and keeps two loops per chain: one with the log
  scanner (native and token transfers), one with the trace scanner (transfers made by contracts). A loop
  (\<^verbatim>\<open>internal/scanner/loop.go\<close>) holds back unconfirmed blocks, scans block by block, and stores the deposits of a block together with
  its cursor in one transaction (\<^verbatim>\<open>internal/database/buffer_repo.go\<close>). The transaction notifies a listener (\<^verbatim>\<open>internal/notify\<close>), which wakes the publisher
  (\<^verbatim>\<open>internal/publisher\<close>); the publisher sends the rows and deletes them, in ACK mode only for an acknowledgement. An auditor
  (\<^verbatim>\<open>internal/audit\<close>) scans sampled blocks again. \<^verbatim>\<open>cmd/listener/main.go\<close> wires the parts and runs them in one group.

  \<^bold>\<open>Theories and sources.\<close>
  \<^item> \<^verbatim>\<open>Prelude\<close>: types for machine integers, decimal printing, association lists; the collections \<open>print_simps\<close> and \<open>u64_simps\<close>.
  \<^item> \<^verbatim>\<open>Go_Errors\<close>, \<^verbatim>\<open>Retry\<close>, \<^verbatim>\<open>Go_Time\<close>: \<^verbatim>\<open>common/errors\<close>, \<^verbatim>\<open>common/retry\<close> and the parts of the packages \<^verbatim>\<open>errors\<close> and \<^verbatim>\<open>time\<close> they use.
  \<^item> \<^verbatim>\<open>Deposit\<close>, \<^verbatim>\<open>Json\<close>: \<^verbatim>\<open>model/deposit.go\<close>, \<^verbatim>\<open>publisher/protocol.go\<close>, with JSON documents as abstract syntax and the normal form of a JSONB column.
  \<^item> \<^verbatim>\<open>Interfaces\<close>, \<^verbatim>\<open>Chain_Source\<close>: the consumer-defined Go interfaces as records of operations, and their contracts as the locales
    \<open>publisher_buffer\<close>, \<open>responsive_buffer\<close>, \<open>audit_buffer\<close>, \<open>typed_scanner\<close>, \<open>chain_source\<close> (and \<open>decoder\<close>, \<open>supervised\<close> further on).
  \<^item> \<^verbatim>\<open>Buffer_Repo\<close>, \<^verbatim>\<open>Account_Repo\<close>, \<^verbatim>\<open>Config_Repo\<close>: the repositories of \<^verbatim>\<open>internal/database\<close>; tables are lists of rows, each database call takes
    its outcome (served, refused, served but reported as failed) from a list in the state, so that theorems hold for every schedule of faults.
  \<^item> \<^verbatim>\<open>Publisher\<close>, \<^verbatim>\<open>Delivery\<close>: \<^verbatim>\<open>publisher.go\<close>; the lemmas are proved once for any buffer that keeps the contract and instantiated in \<^verbatim>\<open>Delivery\<close> for the repository.
  \<^item> \<^verbatim>\<open>Ack_Flow\<close>, \<^verbatim>\<open>Wire_Log\<close>: the reading goroutine of a connection with its channels beside the drain loop, the read deadline and the
    dialling helpers; and the publisher over a socket that logs its frames, up to the composition with a poll.
  \<^item> \<^verbatim>\<open>Loop\<close>, \<^verbatim>\<open>Eth\<close>, \<^verbatim>\<open>Decryption\<close>, \<^verbatim>\<open>Decoders\<close>, \<^verbatim>\<open>Log_Scanner\<close>, \<^verbatim>\<open>Trace_Scanner\<close>: \<^verbatim>\<open>internal/scanner\<close>, its decoders and \<^verbatim>\<open>internal/decryption\<close>.
  \<^item> \<^verbatim>\<open>Supervisor\<close>, \<^verbatim>\<open>Auditing\<close>, \<^verbatim>\<open>Notify\<close>, \<^verbatim>\<open>Http_Server\<close>, \<^verbatim>\<open>Settings\<close>: the packages \<^verbatim>\<open>supervisor\<close>, \<^verbatim>\<open>audit\<close>, \<^verbatim>\<open>notify\<close>, \<^verbatim>\<open>httpserver\<close> and \<^verbatim>\<open>config\<close> (\<^verbatim>\<open>Settings\<close> holds \<^verbatim>\<open>logger\<close> too).
  \<^item> \<^verbatim>\<open>Metrics\<close>, \<^verbatim>\<open>Shutdown\<close>: the collectors of \<^verbatim>\<open>internal/metrics\<close> with their registration and call sites, and the signals of \<^verbatim>\<open>common/shutdown\<close>.
  \<^item> \<^verbatim>\<open>System\<close>: scanners, publisher, connection, Adapter and faults as one step relation.
  \<^item> \<^verbatim>\<open>Audit_System\<close>: the auditor beside the scanners that fill the buffer it reads.
  \<^item> \<^verbatim>\<open>Listener_Main\<close>: \<^verbatim>\<open>main.go\<close> and \<^verbatim>\<open>pool.go\<close>; the locales are interpreted on the wired parts.

  \<^bold>\<open>What is shown.\<close> Storage is atomic and idempotent, and what is stored is read back; a poll passes only blocks that were scanned and stored, always
  returns, and catches up when everything answers; both scanners find exactly the transfers they are meant to find, under keys that never
  clash; in ACK mode a row is deleted only for its own acknowledgement, a row that is deleted had its own message written on that connection, the window is
  bounded, no acknowledgement is dropped between reader and drain loop, and a backlog is delivered; from a poll to the socket, every deposit found is sent; no deposit that was
  ever stored is lost end to end, over every interleaving of saves, sends, acknowledgements, reconnects and faults, and the wired loops
  are refinements of the scanners of that system; the supervisor never has two live runners of a chain, follows the tables and does not hang;
  the audit alarm is exact, raises no false alarm on settled blocks, reads only, and samples inside its window; the HTTP routes are exact
  and the metrics register. Some theorems record where the code falls short of its purpose: a
  cursor of zero, keys of internal transfers that shift, tracing that is switched off for good, settings outside the fingerprint, an overlap after
  reactivation, the panics on a negative audit window and on intervals of zero, a second signal that is swallowed, and chains of type \<^verbatim>\<open>eerc20\<close> that stop.

  \<^bold>\<open>Conventions.\<close> A Go error is a value of \<^typ>\<open>goerror\<close>, a fallible result is a sum with the error on the left, a panic is \<^const>\<open>None\<close> or a
  constructor of its own. \<^verbatim>\<open>uint64\<close> and \<^verbatim>\<open>int64\<close> chain ids are 64-bit words; the \<^verbatim>\<open>int\<close> and \<^verbatim>\<open>int64\<close> values that can overflow are wrapped where the code
  computes them (\<^const>\<open>wrap64\<close>, \<^const>\<open>to_i64\<close>). Libraries outside the repository (go-ethereum, pgx, the WebSocket, SHA-256, Keccak, \<^verbatim>\<open>math/rand\<close>, the environment
  parser, the clock) are parameters. Go's map order and the completion order of goroutines are parameters constrained only to be
  rearrangements. No model uses fuel: loops that may run for ever are \<^theory_text>\<open>partial_function (option)\<close> with \<^const>\<open>None\<close> for not returning
  (\<^const>\<open>poll_blocks\<close>, \<^const>\<open>flushUntilEmpty\<close>, \<^const>\<open>wait_loop\<close>, \<^const>\<open>listen_loop\<close>), and that they return is proved where it holds; event loops take the list of
  events their \<^verbatim>\<open>select\<close> sees.

  \<^bold>\<open>Granularity.\<close> A transaction, one turn of a \<^verbatim>\<open>select\<close> loop and one reconcile are atomic; in \<^const>\<open>sys_step\<close> they interleave freely. Within a reconcile, loops
  end only while the supervisor waits for them. \<^verbatim>\<open>errgroup\<close> and the sender pool are represented by the order in which their goroutines finish.

  \<^bold>\<open>Not modelled.\<close> Log output, except for the levels of the reconnect log and what \<^verbatim>\<open>logger.New\<close> configures; the handlers of \<^verbatim>\<open>promhttp\<close> and \<^verbatim>\<open>pprof\<close> and the
  HTTP and WebSocket protocols (write deadlines included); timers as such (a tick is an event; that \<^verbatim>\<open>time.NewTicker\<close> panics for an interval that is not positive is modelled);
  the byte syntax of JSON; the SQL of \<^verbatim>\<open>migrations\<close>, except for the unique key and the column widths that the queries rely on. The Adapter is outside the
  repository; all that is assumed of it is that it acknowledges only what it received.
\<close>

section \<open>Lemmas\<close>

lemma ack_of_reply:
  "ack_of (InText (Some (marshal_envelope \<lparr>env_Type = ''ack'', env_ID = mid, env_Payload = None\<rparr>))) = (if mid = '''' then None else Some mid)"
  by (simp add: marshal_envelope_def unmarshal_envelope_def msgTypeAck_def)

lemma built_strategies:
  assumes "newLoopBuilder W chainCfg n = (Inr (d, l, t), n')"
  shows "strategy l = log_scanner (NewLogScanner W d chainCfg)" "strategy t = trace_scanner (NewTraceScanner W d chainCfg)"
  using assms by (auto simp: newLoopBuilder_def NewLoop_def split: prod.splits sum.splits)

lemma decode_log_private:
  assumes "private_transfer (ls_lib S) lg" and "Lookup reg (PrivateTransferTopic (ls_lib S)) = Some (EERC d)"
    and "map_of (cc_Contracts (ls_chain S)) (to_lower (addr_Hex (ls_lib S) (log_Address lg))) = Some info"
  shows "\<exists>e. decode_log S reg k t lg = Inl e"
proof -
  obtain ts where "log_Topics lg = PrivateTransferTopic (ls_lib S) # ts"
    using assms(1) by (cases "log_Topics lg") (auto simp: private_transfer_def)
  moreover obtain e where "eerc_Decode (ls_lib S) d lg info (token_context S k t info) = Inl e"
    using eerc_Decode_error [OF assms(1)] by blast
  ultimately show ?thesis using assms(2,3) by (simp add: decode_log_def)
qed

text \<open>The block holds a complete private transfer of a configured contract, in every answer of the node.\<close>

definition holds_private_transfer :: "'n wiring \<Rightarrow> 'n Dialed \<Rightarrow> ChainConfig \<Rightarrow> u64 \<Rightarrow> bool" where
  "holds_private_transfer W d chainCfg b \<longleftrightarrow>
    (\<forall>n n'. BlockByNumber (d_client d) b n \<noteq> (Inr None, n'))
    \<and> (\<forall>q n logs n'. FilterLogs (d_client d) q n = (Inr logs, n') \<and> FromBlock q = b \<and> ToBlock q = b \<longrightarrow>
        (\<exists>lg \<in> set logs. private_transfer (w_lib W) lg
           \<and> map_of (cc_Contracts chainCfg) (to_lower (addr_Hex (w_lib W) (log_Address lg))) \<noteq> None))"

lemma eerc_decoders:
  "cc_ChainType c = ''eerc20'' \<Longrightarrow>
    Lookup (decodersForChain lib (cc_ChainType c) x) (PrivateTransferTopic lib) = Some (EERC x) \<and> Len (decodersForChain lib (cc_ChainType c) x) = 1"
  by (simp add: decodersForChain_def NewEERC_def Register_def Lookup_def Len_def NewRegistry_def register_topic_def)

lemma private_block_unscannable:
  assumes "cc_ChainType chainCfg = ''eerc20''" and "0 \<le> MaxRetries (w_retryOpts W)" and "cc_Contracts chainCfg \<noteq> []"
    and "holds_private_transfer W d chainCfg b"
  shows "\<exists>e s'. ScanBlock (log_scanner (NewLogScanner W d chainCfg)) b k s = (Inl e, s')"
proof -
  define S where "S = NewLogScanner W d chainCfg"
  define reg where "reg = decodersForChain (w_lib W) (cc_ChainType chainCfg) (w_decryptor W)"
  have S: "ls_client S = d_client d" "ls_retryOpt S = w_retryOpts W" "ls_lib S = w_lib W" "ls_chain S = chainCfg" "ls_decoders S = Some reg"
    by (simp_all add: S_def NewLogScanner_def reg_def)
  have reg: "Lookup reg (PrivateTransferTopic (w_lib W)) = Some (EERC (w_decryptor W))" "Len reg = 1"
    using eerc_decoders [OF assms(1)] by (simp_all add: reg_def)
  have tok: "fst (parseTokenTransfers S reg b k t w) \<noteq> Inr evs" for t evs and w :: "('a, 'b) world_scheme"
  proof
    assume "fst (parseTokenTransfers S reg b k t w) = Inr evs"
    then obtain w' where "parseTokenTransfers S reg b k t w = (Inr evs, w')" by (metis prod.collapse)
    from parseToken_results [OF this] obtain logs w1 where
      f: "rpc_do (d_client d) (w_retryOpts W) [] (FilterLogs (d_client d) (token_query S reg b)) w = (Inr logs, w1)"
      and ok: "\<forall>lg \<in> set logs. \<exists>x. decode_log S reg k t lg = Inr x" using S by auto
    obtain n n' where "FilterLogs (d_client d) (token_query S reg b) n = (Inr logs, n')"
      using rpc_do_success [OF f] assms(2) by auto
    then obtain lg where "lg \<in> set logs" "private_transfer (w_lib W) lg"
        "map_of (cc_Contracts chainCfg) (to_lower (addr_Hex (w_lib W) (log_Address lg))) \<noteq> None"
      using assms(4) by (fastforce simp: holds_private_transfer_def token_query_def)
    then obtain e where "decode_log S reg k t lg = Inl e"
      using decode_log_private [of S lg reg "w_decryptor W" _ k t] reg(1) S by auto
    with ok \<open>lg \<in> set logs\<close> show False by fastforce
  qed
  have "fst (log_ScanBlock S b k s) \<noteq> Inr evs" for evs
  proof
    assume ok: "fst (log_ScanBlock S b k s) = Inr evs"
    then have scan: "log_ScanBlock S b k s = (Inr evs, snd (log_ScanBlock S b k s))" by (metis prod.collapse)
    obtain x w1 where r: "rpc_do (d_client d) (w_retryOpts W) None (BlockByNumber (d_client d) b) s = (x, w1)" by fastforce
    have "x \<noteq> Inr None"
      using rpc_do_success [of "d_client d" "w_retryOpts W" None "BlockByNumber (d_client d) b" s None w1] r assms(2,4)
      by (auto simp: holds_private_transfer_def)
    then obtain block where x: "x = Inr (Some block)"
      using scan r S by (cases x) (auto simp: log_ScanBlock_def)
    obtain y w2 where y: "parseNativeTransfers S block k (block_time block) w1 = (y, w2)" by fastforce
    obtain z w3 where z: "parseTokenTransfers S reg b k (block_time block) w2 = (z, w3)" by fastforce
    have "fst (log_ScanBlock S b k s) = (case y of Inl e \<Rightarrow> Inl (Wrap ''parse native'' e) | Inr natives \<Rightarrow>
        (case z of Inl e \<Rightarrow> Inl (Wrap ''parse tokens'' e) | Inr tokens \<Rightarrow> Inr (natives @ tokens)))"
      using r x y z S reg(2) assms(3) by (simp add: log_ScanBlock_def split: sum.split)
    with ok have "\<exists>tokens. z = Inr tokens" by (auto split: sum.splits)
    with tok z show False by (metis fst_conv)
  qed
  then show ?thesis
    by (metis S_def log_scanner_def Scanner.select_convs(2) prod.collapse sum.exhaust)
qed

section \<open>Samples\<close>

text \<open>A node whose block 6 holds a plain transfer and a private transfer, and a chain of type eerc20 on it.\<close>

definition private_node :: "unit ETHClient" where
  "private_node = \<lparr>cl_BlockNumber = (\<lambda>n. (Inr 12, n)), BlockByNumber = (\<lambda>b n. (Inr (Some sample_block), n)),
     FilterLogs = (\<lambda>q n. (Inr [sample_log [51, 5, 6, 7] 224], n)), CodeAt = (\<lambda>a n. (Inr [], n)),
     TransactionSender = (\<lambda>tx h i n. (Inr 5, n)), ctx_wait = (\<lambda>n d. (None, n))\<rparr>"

definition private_dial :: "unit Dialed" where
  "private_dial = \<lparr>d_client = private_node, d_trace = (\<lambda>h n. (Inr None, n)), d_close = (\<lambda>n. n)\<rparr>"

definition private_wiring :: "unit wiring" where
  "private_wiring = down_wiring\<lparr>w_dial := (\<lambda>url n. (Inr private_dial, n))\<rparr>"

definition private_chain :: ChainConfig where
  "private_chain = \<lparr>cc_ChainID = 1, cc_RPCURL = [], cc_Native = ''ETH'', cc_Decimals = 18, cc_BlockTimeMs = 0, cc_PollingIntervalMs = 1000,
     cc_MinConfirmations = 2, cc_ChainType = ''eerc20'', cc_Contracts = [(''0x7'', \<lparr>ci_Symbol = ''USDT'', ci_Decimals = 6\<rparr>)]\<rparr>"

definition private_loop :: "unit tworld Loop" where
  "private_loop = NewLoop private_wiring private_dial private_chain (log_scanner (NewLogScanner private_wiring private_dial private_chain))"

definition private_trace_loop :: "unit tworld Loop" where
  "private_trace_loop = NewLoop private_wiring private_dial private_chain (trace_scanner (NewTraceScanner private_wiring private_dial private_chain))"

definition private_state :: "pool \<Rightarrow> unit tworld loop_state" where
  "private_state p = \<lparr>node = \<lparr>eth_node = (), acc = \<lparr>accounts = [(1, ''0x7'')], acc_outcomes = []\<rparr>, codeCache = [], traceUnsupported = False\<rparr>,
     bpool = p, lmet = \<lparr>ScannerErrors = 0, ScannerLatestBlock = 0, ScannerCursorBlock = 0, ScannerLagBlocks = 0,
       ScannerBlocksProcessed = 0, ScannerDepositsFound = 0\<rparr>\<rparr>"

lemma private_built: "newLoopBuilder private_wiring private_chain () = (Inr (private_dial, private_loop, private_trace_loop), ())"
  by (simp add: newLoopBuilder_def private_wiring_def private_loop_def private_trace_loop_def)

lemma private_head:
  "head_read private_loop (private_state p) = (Inr 12, node (private_state p))"
  by (rule Do_first_attempt)
    (simp_all add: private_loop_def NewLoop_def loopCfgFor_def private_wiring_def down_wiring_def private_dial_def private_node_def)

lemma private_poll: "\<exists>r st'. pollOnce private_loop (private_state p) = Some (r, st')"
  using pollOnce_some [of private_loop "private_state p"] private_head [of p] by auto

lemma private_holds: "holds_private_transfer private_wiring private_dial private_chain 6"
proof -
  have "to_lower (addr_Hex sample_lib 7) = ''0x7''" by code_simp
  then show ?thesis
    by (auto simp: holds_private_transfer_def private_dial_def private_node_def private_wiring_def down_wiring_def private_transfer_def
        private_chain_def sample_log_def)
qed

text \<open>The log scanner finds one native and one token transfer in its sample block.\<close>

lemma sample_block_read:
  "rpc_do (ls_client sample_scanner) (ls_retryOpt sample_scanner) None (BlockByNumber (ls_client sample_scanner) 100) sample_world =
    (Inr (Some sample_block), sample_world)"
  by (simp add: rpc_do_def Do_def sample_scanner_def sample_client_def sample_world_def)

lemma sample_block_scan:
  "\<exists>evs. log_ScanBlock sample_scanner 100 12 sample_world = (Inr evs, sample_world) \<and> length evs = 2"
proof -
  have S: "ls_decoders sample_scanner = Some (Register sample_lib StandardERC20 NewRegistry)" "cc_Contracts (ls_chain sample_scanner) \<noteq> []"
    "Len (Register sample_lib StandardERC20 NewRegistry) = 1"
    by (simp_all add: sample_scanner_def Register_def Len_def NewRegistry_def register_topic_def)
  show ?thesis by (simp add: log_ScanBlock_def sample_block_read sample_native sample_token S Let_def)
qed

section \<open>Properties\<close>



text \<open>
  C20. The two scanners of a chain never claim the same key. If the scanned block has fewer than 100000 transactions and the node
  reports log indices below \<open>2 ^ 63\<close>, no event of the log scanner has the key (chain, hash, index) of an event of the trace scanner,
  so that neither suppresses the other's deposit as a duplicate.
\<close>

theorem scanner_keys_disjoint:
  assumes "log_ScanBlock S b k w = (Inr levs, w')" and "trace_ScanBlock T b' k' v = (Inr tevs, v')"
    and "\<forall>cs. mset (completion S cs) = mset cs"
    and "\<forall>block w1. rpc_do (ls_client S) (ls_retryOpt S) None (BlockByNumber (ls_client S) b) w = (Inr (Some block), w1) \<longrightarrow> length (Transactions block) < 100000"
    and "\<forall>q n logs n'. FilterLogs (ls_client S) q n = (Inr logs, n') \<longrightarrow> (\<forall>lg \<in> set logs. 0 \<le> to_i64 (log_Index lg))"
    and "length tevs < 2 ^ 62"
  shows "event_key ` set levs \<inter> event_key ` set tevs = {}"
proof -
  have "event_key e \<noteq> event_key e'" if "e \<in> set levs" "e' \<in> set tevs" for e e'
    using log_scan_indices [OF assms(1,3,4,5) that(1)] trace_scan_indices [OF assms(2,6) that(2)]
    by (auto simp: event_key_def)
  then show ?thesis by blast
qed

theorem scanner_keys_disjoint_witness:
  "\<exists>levs w' tevs v'. log_ScanBlock sample_scanner 100 12 sample_world = (Inr levs, w')
    \<and> trace_ScanBlock (sample_tracer healthy) 5 12 (traced_world []) = (Inr tevs, v') \<and> length levs = 2 \<and> length tevs = 2
    \<and> event_key ` set levs \<inter> event_key ` set tevs = {}"
proof -
  obtain levs where l: "log_ScanBlock sample_scanner 100 12 sample_world = (Inr levs, sample_world)" "length levs = 2"
    using sample_block_scan by blast
  obtain v' where t: "trace_ScanBlock (sample_tracer healthy) 5 12 (traced_world []) = (Inr sample_events, v')"
    using sample_scan by (metis fst_conv surj_pair)
  have len: "length sample_events = 2" by (simp add: sample_events_def)
  have "event_key ` set levs \<inter> event_key ` set sample_events = {}"
  proof (rule scanner_keys_disjoint [OF l(1) t])
    show "\<forall>cs. mset (completion sample_scanner cs) = mset cs" by (simp add: sample_scanner_def)
    show "\<forall>block w1. rpc_do (ls_client sample_scanner) (ls_retryOpt sample_scanner) None (BlockByNumber (ls_client sample_scanner) 100) sample_world =
        (Inr (Some block), w1) \<longrightarrow> length (Transactions block) < 100000"
      using sample_block_read by (simp add: sample_block_def)
    show "\<forall>q n logs n'. FilterLogs (ls_client sample_scanner) q n = (Inr logs, n') \<longrightarrow> (\<forall>lg \<in> set logs. 0 \<le> to_i64 (log_Index lg))"
      by (simp add: sample_scanner_def sample_client_def sample_log_def to_i64_def)
  qed (simp add: len)
  with l t len show ?thesis by blast
qed

text \<open>
  C29. The wire format is lossless and its ids identify deposits: the message for a deposit parses as an envelope of type \<^verbatim>\<open>deposit\<close> whose payload
  is that deposit field for field, it is never taken for an acknowledgement, the Adapter's \<^verbatim>\<open>ack\<close> with its id is read back as that id, and two
  deposits have the same id only if they have the same chain, hash and index.
\<close>

theorem wire_roundtrip:
  assumes "wf_deposit d"
  shows "\<exists>env p. unmarshal_envelope (fst (encodeDeposit d)) = Inr env \<and> env_Type env = ''deposit''
    \<and> env_Payload env = Some p \<and> unmarshal_deposit p = Inr d
    \<and> ack_of (InText (Some (fst (encodeDeposit d)))) = None
    \<and> ack_of (InText (Some (marshal_envelope \<lparr>env_Type = ''ack'', env_ID = env_ID env, env_Payload = None\<rparr>))) = Some (snd (encodeDeposit d))
    \<and> (\<forall>d'. snd (encodeDeposit d') = snd (encodeDeposit d) \<longleftrightarrow> deposit_key d' = deposit_key d)"
proof -
  have "key_id (deposit_key d) \<noteq> ''''" by (simp add: key_id_def deposit_key_def ackID_def)
  then show ?thesis
    using unmarshal_marshalled [OF assms]
    by (simp add: unmarshal_encoded ack_of_reply del: ack_of.simps) (simp add: unmarshal_encoded msgTypeDeposit_def msgTypeAck_def)
qed

theorem wire_roundtrip_witness:
  "\<exists>env p. unmarshal_envelope (fst (encodeDeposit sample_deposit)) = Inr env
    \<and> env_Payload env = Some p \<and> unmarshal_deposit p = Inr sample_deposit"
proof -
  have "wf_deposit sample_deposit" by simp
  from wire_roundtrip [OF this] show ?thesis by blast
qed



end
